(* ===== verification/HSM_Prelude.thy ===== *)
theory HSM_Prelude
  imports Main "HOL-Library.Word" "HOL-Library.Char_ord" "HOL-Library.List_Lexorder"
begin

text \<open>
  Shared vocabulary of the development: Rust's fixed-width integers and the
  checked, saturating and byte-order operations the sources use on them, the
  standard collections' operations (\<open>retain\<close>, \<open>partition_point\<close>), and the
  generic lemmas about words, byte strings, lists and maps the component
  theories build on.  The collections \<open>raft_defs\<close>, \<open>codec_simps\<close> and
  \<open>word_nat\<close> gather the facts the component proofs hand to the simplifier.
\<close>

named_theorems raft_defs \<open>definitions of the small operations of the Raft node\<close>
named_theorems codec_simps \<open>length and injectivity facts on byte encodings\<close>
named_theorems word_nat \<open>word arithmetic read as natural numbers\<close>

section \<open>Rust integers\<close>

type_synonym u8 = "8 word"
type_synonym u32 = "32 word"
type_synonym u64 = "64 word"
type_synonym bytes = "u8 list"

abbreviation u64_max :: u64 where
  "u64_max \<equiv> - 1"

definition checked_add :: "'a::len word \<Rightarrow> 'a word \<Rightarrow> 'a word option" where
  "checked_add a b = (if unat a + unat b < 2 ^ LENGTH('a) then Some (a + b) else None)"

definition checked_sub :: "'a::len word \<Rightarrow> 'a word \<Rightarrow> 'a word option" where
  "checked_sub a b = (if a < b then None else Some (a - b))"

definition saturating_add :: "'a::len word \<Rightarrow> 'a word \<Rightarrow> 'a word" where
  "saturating_add a b = (if unat a + unat b < 2 ^ LENGTH('a) then a + b else - 1)"

definition saturating_sub :: "'a::len word \<Rightarrow> 'a word \<Rightarrow> 'a word" where
  "saturating_sub a b = (if a < b then 0 else a - b)"

definition saturating_mul :: "'a::len word \<Rightarrow> 'a word \<Rightarrow> 'a word" where
  "saturating_mul a b = (if unat a * unat b < 2 ^ LENGTH('a) then a * b else - 1)"

section \<open>Byte order\<close>

text \<open>\<open>to_le_bytes\<close> and \<open>to_be_bytes\<close> of a word of \<open>k\<close> bytes, and their inverses.\<close>

definition le_bytes :: "nat \<Rightarrow> 'a::len word \<Rightarrow> bytes" where
  "le_bytes k w = map (\<lambda>i. ucast (drop_bit (8 * i) w)) [0..<k]"

definition be_bytes :: "nat \<Rightarrow> 'a::len word \<Rightarrow> bytes" where
  "be_bytes k w = rev (le_bytes k w)"

primrec from_le_bytes :: "bytes \<Rightarrow> 'a::len word" where
  "from_le_bytes [] = 0"
| "from_le_bytes (b # bs) = or (ucast b) (push_bit 8 (from_le_bytes bs))"

definition from_be_bytes :: "bytes \<Rightarrow> 'a::len word" where
  "from_be_bytes bs = from_le_bytes (rev bs)"

definition u64_be :: "u64 \<Rightarrow> bytes" where
  "u64_be = be_bytes 8"

definition u64_le :: "u64 \<Rightarrow> bytes" where
  "u64_le = le_bytes 8"

text \<open>\<open>(n as u32).to_be_bytes()\<close> of a length: the cast keeps the low 32 bits.\<close>

definition len_u32_be :: "nat \<Rightarrow> bytes" where
  "len_u32_be n = be_bytes 4 (word_of_nat n :: u32)"

text \<open>\<open>as_bytes\<close> of a string, whose characters are its UTF-8 bytes.\<close>

definition as_bytes :: "string \<Rightarrow> bytes" where
  "as_bytes s = map (\<lambda>c. word_of_nat (of_char c)) s"

section \<open>Collections\<close>

text \<open>
  \<open>slice::partition_point\<close>: the index of the first element on which the predicate
  fails, for a slice on which the predicate holds on a prefix only (which the
  standard library asks for).
\<close>

definition partition_point :: "('a \<Rightarrow> bool) \<Rightarrow> 'a list \<Rightarrow> nat" where
  "partition_point p xs = length (takeWhile p xs)"

text \<open>\<open>HashMap::retain\<close>.\<close>

definition map_retain :: "('k \<Rightarrow> 'v \<Rightarrow> bool) \<Rightarrow> ('k \<rightharpoonup> 'v) \<Rightarrow> ('k \<rightharpoonup> 'v)" where
  "map_retain p m = (\<lambda>k. case m k of Some v \<Rightarrow> if p k v then Some v else None | None \<Rightarrow> None)"

text \<open>\<open>entry(k).or_insert(v)\<close>.\<close>

definition or_insert :: "('k \<rightharpoonup> 'v) \<Rightarrow> 'k \<Rightarrow> 'v \<Rightarrow> ('k \<rightharpoonup> 'v)" where
  "or_insert m k v = (case m k of Some _ \<Rightarrow> m | None \<Rightarrow> m(k \<mapsto> v))"

section \<open>Platform and formatting\<close>

text \<open>The largest \<open>usize\<close> of a 64-bit target, and \<open>Display\<close> of an unsigned integer.\<close>

definition usize_max :: nat where
  "usize_max = 2 ^ 64 - 1"

fun decimal :: "nat \<Rightarrow> string" where
  "decimal n = (if n < 10 then [char_of (48 + n)] else decimal (n div 10) @ [char_of (48 + n mod 10)])"

declare decimal.simps [simp del]

section \<open>Lemmas on words\<close>

lemma unat_less_2p: "unat (w :: 'a::len word) < 2 ^ LENGTH('a)"
  by (rule unsigned_less)

lemma unat_u64_less: "unat (w :: u64) < 18446744073709551616"
  using unsigned_less [of w] by simp

lemma unat_max_word [simp]: "unat (- 1 :: 'a::len word) = 2 ^ LENGTH('a) - 1"
  by (simp add: unsigned_minus_1_eq_mask mask_eq_exp_minus_1)

lemma checked_add_Some [word_nat]:
  "checked_add a b = Some c \<Longrightarrow> unat c = unat a + unat b"
  by (auto simp: checked_add_def unat_word_ariths split: if_splits)

lemma checked_sub_Some [word_nat]:
  "checked_sub a b = Some c \<Longrightarrow> b \<le> a \<and> unat c = unat a - unat b"
  by (auto simp: checked_sub_def unat_sub not_less split: if_splits)

lemma unat_saturating_sub [word_nat]:
  "unat (saturating_sub a b) = unat a - unat b"
  by (simp add: saturating_sub_def unat_sub word_less_nat_alt word_le_nat_alt not_less)

lemma unat_saturating_add [word_nat]:
  "unat (saturating_add a b :: 'a::len word) = min (unat a + unat b) (2 ^ LENGTH('a) - 1)"
  by (auto simp: saturating_add_def unat_word_ariths min_def not_less)

lemma unat_saturating_mul [word_nat]:
  "unat (saturating_mul a b :: 'a::len word) = min (unat a * unat b) (2 ^ LENGTH('a) - 1)"
proof (cases "unat a * unat b < 2 ^ LENGTH('a)")
  case True
  then have "unat a * unat b \<le> 2 ^ LENGTH('a) - 1" by linarith
  with True show ?thesis by (simp add: saturating_mul_def unat_word_ariths)
next
  case False
  then have "2 ^ LENGTH('a) - 1 \<le> unat a * unat b" by linarith
  with False show ?thesis by (simp add: saturating_mul_def)
qed

lemma saturating_add_le [intro]: "a \<le> saturating_add a b"
proof -
  have "unat a \<le> 2 ^ LENGTH('a) - 1" using unat_less_2p [of a] by linarith
  then show ?thesis by (simp add: word_le_nat_alt unat_saturating_add)
qed

lemma unat_plus_one_bound [word_nat]:
  "Suc (unat (a::'a::len word)) < 2 ^ LENGTH('a) \<Longrightarrow> unat (a + 1) = Suc (unat a)"
  by (simp add: unat_word_ariths)

lemma word_max_iff: "(a :: 'a::len word) = - 1 \<longleftrightarrow> unat a = 2 ^ LENGTH('a) - 1"
  by (simp add: word_unat_eq_iff)

lemma unat_plus_one [word_nat]:
  "(a::'a::len word) \<noteq> - 1 \<Longrightarrow> unat (a + 1) = Suc (unat a)"
proof (rule unat_plus_one_bound)
  assume "a \<noteq> - 1"
  then have "unat a \<noteq> 2 ^ LENGTH('a) - 1" by (simp add: word_max_iff)
  with unat_less_2p [of a] show "Suc (unat a) < 2 ^ LENGTH('a)" by linarith
qed

lemma unat_minus_le [word_nat]: "(b::'a::len word) \<le> a \<Longrightarrow> unat (a - b) = unat a - unat b"
  by (rule unat_sub)

lemma unat_minus_one_pos [word_nat]: "(a::'a::len word) \<noteq> 0 \<Longrightarrow> unat (a - 1) = unat a - 1"
  by (rule unat_minus_one)

lemma Suc_unat_minus_one: "(a::'a::len word) \<noteq> 0 \<Longrightarrow> Suc (unat (a - 1)) = unat a"
  using unat_gt_0 [of a] by (simp add: unat_minus_one)

section \<open>Lemmas on byte strings\<close>

lemma length_le_bytes [simp, codec_simps]: "length (le_bytes k w) = k"
  by (simp add: le_bytes_def)

lemma length_be_bytes [simp, codec_simps]: "length (be_bytes k w) = k"
  by (simp add: be_bytes_def)

lemma length_u64_be [simp, codec_simps]: "length (u64_be w) = 8"
  by (simp add: u64_be_def)

lemma length_u64_le [simp, codec_simps]: "length (u64_le w) = 8"
  by (simp add: u64_le_def)

lemma length_len_u32_be [simp, codec_simps]: "length (len_u32_be n) = 4"
  by (simp add: len_u32_be_def)

lemma length_as_bytes [simp, codec_simps]: "length (as_bytes s) = length s"
  by (simp add: as_bytes_def)

lemma le_bytes_Suc:
  "le_bytes (Suc k) w = ucast w # le_bytes k (drop_bit 8 w)"
  by (simp add: le_bytes_def map_upt_Suc add.commute del: upt_Suc)

lemma from_le_bytes_le_bytes:
  "from_le_bytes (le_bytes k (w :: 'a::len word)) = take_bit (8 * k) w"
proof (induction k arbitrary: w)
  case 0
  then show ?case by (simp add: le_bytes_def)
next
  case (Suc k)
  have "or (ucast (ucast w :: u8)) (push_bit 8 (take_bit (8 * k) (drop_bit 8 w)))
        = take_bit (8 * Suc k) w"
    by (rule bit_word_eqI) (auto simp: bit_simps)
  with Suc.IH show ?case by (simp add: le_bytes_Suc)
qed

lemma take_bit_word_all: "LENGTH('a) \<le> k \<Longrightarrow> take_bit k (w :: 'a::len word) = w"
  by (rule bit_word_eqI) (auto simp: bit_simps)

lemma from_le_u64_le [simp]: "from_le_bytes (u64_le w) = w"
  by (simp add: u64_le_def from_le_bytes_le_bytes take_bit_word_all)

lemma from_be_u64_be [simp]: "from_be_bytes (u64_be w) = w"
  by (simp add: u64_be_def be_bytes_def from_be_bytes_def from_le_bytes_le_bytes take_bit_word_all)

lemma from_be_len_u32: "from_be_bytes (len_u32_be n) = (word_of_nat n :: u32)"
  by (simp add: len_u32_be_def be_bytes_def from_be_bytes_def from_le_bytes_le_bytes take_bit_word_all)

lemma u64_be_inject [simp]: "u64_be a = u64_be b \<longleftrightarrow> a = b"
  by (metis from_be_u64_be)

lemma u64_le_inject [simp]: "u64_le a = u64_le b \<longleftrightarrow> a = b"
  by (metis from_le_u64_le)

lemma len_u32_be_inject:
  "n < 2 ^ 32 \<Longrightarrow> m < 2 ^ 32 \<Longrightarrow> len_u32_be n = len_u32_be m \<longleftrightarrow> n = m"
proof
  assume small: "n < 2 ^ 32" "m < 2 ^ 32" and eq: "len_u32_be n = len_u32_be m"
  from eq have "unat (word_of_nat n :: u32) = unat (word_of_nat m :: u32)"
    by (metis from_be_len_u32)
  with small show "n = m" by (simp add: unat_of_nat)
qed simp

lemma as_bytes_inject [simp]: "as_bytes s = as_bytes t \<longleftrightarrow> s = t"
proof -
  have "inj (\<lambda>c. word_of_nat (of_char c) :: u8)"
  proof (rule injI)
    fix c d :: char
    assume "(word_of_nat (of_char c) :: u8) = word_of_nat (of_char d)"
    then have "unat (word_of_nat (of_char c) :: u8) = unat (word_of_nat (of_char d) :: u8)"
      by simp
    then have "(of_char c :: nat) mod 256 = of_char d mod 256"
      by (simp add: unat_of_nat)
    then show "c = d" by simp
  qed
  then show ?thesis by (simp add: as_bytes_def inj_map_eq_map)
qed

text \<open>Two concatenations agree when their heads have one length and the parts agree.\<close>

lemma append_eq_split [codec_simps]:
  "length a = length b \<Longrightarrow> a @ c = b @ d \<longleftrightarrow> a = b \<and> c = d"
  by simp

section \<open>Lemmas on collections\<close>

lemma map_retain_Some [simp]:
  "map_retain p m k = Some v \<longleftrightarrow> m k = Some v \<and> p k v"
  by (auto simp: map_retain_def split: option.splits)

lemma map_retain_None:
  "map_retain p m k = None \<longleftrightarrow> (\<forall>v. m k = Some v \<longrightarrow> \<not> p k v)"
  by (auto simp: map_retain_def split: option.splits)

lemma map_retain_subset: "dom (map_retain p m) \<subseteq> dom m"
  by (auto simp: dom_def)

text \<open>On a list the predicate splits into two, searching it is filtering it.\<close>

lemma takeWhile_partitioned:
  "sorted_wrt (\<lambda>x y. P y \<longrightarrow> P x) xs \<Longrightarrow> takeWhile P xs = filter P xs"
proof (induction xs)
  case (Cons x xs)
  then have "filter P xs = []" if "\<not> P x" using that by (auto simp: filter_empty_conv)
  with Cons show ?case by auto
qed simp

lemma dropWhile_partitioned:
  "sorted_wrt (\<lambda>x y. P y \<longrightarrow> P x) xs \<Longrightarrow> dropWhile P xs = filter (\<lambda>x. \<not> P x) xs"
proof (induction xs)
  case (Cons x xs)
  then have "filter (\<lambda>x. \<not> P x) xs = xs" if "\<not> P x" using that by (auto intro!: filter_True)
  with Cons show ?case by auto
qed simp

lemma option_eq_Some_iffI: "(\<And>x. a = Some x \<longleftrightarrow> b = Some x) \<Longrightarrow> a = b"
  by (cases a; cases b) auto

lemma take_partition_point: "take (partition_point p xs) xs = takeWhile p xs"
  by (simp add: partition_point_def takeWhile_eq_take [symmetric])

lemma drop_partition_point: "drop (partition_point p xs) xs = dropWhile p xs"
  by (simp add: partition_point_def dropWhile_eq_drop [symmetric])

section \<open>Bytes back to bytes\<close>

lemma le_bytes_from_le_bytes:
  "8 * length bs \<le> LENGTH('a::len) \<Longrightarrow> le_bytes (length bs) (from_le_bytes bs :: 'a word) = bs"
proof (induction bs)
  case (Cons b bs)
  have "ucast (or (ucast b) (push_bit 8 (from_le_bytes bs :: 'a word))) = b"
    by (rule bit_word_eqI) (use Cons.prems in \<open>auto simp: bit_simps\<close>)
  moreover have "drop_bit 8 (or (ucast b) (push_bit 8 (from_le_bytes bs :: 'a word))) = take_bit (8 * length bs) (from_le_bytes bs)"
  proof (rule bit_word_eqI)
    fix n assume "n < LENGTH('a)"
    have "take_bit (8 * length bs) (from_le_bytes bs :: 'a word) = from_le_bytes bs"
      using from_le_bytes_le_bytes [of "length bs" "from_le_bytes bs :: 'a word"] Cons by simp
    moreover have "bit (drop_bit 8 (or (ucast b) (push_bit 8 x))) n = (n + 8 < LENGTH('a) \<and> bit x n)" for x :: "'a word"
      by (auto simp: bit_simps not_less dest: bit_imp_le_length)
    ultimately show "bit (drop_bit 8 (or (ucast b) (push_bit 8 (from_le_bytes bs :: 'a word)))) n =
        bit (take_bit (8 * length bs) (from_le_bytes bs :: 'a word)) n"
      using Cons.prems by (metis bit_take_bit_iff less_le_trans add_less_mono1 length_Cons mult_Suc_right add.commute)
  qed
  ultimately show ?case using Cons from_le_bytes_le_bytes [of "length bs" "from_le_bytes bs :: 'a word"]
    by (simp add: le_bytes_Suc)
qed (simp add: le_bytes_def)

section \<open>Decimal numerals\<close>

lemma decimal_digits: "set (decimal n) \<subseteq> char_of ` {48 ..< 58 :: nat}"
  by (induction n rule: decimal.induct) (subst decimal.simps, auto)

lemma colon_not_digit: "CHR '':'' \<notin> set (decimal n)"
proof -
  have "CHR '':'' \<noteq> char_of k" if "k \<in> {48 ..< 58 :: nat}" for k
  proof
    assume "CHR '':'' = char_of k"
    then have "(of_char (CHR '':'') :: nat) = of_char (char_of k)" by simp
    moreover have "(of_char (CHR '':'') :: nat) = 58" by (simp add: of_char_def)
    ultimately show False using that by simp
  qed
  then show ?thesis using decimal_digits [of n] by blast
qed

lemma decimal_nonempty [simp]: "decimal n \<noteq> []" "[] \<noteq> decimal n"
  by (subst decimal.simps, simp)+

lemma decimal_inject: "decimal m = decimal n \<Longrightarrow> m = n"
proof (induction m arbitrary: n rule: decimal.induct)
  case (1 m)
  have eq: "char_of (48 + a) = char_of (48 + b) \<Longrightarrow> a = b" if "a < 10" "b < 10" for a b :: nat
    using that arg_cong [of "char_of (48 + a)" "char_of (48 + b)" "of_char :: char \<Rightarrow> nat"] by (simp add: of_char_of)
  show ?case
  proof (cases "m < 10")
    case True
    with 1(2) eq [of m n] show ?thesis
      by (subst (asm) (1 2) decimal.simps) (auto split: if_splits)
  next
    case False
    then have m: "decimal m = decimal (m div 10) @ [char_of (48 + m mod 10)]" by (subst decimal.simps) simp
    have n: "\<not> n < 10"
      using 1(2) m by (subst (asm) (2) decimal.simps) (auto split: if_splits)
    then have "decimal n = decimal (n div 10) @ [char_of (48 + n mod 10)]" by (subst decimal.simps) simp
    with 1(2) m have "decimal (m div 10) = decimal (n div 10)" "char_of (48 + m mod 10) = char_of (48 + n mod 10)"
      by simp_all
    with 1(1) [OF False] eq [of "m mod 10" "n mod 10"] have "m div 10 = n div 10" "m mod 10 = n mod 10" by simp_all
    then show ?thesis by (metis div_mult_mod_eq)
  qed
qed

end
