(* ===== verification/Raft_Types.thy ===== *)
theory Raft_Types
  imports HSM_Prelude
begin

text \<open>
  The data of the Raft core (\<open>craton-hsm-cluster/src/raft.rs\<close>): roles, terms,
  commands, log entries, and the canonical byte encoding of a command that every
  message authentication code is computed over.  Terms are \<open>u64\<close>; the operations
  that may overflow say what the code does then.  The lemmas show that the two
  encoders and the length function of the source agree, and that the encoding is
  injective, so that one tag stands for one command.
\<close>

section \<open>Roles and terms\<close>

datatype RaftState = Follower | Candidate | Leader

type_synonym Term = u64

definition checked_next :: "Term \<Rightarrow> Term option" where
  "checked_next t = checked_add t 1"

definition term_checked_add :: "Term \<Rightarrow> u64 \<Rightarrow> Term option" where
  "term_checked_add t rhs = checked_add t rhs"

definition term_next :: "Term \<Rightarrow> Term" where
  "term_next t = (case checked_next t of Some t' \<Rightarrow> t' | None \<Rightarrow> u64_max)"

definition term_add :: "Term \<Rightarrow> u64 \<Rightarrow> Term" where
  "term_add t rhs = saturating_add t rhs"

section \<open>Commands and log entries\<close>

datatype MembershipAction = AddNode | RemoveNode | AddLearner | PromoteLearner

datatype RaftCommand =
    KeySync string bytes
  | ConfigChange string MembershipAction
  | Noop

record LogEntry =
  le_term :: Term
  le_index :: u64
  le_command :: RaftCommand

definition is_config_change :: "LogEntry \<Rightarrow> bool" where
  "is_config_change e = (case le_command e of ConfigChange _ _ \<Rightarrow> True | _ \<Rightarrow> False)"

section \<open>Canonical encoding\<close>

text \<open>\<open>push_lp\<close>: the length as a big-endian \<open>u32\<close>, then the bytes.\<close>

definition push_lp :: "bytes \<Rightarrow> bytes \<Rightarrow> bytes" where
  "push_lp out bs = out @ len_u32_be (length bs) @ bs"

fun action_tag :: "MembershipAction \<Rightarrow> u8" where
  "action_tag AddNode = 0x02"
| "action_tag RemoveNode = 0x03"
| "action_tag AddLearner = 0x04"
| "action_tag PromoteLearner = 0x05"

fun canonical_bytes :: "RaftCommand \<Rightarrow> bytes" where
  "canonical_bytes Noop = [0x00]"
| "canonical_bytes (KeySync key_id data) =
     push_lp (push_lp [0x01] (as_bytes key_id)) data"
| "canonical_bytes (ConfigChange node_id action) =
     push_lp [action_tag action] (as_bytes node_id)"

text \<open>
  A message authentication code in progress is the byte string fed to it so far:
  \<open>mac.update(b)\<close> appends.  The tag is computed over the whole string by the
  external \<open>hmac\<close> crate, a parameter of the definitions that finalise.
\<close>

type_synonym mac_stream = bytes

definition mac_update :: "mac_stream \<Rightarrow> bytes \<Rightarrow> mac_stream" where
  "mac_update mac bs = mac @ bs"

definition push_lp_to_mac :: "mac_stream \<Rightarrow> bytes \<Rightarrow> mac_stream" where
  "push_lp_to_mac mac bs = mac_update (mac_update mac (len_u32_be (length bs))) bs"

fun canonical_into_mac :: "RaftCommand \<Rightarrow> mac_stream \<Rightarrow> mac_stream" where
  "canonical_into_mac Noop mac = mac_update mac [0x00]"
| "canonical_into_mac (KeySync key_id data) mac =
     push_lp_to_mac (push_lp_to_mac (mac_update mac [0x01]) (as_bytes key_id)) data"
| "canonical_into_mac (ConfigChange node_id action) mac =
     push_lp_to_mac (mac_update mac [action_tag action]) (as_bytes node_id)"

fun canonical_byte_len :: "RaftCommand \<Rightarrow> nat" where
  "canonical_byte_len Noop = 1"
| "canonical_byte_len (KeySync key_id data) =
     1 + 4 + length (as_bytes key_id) + 4 + length data"
| "canonical_byte_len (ConfigChange node_id _) = 1 + 4 + length (as_bytes node_id)"

section \<open>Terms never wrap\<close>

lemma checked_next_Some: "checked_next t = Some t' \<longleftrightarrow> t \<noteq> u64_max \<and> t' = t + 1"
proof -
  have "unat t + 1 < 2 ^ 64 \<longleftrightarrow> t \<noteq> u64_max"
    using unat_u64_less [of t] by (auto simp: word_max_iff)
  then show ?thesis by (auto simp: checked_next_def checked_add_def)
qed

lemma checked_next_None: "checked_next t = None \<longleftrightarrow> t = u64_max"
  using checked_next_Some [of t "t + 1"] by (cases "checked_next t") (auto simp: checked_next_Some)

lemma checked_next_greater: "checked_next t = Some t' \<Longrightarrow> t < t'"
  by (auto simp: checked_next_Some word_less_nat_alt unat_plus_one)

lemma term_next_mono: "t \<le> term_next t"
  by (auto simp: term_next_def checked_next_None dest: checked_next_greater split: option.splits)

section \<open>The encoders agree\<close>

lemma push_lp_to_mac_eq: "push_lp_to_mac mac bs = push_lp mac bs"
  by (simp add: push_lp_to_mac_def push_lp_def mac_update_def)

lemma canonical_into_mac_eq: "canonical_into_mac c mac = mac @ canonical_bytes c"
  by (cases c) (simp_all add: push_lp_to_mac_eq push_lp_def mac_update_def)

lemma canonical_byte_len_eq: "canonical_byte_len c = length (canonical_bytes c)"
  by (cases c) (simp_all add: push_lp_def)

section \<open>The encoding is injective\<close>

definition cmd_encodable :: "RaftCommand \<Rightarrow> bool" where
  "cmd_encodable c = (length (canonical_bytes c) < 2 ^ 32)"

lemma action_tag_inject [simp]: "action_tag a = action_tag b \<longleftrightarrow> a = b"
  by (cases a; cases b) simp_all

lemma action_tag_distinct [simp]:
  "action_tag a \<noteq> 0" "action_tag a \<noteq> 1" "0 \<noteq> action_tag a" "1 \<noteq> action_tag a"
  by (cases a; simp)+

lemma lp_inject:
  assumes "length a < 2 ^ 32" "length b < 2 ^ 32"
    and "len_u32_be (length a) @ a @ r = len_u32_be (length b) @ b @ s"
  shows "a = b \<and> r = s"
proof -
  from assms(3) have "len_u32_be (length a) = len_u32_be (length b)" and rest: "a @ r = b @ s"
    by (simp_all add: append_eq_split)
  with assms(1,2) have "length a = length b" by (simp add: len_u32_be_inject)
  with rest show ?thesis by simp
qed

lemma canonical_bytes_inject:
  assumes "cmd_encodable c" "cmd_encodable d" and "canonical_bytes c = canonical_bytes d"
  shows "c = d"
proof (cases c; cases d)
  fix k x k' x'
  assume cd: "c = KeySync k x" "d = KeySync k' x'"
  with assms have "as_bytes k = as_bytes k' \<and> len_u32_be (length x) @ x = len_u32_be (length x') @ x'"
    by (intro lp_inject) (simp_all add: cmd_encodable_def push_lp_def)
  moreover from this cd assms have "x = x'"
    using lp_inject [of x x' "[]" "[]"] by (simp add: cmd_encodable_def push_lp_def)
  ultimately show ?thesis using cd by simp
next
  fix n a n' a'
  assume cd: "c = ConfigChange n a" "d = ConfigChange n' a'"
  with assms have "as_bytes n = as_bytes n'"
    using lp_inject [of "as_bytes n" "as_bytes n'" "[]" "[]"]
    by (simp add: cmd_encodable_def push_lp_def)
  with cd assms show ?thesis by (simp add: push_lp_def)
qed (use assms in \<open>simp_all add: push_lp_def\<close>)

text \<open>
  the canonical encoding identifies the command.  Two commands whose
  encodings are below the 4 GiB their length prefixes can express and whose
  canonical bytes agree are one command, whatever their identifiers and payloads
  contain; so a tag computed over the bytes authenticates the command itself.
\<close>

theorem canonical_encoding_injective:
  assumes "length (canonical_bytes c) < 2 ^ 32" "length (canonical_bytes d) < 2 ^ 32"
    and "canonical_into_mac c mac = canonical_into_mac d mac"
  shows "c = d"
  using assms by (simp add: canonical_into_mac_eq canonical_bytes_inject cmd_encodable_def)

theorem canonical_encoding_injective_witness:
  "KeySync ''k1'' [7, 8] = KeySync ''k1'' [7, 8] \<and>
   length (canonical_bytes (KeySync ''k1'' [7, 8])) = 13"
proof -
  have "KeySync ''k1'' [7, 8] = KeySync ''k1'' [7, 8]"
    by (rule canonical_encoding_injective [where mac = "[]"]) (simp_all add: push_lp_def)
  then show ?thesis by (simp add: push_lp_def)
qed

end
