(* ===== verification/Raft_Log.thy ===== *)
theory Raft_Log
  imports Raft_Types
begin

text \<open>
  \<open>RaftLog\<close> of \<open>craton-hsm-cluster/src/raft.rs\<close>: the in-memory suffix of the
  replicated log above the last snapshot, with the commit and apply watermarks.
  The state is the record \<open>RaftLog\<close>; every method of the source is one definition.
  \<open>log_wf\<close> is the representation invariant (indices rise by one, none is 0, the
  watermarks lie between the snapshot base and the last entry); the lemmas give
  the value of \<open>get\<close> after every operation, and that none of them gives up an
  entry at or below the commit watermark except by compaction.
\<close>

section \<open>State and operations\<close>

record RaftLog =
  entries :: "LogEntry list"
  committed :: u64
  applied :: u64

datatype RaftInvariantError =
    TruncateBelowCommitted u64 u64
  | TruncateBelowApplied u64 u64

definition log_new :: RaftLog where
  "log_new = \<lparr>entries = [], committed = 0, applied = 0\<rparr>"

definition log_append :: "RaftLog \<Rightarrow> LogEntry \<Rightarrow> RaftLog" where
  "log_append l e = l\<lparr>entries := entries l @ [e]\<rparr>"

definition log_get :: "RaftLog \<Rightarrow> u64 \<Rightarrow> LogEntry option" where
  "log_get l index =
     (if index = 0 \<or> entries l = [] then None
      else let first_index = le_index (hd (entries l)) in
        if index < first_index then None
        else let offset = unat (index - first_index) in
          if offset < length (entries l) then Some (entries l ! offset) else None)"

definition last_index :: "RaftLog \<Rightarrow> u64" where
  "last_index l = (if entries l = [] then 0 else le_index (last (entries l)))"

definition last_term :: "RaftLog \<Rightarrow> Term" where
  "last_term l = (if entries l = [] then 0 else le_term (last (entries l)))"

definition entries_slice_from :: "RaftLog \<Rightarrow> u64 \<Rightarrow> LogEntry list" where
  "entries_slice_from l from_index =
     drop (partition_point (\<lambda>e. le_index e < from_index) (entries l)) (entries l)"

definition truncate_after :: "RaftLog \<Rightarrow> u64 \<Rightarrow> RaftInvariantError + RaftLog" where
  "truncate_after l after =
     (if after < committed l then Inl (TruncateBelowCommitted after (committed l))
      else if after < applied l then Inl (TruncateBelowApplied after (applied l))
      else Inr (l\<lparr>entries :=
             take (partition_point (\<lambda>e. le_index e \<le> after) (entries l)) (entries l)\<rparr>))"

definition discard_through :: "RaftLog \<Rightarrow> u64 \<Rightarrow> RaftLog" where
  "discard_through l up_to =
     l\<lparr>entries := filter (\<lambda>e. le_index e > up_to) (entries l),
       committed := (if committed l < up_to then up_to else committed l),
       applied := (if applied l < up_to then up_to else applied l)\<rparr>"

definition log_commit :: "RaftLog \<Rightarrow> u64 \<Rightarrow> RaftLog" where
  "log_commit l index =
     (if index > committed l \<and> index \<le> last_index l then l\<lparr>committed := index\<rparr> else l)"

definition log_apply :: "RaftLog \<Rightarrow> u64 \<Rightarrow> RaftLog" where
  "log_apply l index =
     (if index > applied l \<and> index \<le> committed l then l\<lparr>applied := index\<rparr> else l)"

definition log_len :: "RaftLog \<Rightarrow> nat" where
  "log_len l = length (entries l)"

definition log_is_empty :: "RaftLog \<Rightarrow> bool" where
  "log_is_empty l = (entries l = [])"

section \<open>Representation invariant\<close>

fun consecutive :: "LogEntry list \<Rightarrow> bool" where
  "consecutive [] = True"
| "consecutive [e] = True"
| "consecutive (e # f # es) =
     (unat (le_index f) = Suc (unat (le_index e)) \<and> consecutive (f # es))"

definition log_wf :: "RaftLog \<Rightarrow> bool" where
  "log_wf l \<longleftrightarrow>
     consecutive (entries l) \<and> applied l \<le> committed l \<and>
     (entries l \<noteq> [] \<longrightarrow>
        0 < unat (le_index (hd (entries l))) \<and>
        unat (le_index (hd (entries l))) \<le> Suc (unat (committed l)) \<and>
        committed l \<le> le_index (last (entries l)))"

text \<open>The index the next entry must carry for the log to stay consecutive.\<close>

definition log_next :: "RaftLog \<Rightarrow> nat" where
  "log_next l = Suc (if entries l = [] then unat (committed l) else unat (last_index l))"

section \<open>Consecutive lists\<close>

lemma consecutive_nth:
  "consecutive es \<Longrightarrow> k < length es \<Longrightarrow> unat (le_index (es ! k)) = unat (le_index (hd es)) + k"
proof (induction es arbitrary: k rule: consecutive.induct)
  case (3 e f es)
  then show ?case by (cases k) auto
qed auto

lemma consecutive_last:
  "consecutive es \<Longrightarrow> es \<noteq> [] \<Longrightarrow>
     unat (le_index (last es)) = unat (le_index (hd es)) + (length es - 1)"
  by (simp add: last_conv_nth consecutive_nth)

lemma consecutive_snoc:
  "consecutive (es @ [e]) \<longleftrightarrow>
     consecutive es \<and> (es \<noteq> [] \<longrightarrow> unat (le_index e) = Suc (unat (le_index (last es))))"
  by (induction es rule: consecutive.induct) auto

lemma consecutive_append_left: "consecutive (xs @ ys) \<Longrightarrow> consecutive xs"
  by (induction xs rule: consecutive.induct) auto

lemma consecutive_append_right: "consecutive (xs @ ys) \<Longrightarrow> consecutive ys"
proof (induction xs rule: consecutive.induct)
  case (2 e)
  then show ?case by (cases ys) auto
qed auto

lemma consecutive_ConsD: "consecutive (e # es) \<Longrightarrow> consecutive es"
  by (cases es) auto

lemma consecutive_sorted:
  assumes "consecutive es"
  shows "sorted_wrt (\<lambda>e f. le_index e < le_index f) es"
  unfolding sorted_wrt_iff_nth_less
  using assms by (auto simp: word_less_nat_alt consecutive_nth)

lemma consecutive_le_last: "consecutive es \<Longrightarrow> e \<in> set es \<Longrightarrow> le_index e \<le> le_index (last es)"
  by (cases "es = []") (auto simp: word_le_nat_alt in_set_conv_nth consecutive_nth consecutive_last)

lemma consecutive_hd_le: "consecutive es \<Longrightarrow> e \<in> set es \<Longrightarrow> le_index (hd es) \<le> le_index e"
  by (auto simp: word_le_nat_alt in_set_conv_nth consecutive_nth)

lemma takeWhile_le_consecutive:
  "consecutive es \<Longrightarrow> takeWhile (\<lambda>e. le_index e \<le> a) es = filter (\<lambda>e. le_index e \<le> a) es"
  by (rule takeWhile_partitioned)
    (auto intro: sorted_wrt_mono_rel [OF _ consecutive_sorted])

lemma dropWhile_less_consecutive:
  "consecutive es \<Longrightarrow> dropWhile (\<lambda>e. le_index e < a) es = filter (\<lambda>e. a \<le> le_index e) es"
  by (subst dropWhile_partitioned)
    (auto intro: sorted_wrt_mono_rel [OF _ consecutive_sorted] simp: not_less)

lemma dropWhile_le_consecutive:
  "consecutive es \<Longrightarrow> dropWhile (\<lambda>e. le_index e \<le> a) es = filter (\<lambda>e. a < le_index e) es"
  by (subst dropWhile_partitioned)
    (auto intro: sorted_wrt_mono_rel [OF _ consecutive_sorted] simp: not_le)

lemma consecutive_filter_le: "consecutive es \<Longrightarrow> consecutive (filter (\<lambda>e. le_index e \<le> a) es)"
  by (metis consecutive_append_left takeWhile_dropWhile_id takeWhile_le_consecutive)

lemma consecutive_filter_greater: "consecutive es \<Longrightarrow> consecutive (filter (\<lambda>e. a < le_index e) es)"
  by (metis consecutive_append_right takeWhile_dropWhile_id dropWhile_le_consecutive)

section \<open>Reading the log\<close>

lemma log_wf_consecutive [dest]: "log_wf l \<Longrightarrow> consecutive (entries l)"
  by (simp add: log_wf_def)

lemma log_wf_new: "log_wf log_new"
  by (simp add: log_wf_def log_new_def)

lemma log_get_iff:
  assumes "log_wf l"
  shows "log_get l i = Some e \<longleftrightarrow> e \<in> set (entries l) \<and> le_index e = i"
proof (cases "entries l")
  case Nil
  then show ?thesis by (simp add: log_get_def)
next
  case (Cons f fs)
  let ?es = "entries l" and ?f = "le_index f"
  from assms have con: "consecutive ?es" and pos: "0 < unat ?f"
    by (auto simp: log_wf_def Cons)
  have nth: "unat (le_index (?es ! k)) = unat ?f + k" if "k < length ?es" for k
    using consecutive_nth [OF con that] by (simp add: Cons)
  show ?thesis
  proof
    assume "log_get l i = Some e"
    then have i: "?f \<le> i" and off: "unat (i - ?f) < length ?es" and e: "e = ?es ! unat (i - ?f)"
      by (auto simp: log_get_def Cons Let_def not_less split: if_splits)
    from e nth [OF off] have "unat (le_index e) = unat ?f + unat (i - ?f)" by simp
    with i have "unat (le_index e) = unat i" by (simp add: unat_minus_le word_le_nat_alt)
    with e off show "e \<in> set ?es \<and> le_index e = i" by (simp add: word_unat_eq_iff)
  next
    assume "e \<in> set ?es \<and> le_index e = i"
    then obtain k where k: "k < length ?es" "e = ?es ! k" and i: "le_index e = i"
      by (auto simp: in_set_conv_nth)
    then have ui: "unat i = unat ?f + k" using nth by auto
    then have "?f \<le> i" by (simp add: word_le_nat_alt)
    with ui have "unat (i - ?f) = k" by (simp add: unat_minus_le)
    moreover from ui pos have "i \<noteq> 0" by auto
    ultimately show "log_get l i = Some e"
      using k \<open>?f \<le> i\<close> by (auto simp: log_get_def Cons Let_def)
  qed
qed

lemma log_get_index: "log_wf l \<Longrightarrow> log_get l i = Some e \<Longrightarrow> le_index e = i"
  by (simp add: log_get_iff)

lemma log_get_last:
  "log_wf l \<Longrightarrow> entries l \<noteq> [] \<Longrightarrow> log_get l (last_index l) = Some (last (entries l))"
  by (simp add: log_get_iff last_index_def)

lemma log_get_range:
  assumes wf: "log_wf l" and ne: "entries l \<noteq> []"
  shows "(\<exists>e. log_get l i = Some e) \<longleftrightarrow> le_index (hd (entries l)) \<le> i \<and> i \<le> last_index l"
proof
  assume "\<exists>e. log_get l i = Some e"
  with wf show "le_index (hd (entries l)) \<le> i \<and> i \<le> last_index l"
    by (auto simp: log_get_iff last_index_def dest: consecutive_hd_le consecutive_le_last)
next
  assume i: "le_index (hd (entries l)) \<le> i \<and> i \<le> last_index l"
  let ?k = "unat i - unat (le_index (hd (entries l)))"
  from wf have con: "consecutive (entries l)" by auto
  from i ne consecutive_last [OF con ne] have k: "?k < length (entries l)"
    by (cases "length (entries l)") (auto simp: last_index_def word_le_nat_alt)
  with con i have "le_index (entries l ! ?k) = i"
    by (simp add: word_unat_eq_iff consecutive_nth word_le_nat_alt)
  with wf k have "log_get l i = Some (entries l ! ?k)" by (simp add: log_get_iff)
  then show "\<exists>e. log_get l i = Some e" ..
qed

lemma log_get_above: "log_wf l \<Longrightarrow> last_index l < i \<Longrightarrow> log_get l i = None"
  using log_get_range [of l i] by (cases "entries l = []") (auto simp: log_get_def)

lemma log_get_zero [simp]: "log_get l 0 = None"
  by (simp add: log_get_def)

lemma entries_slice_from_filter:
  "log_wf l \<Longrightarrow> entries_slice_from l i = filter (\<lambda>e. i \<le> le_index e) (entries l)"
  by (auto simp: entries_slice_from_def drop_partition_point dropWhile_less_consecutive)

section \<open>Appending\<close>

lemma entries_log_append [simp]: "entries (log_append l e) = entries l @ [e]"
  by (simp add: log_append_def)

lemma log_wf_append:
  assumes wf: "log_wf l" and nxt: "unat (le_index e) = log_next l"
  shows "log_wf (log_append l e)"
  using assms
  by (auto simp: log_wf_def log_append_def consecutive_snoc log_next_def last_index_def
      word_le_nat_alt split: if_splits)

lemma log_get_append:
  assumes wf: "log_wf l" and nxt: "unat (le_index e) = log_next l"
  shows "log_get (log_append l e) i = (if i = le_index e then Some e else log_get l i)"
proof (rule option_eq_Some_iffI)
  fix x
  have "le_index x \<noteq> le_index e" if "x \<in> set (entries l)" for x
    using that wf nxt
    by (auto simp: log_next_def last_index_def word_le_nat_alt dest!: consecutive_le_last
        split: if_splits)
  then show "log_get (log_append l e) i = Some x \<longleftrightarrow>
      (if i = le_index e then Some e else log_get l i) = Some x"
    by (auto simp: log_get_iff [OF wf] log_get_iff [OF log_wf_append [OF wf nxt]])
qed

lemma log_append_watermarks [simp]:
  "committed (log_append l e) = committed l" "applied (log_append l e) = applied l"
  by (simp_all add: log_append_def)

section \<open>Truncating\<close>

lemma truncate_after_Inl:
  "truncate_after l a = Inl err \<longleftrightarrow>
     a < committed l \<and> err = TruncateBelowCommitted a (committed l) \<or>
     committed l \<le> a \<and> a < applied l \<and> err = TruncateBelowApplied a (applied l)"
  by (auto simp: truncate_after_def)

lemma truncate_after_Inr:
  assumes "truncate_after l a = Inr l'"
  shows "committed l \<le> a" "applied l \<le> a"
    "l' = l\<lparr>entries := takeWhile (\<lambda>e. le_index e \<le> a) (entries l)\<rparr>"
  using assms by (auto simp: truncate_after_def take_partition_point not_less split: if_splits)

lemma truncate_after_watermarks:
  "truncate_after l a = Inr l' \<Longrightarrow> committed l' = committed l \<and> applied l' = applied l"
  by (auto dest: truncate_after_Inr)

lemma truncate_after_entries:
  "log_wf l \<Longrightarrow> truncate_after l a = Inr l' \<Longrightarrow>
     entries l' = filter (\<lambda>e. le_index e \<le> a) (entries l)"
  by (auto dest!: truncate_after_Inr simp: takeWhile_le_consecutive)

lemma log_wf_truncate:
  assumes wf: "log_wf l" and tr: "truncate_after l a = Inr l'"
  shows "log_wf l'"
proof (cases "entries l' = []")
  case True
  with wf truncate_after_watermarks [OF tr] show ?thesis by (simp add: log_wf_def)
next
  case False
  let ?kept = "filter (\<lambda>e. le_index e \<le> a) (entries l)"
  from wf have con: "consecutive (entries l)" by auto
  have es: "entries l' = ?kept" by (rule truncate_after_entries [OF wf tr])
  from tr False have hd: "hd (entries l') = hd (entries l)"
    by (cases "entries l") (auto dest!: truncate_after_Inr split: if_splits)
  from False es have ne: "entries l \<noteq> []" by auto
  have con': "consecutive (entries l')" unfolding es by (rule consecutive_filter_le [OF con])
  have "committed l \<le> le_index (last (entries l'))"
  proof (cases "le_index (hd (entries l)) \<le> committed l")
    case True
    with wf ne obtain e where "log_get l (committed l) = Some e"
      using log_get_range [OF wf ne] by (auto simp: log_wf_def last_index_def)
    with wf truncate_after_Inr(1) [OF tr] have "e \<in> set (entries l')" "le_index e = committed l"
      by (auto simp: es log_get_iff)
    with con' show ?thesis by (metis consecutive_le_last)
  next
    case False
    moreover have "hd (entries l) \<in> set (entries l')" using hd \<open>entries l' \<noteq> []\<close> by (metis hd_in_set)
    ultimately show ?thesis using consecutive_le_last [OF con'] by (meson le_less_trans less_imp_le not_le)
  qed
  with wf con' hd ne \<open>entries l' \<noteq> []\<close> truncate_after_watermarks [OF tr]
  show ?thesis by (simp add: log_wf_def)
qed

lemma log_get_truncate:
  assumes wf: "log_wf l" and tr: "truncate_after l a = Inr l'"
  shows "log_get l' i = (if i \<le> a then log_get l i else None)"
  by (rule option_eq_Some_iffI)
    (auto simp: log_get_iff [OF wf] log_get_iff [OF log_wf_truncate [OF wf tr]]
      truncate_after_entries [OF wf tr])

section \<open>Compacting\<close>

lemma entries_discard [simp]:
  "entries (discard_through l u) = filter (\<lambda>e. u < le_index e) (entries l)"
  by (simp add: discard_through_def)

lemma discard_through_watermarks:
  "committed (discard_through l u) = max (committed l) u"
  "applied (discard_through l u) = max (applied l) u"
  by (auto simp: discard_through_def max_def)

lemma log_wf_discard:
  assumes wf: "log_wf l"
  shows "log_wf (discard_through l u)"
proof (cases "filter (\<lambda>e. u < le_index e) (entries l) = []")
  case True
  with wf show ?thesis by (auto simp: log_wf_def discard_through_def)
next
  case False
  let ?es = "entries l" and ?kept = "filter (\<lambda>e. u < le_index e) (entries l)"
  from wf have con: "consecutive ?es" by auto
  have con': "consecutive ?kept" by (rule consecutive_filter_greater [OF con])
  from False have ne: "?es \<noteq> []" by auto
  have drop: "?kept = dropWhile (\<lambda>e. le_index e \<le> u) ?es"
    by (simp add: dropWhile_le_consecutive [OF con])
  have last: "last ?kept = last ?es"
    using False unfolding drop by (metis dropWhile_eq_Nil_conv last_appendR takeWhile_dropWhile_id)
  have hd_gt: "u < le_index (hd ?kept)"
    using hd_in_set [OF False] by simp
  have hd_le_last: "le_index (hd ?kept) \<le> le_index (last ?kept)"
    using consecutive_le_last [OF con' hd_in_set [OF False]] .
  have hd_le: "unat (le_index (hd ?kept)) \<le> Suc (unat (max (committed l) u))"
  proof (cases "takeWhile (\<lambda>e. le_index e \<le> u) ?es" rule: rev_cases)
    case Nil
    then have "hd ?kept = hd ?es"
      unfolding drop by (metis append_Nil takeWhile_dropWhile_id)
    with wf ne show ?thesis by (auto simp: log_wf_def max_def word_le_nat_alt not_le)
  next
    case (snoc pre p)
    then have "?es = pre @ p # ?kept"
      unfolding drop by (metis append.assoc append_Cons append_Nil takeWhile_dropWhile_id)
    with con have "consecutive (p # ?kept)" by (metis consecutive_append_right)
    with False have "unat (le_index (hd ?kept)) = Suc (unat (le_index p))"
      by (cases ?kept) auto
    moreover from snoc have "le_index p \<le> u"
      by (metis in_set_conv_decomp set_takeWhileD)
    ultimately show ?thesis by (simp add: word_le_nat_alt max_def)
  qed
  have "max (committed l) u \<le> le_index (last ?kept)"
    using wf ne hd_gt hd_le_last by (auto simp: log_wf_def last)
  moreover from hd_gt have "0 < unat (le_index (hd ?kept))" by (simp add: word_less_nat_alt)
  moreover from wf have "max (applied l) u \<le> max (committed l) u"
    by (auto simp: log_wf_def max_def split: if_splits)
  ultimately show ?thesis
    using con' hd_le by (simp add: log_wf_def discard_through_watermarks)
qed

lemma log_get_discard:
  assumes wf: "log_wf l"
  shows "log_get (discard_through l u) i = (if u < i then log_get l i else None)"
  by (rule option_eq_Some_iffI)
    (auto simp: log_get_iff [OF wf] log_get_iff [OF log_wf_discard [OF wf]])

section \<open>Advancing the watermarks\<close>

lemma log_wf_commit: "log_wf l \<Longrightarrow> log_wf (log_commit l i)"
  by (auto simp: log_wf_def log_commit_def last_index_def word_le_nat_alt word_less_nat_alt
      split: if_splits)

lemma log_wf_apply: "log_wf l \<Longrightarrow> log_wf (log_apply l i)"
  by (auto simp: log_wf_def log_apply_def)

lemma log_get_commit [simp]: "log_get (log_commit l i) j = log_get l j"
  by (simp add: log_commit_def log_get_def Let_def)

lemma log_get_apply [simp]: "log_get (log_apply l i) j = log_get l j"
  by (simp add: log_apply_def log_get_def Let_def)

lemma log_commit_mono: "committed l \<le> committed (log_commit l i)"
  by (auto simp: log_commit_def)

lemma log_commit_applied [simp]: "applied (log_commit l i) = applied l"
  by (simp add: log_commit_def)

lemma log_apply_committed [simp]: "committed (log_apply l i) = committed l"
  by (simp add: log_apply_def)

lemma log_apply_mono: "applied l \<le> applied (log_apply l i)"
  by (auto simp: log_apply_def)

lemmas log_wf_ops = log_wf_append log_wf_truncate log_wf_discard log_wf_commit log_wf_apply
lemmas log_get_ops = log_get_append log_get_truncate log_get_discard log_get_commit log_get_apply

section \<open>Logs above a snapshot\<close>

text \<open>
  A log whose entries start right above the index \<open>b\<close> of the last snapshot, everything
  up to \<open>b\<close> being applied.
\<close>

definition log_based :: "u64 \<Rightarrow> RaftLog \<Rightarrow> bool" where
  "log_based b l \<longleftrightarrow>
     log_wf l \<and> b \<le> applied l \<and>
     (entries l = [] \<longrightarrow> committed l = b) \<and>
     (entries l \<noteq> [] \<longrightarrow> unat (le_index (hd (entries l))) = Suc (unat b))"

lemma log_based_new: "log_based 0 log_new"
  by (simp add: log_based_def log_wf_new) (simp add: log_new_def)

lemma log_based_wf [dest]: "log_based b l \<Longrightarrow> log_wf l"
  by (simp add: log_based_def)

lemma log_based_committed: "log_based b l \<Longrightarrow> b \<le> committed l"
  by (auto simp: log_based_def log_wf_def)

lemma log_based_nth:
  "log_based b l \<Longrightarrow> k < length (entries l) \<Longrightarrow> unat (le_index (entries l ! k)) = Suc (unat b + k)"
  by (auto simp: log_based_def log_wf_def consecutive_nth)

lemma log_based_next: "log_based b l \<Longrightarrow> log_next l = Suc (unat b + length (entries l))"
  by (auto simp: log_based_def log_next_def last_index_def dest!: log_wf_consecutive
      simp: consecutive_last)

lemma log_based_last: "log_based b l \<Longrightarrow> entries l \<noteq> [] \<Longrightarrow> unat (last_index l) = unat b + length (entries l)"
  using log_based_next [of b l] by (simp add: log_next_def)

text \<open>Reading is indexing from the base.\<close>

lemma log_based_get:
  assumes "log_based b l"
  shows "log_get l i =
    (if unat b < unat i \<and> unat i \<le> unat b + length (entries l)
     then Some (entries l ! (unat i - unat b - 1)) else None)"
proof (rule option_eq_Some_iffI)
  fix e
  have "(\<exists>k < length (entries l). entries l ! k = e \<and> le_index e = i) \<longleftrightarrow>
      unat b < unat i \<and> unat i \<le> unat b + length (entries l) \<and> entries l ! (unat i - unat b - 1) = e"
    (is "?l \<longleftrightarrow> ?r")
  proof
    assume ?l
    then obtain k where k: "k < length (entries l)" "entries l ! k = e" "le_index e = i" by auto
    with log_based_nth [OF assms] have "unat i = Suc (unat b + k)" by auto
    with k show ?r by simp
  next
    assume r: ?r
    let ?k = "unat i - unat b - 1"
    from r have k: "?k < length (entries l)" by linarith
    with log_based_nth [OF assms k] r have "unat (le_index e) = unat i" by simp
    with k r show ?l by (auto simp: word_unat_eq_iff)
  qed
  moreover have "log_get l i = Some e \<longleftrightarrow> (\<exists>k < length (entries l). entries l ! k = e \<and> le_index e = i)"
    using assms by (auto simp: log_get_iff log_based_wf in_set_conv_nth)
  ultimately show "log_get l i = Some e \<longleftrightarrow>
      (if unat b < unat i \<and> unat i \<le> unat b + length (entries l)
       then Some (entries l ! (unat i - unat b - 1)) else None) = Some e"
    by auto
qed

lemma log_based_append:
  assumes "log_based b l" and "unat (le_index e) = log_next l"
  shows "log_based b (log_append l e)"
  using assms log_wf_append [of l e] log_based_next [of b l]
  by (cases "entries l") (auto simp: log_based_def)

lemma log_based_truncate:
  assumes b: "log_based b l" and tr: "truncate_after l a = Inr l'"
  shows "log_based b l'"
proof -
  have wf: "log_wf l'" using b tr by (auto intro: log_wf_truncate)
  have es: "entries l' = takeWhile (\<lambda>e. le_index e \<le> a) (entries l)"
    and marks: "committed l' = committed l" "applied l' = applied l"
    using truncate_after_Inr [OF tr] by auto
  show ?thesis
  proof (cases "entries l")
    case Nil
    with wf b es marks show ?thesis by (simp add: log_based_def)
  next
    case (Cons e es')
    have "committed l = b" if "a < le_index e"
    proof -
      have "unat (le_index e) = Suc (unat b)" using b Cons by (simp add: log_based_def)
      moreover have "unat (committed l) \<le> unat a"
        using truncate_after_Inr(1) [OF tr] by (simp add: word_le_nat_alt)
      moreover have "unat b \<le> unat (committed l)"
        using log_based_committed [OF b] by (simp add: word_le_nat_alt)
      ultimately show ?thesis using that by (simp add: word_less_nat_alt word_unat_eq_iff)
    qed
    with wf b es marks Cons show ?thesis by (auto simp: log_based_def not_le split: if_splits)
  qed
qed

lemma log_based_discard:
  assumes b: "log_based b l" and u: "b \<le> u"
  shows "log_based u (discard_through l u)"
proof (cases "filter (\<lambda>e. u < le_index e) (entries l) = []")
  case True
  have "committed l \<le> u"
  proof (cases "entries l = []")
    case True
    with b u show ?thesis by (simp add: log_based_def)
  next
    case False
    with True have "le_index (last (entries l)) \<le> u" by (auto simp: filter_empty_conv not_less)
    with b False show ?thesis by (auto simp: log_based_def log_wf_def)
  qed
  with True log_wf_discard [of l u] b show ?thesis
    by (auto simp: log_based_def discard_through_watermarks max_def)
next
  case False
  let ?kept = "filter (\<lambda>e. u < le_index e) (entries l)"
  have "hd ?kept \<in> set ?kept" using False by (rule hd_in_set)
  then obtain k where k: "k < length (entries l)" "entries l ! k = hd ?kept" "u < le_index (hd ?kept)"
    by (auto simp: in_set_conv_nth)
  have top: "unat (le_index (hd ?kept)) = Suc (unat b + k)" using log_based_nth [OF b k(1)] k(2) by simp
  have "unat (le_index (hd ?kept)) = Suc (unat u)"
  proof (rule ccontr)
    assume ne: "unat (le_index (hd ?kept)) \<noteq> Suc (unat u)"
    let ?j = "unat u - unat b"
    have j: "?j < k" using ne k(3) top u by (auto simp: word_less_nat_alt word_le_nat_alt)
    then have jl: "?j < length (entries l)" using k(1) by simp
    have "unat (le_index (entries l ! ?j)) = Suc (unat u)"
      using log_based_nth [OF b jl] u by (simp add: word_le_nat_alt)
    then have "entries l ! ?j \<in> set ?kept" using jl by (simp add: word_less_nat_alt)
    moreover have "consecutive ?kept" using b by (intro consecutive_filter_greater) auto
    ultimately have "le_index (hd ?kept) \<le> le_index (entries l ! ?j)"
      by (intro consecutive_hd_le)
    with \<open>unat (le_index (entries l ! ?j)) = Suc (unat u)\<close> ne k(3) show False
      by (simp add: word_le_nat_alt word_less_nat_alt)
  qed
  with False log_wf_discard [of l u] b show ?thesis
    by (auto simp: log_based_def discard_through_watermarks)
qed

lemma log_based_commit: "log_based b l \<Longrightarrow> log_based b (log_commit l i)"
  using log_wf_commit [of l i]
  by (cases "entries l = []") (auto simp: log_based_def log_commit_def last_index_def split: if_splits)

lemma log_based_applied:
  "log_based b l \<Longrightarrow> b \<le> a \<Longrightarrow> a \<le> committed l \<Longrightarrow> log_based b (l\<lparr>applied := a\<rparr>)"
  by (auto simp: log_based_def log_wf_def)

lemmas log_based_ops = log_based_append log_based_truncate log_based_discard log_based_commit

end
