(* ===== verification/Replay_Cache.thy ===== *)
theory Replay_Cache
  imports Raft_Types
begin

text \<open>
  Replay protection of the Raft messages (\<open>ReplayCache\<close> and
  \<open>check_message_freshness\<close> of \<open>craton-hsm-cluster/src/raft.rs\<close>).  The cache is a
  map from a tag to its insertion time plus eight insertion-ordered queues; one
  call of \<open>check_and_insert\<close> is one step.  The source claims the tag in the map under
  the entry's lock, gives that lock up and then works on the queue under the lock of the
  shard; the theorems are about calls one after the other.  Clock readings are arguments.
  The interface \<open>replay_guard\<close> states what the message verifiers rely on; the
  cache is an instance of it.
\<close>

section \<open>State and operations\<close>

definition REPLAY_CACHE_MAX :: nat where
  "REPLAY_CACHE_MAX = 16384"

definition REPLAY_CACHE_SHARDS :: nat where
  "REPLAY_CACHE_SHARDS = 8"

definition REPLAY_CACHE_PER_SHARD_MAX :: nat where
  "REPLAY_CACHE_PER_SHARD_MAX = REPLAY_CACHE_MAX div REPLAY_CACHE_SHARDS"

type_synonym ReplayShard = "(u64 \<times> bytes) list"

record ReplayCache =
  seen :: "bytes \<rightharpoonup> u64"
  shards :: "ReplayShard list"
  full_evictions :: u64

definition replay_cache_new :: ReplayCache where
  "replay_cache_new =
     \<lparr>seen = Map.empty, shards = replicate REPLAY_CACHE_SHARDS [], full_evictions = 0\<rparr>"

text \<open>\<open>chunks_exact(8)\<close>: the full chunks of eight bytes, a shorter rest left out.\<close>

fun chunks_exact_8 :: "bytes \<Rightarrow> bytes list" where
  "chunks_exact_8 bs = (if length bs < 8 then [] else take 8 bs # chunks_exact_8 (drop 8 bs))"

declare chunks_exact_8.simps [simp del]

text \<open>
  The shard of a tag: its chunks folded by exclusive or, rotated and multiplied
  modulo \<open>2 ^ 64\<close>.  \<open>from_ne_bytes\<close> is read little-endian, the byte order of the
  supported targets; the queues' behaviour does not depend on it.
\<close>

definition shard_of :: "bytes \<Rightarrow> nat" where
  "shard_of mac =
     (let acc = foldl (\<lambda>acc chunk. xor acc (from_le_bytes chunk :: u64)) 0 (chunks_exact_8 mac);
          mixed = word_rotl 13 acc * 0x9e3779b97f4a7c15
      in unat mixed mod REPLAY_CACHE_SHARDS)"

fun evict_expired :: "u64 \<Rightarrow> u64 \<Rightarrow> ReplayShard \<Rightarrow> (bytes \<rightharpoonup> u64) \<Rightarrow> ReplayShard \<times> (bytes \<rightharpoonup> u64)" where
  "evict_expired now_ms max_age_ms [] sn = ([], sn)"
| "evict_expired now_ms max_age_ms ((ts, head_mac) # order) sn =
     (if saturating_sub now_ms ts \<ge> max_age_ms
      then evict_expired now_ms max_age_ms order (sn(head_mac := None))
      else ((ts, head_mac) # order, sn))"

fun evict_over_cap :: "ReplayShard \<Rightarrow> (bytes \<rightharpoonup> u64) \<Rightarrow> u64 \<Rightarrow> ReplayShard \<times> (bytes \<rightharpoonup> u64) \<times> u64" where
  "evict_over_cap [] sn fe = ([], sn, fe)"
| "evict_over_cap ((ts, old) # order) sn fe =
     (if length ((ts, old) # order) > REPLAY_CACHE_PER_SHARD_MAX
      then evict_over_cap order (sn(old := None)) (fe + 1)
      else ((ts, old) # order, sn, fe))"

definition check_and_insert :: "ReplayCache \<Rightarrow> bytes \<Rightarrow> u64 \<Rightarrow> u64 \<Rightarrow> ReplayCache \<times> bool" where
  "check_and_insert c mac now_ms max_age_ms =
     (case seen c mac of
        Some _ \<Rightarrow> (c, True)
      | None \<Rightarrow>
          let sn0 = (seen c)(mac \<mapsto> now_ms);
              shard_idx = shard_of mac;
              order0 = shards c ! shard_idx @ [(now_ms, mac)];
              (order1, sn1) = evict_expired now_ms max_age_ms order0 sn0;
              (order2, sn2, fe) = evict_over_cap order1 sn1 (full_evictions c)
          in (c\<lparr>seen := sn2, shards := (shards c)[shard_idx := order2], full_evictions := fe\<rparr>,
              False))"

definition replay_cache_len :: "ReplayCache \<Rightarrow> nat" where
  "replay_cache_len c = card (dom (seen c))"

text \<open>\<open>check_message_freshness\<close> at a clock reading \<open>now\<close>.\<close>

definition MAX_FUTURE_SKEW_MS :: u64 where
  "MAX_FUTURE_SKEW_MS = 1000"

definition check_message_freshness :: "u64 \<Rightarrow> u64 \<Rightarrow> u64 \<Rightarrow> u64 \<Rightarrow> bool" where
  "check_message_freshness now timestamp_ms max_age_ms max_future_skew_ms =
     (if timestamp_ms \<le> now then now - timestamp_ms \<le> max_age_ms
      else timestamp_ms - now \<le> max_future_skew_ms)"

section \<open>Representation invariant\<close>

definition shard_ok :: "nat \<Rightarrow> ReplayShard \<Rightarrow> bool" where
  "shard_ok i q \<longleftrightarrow>
     distinct (map snd q) \<and> length q \<le> REPLAY_CACHE_PER_SHARD_MAX \<and>
     (\<forall>(ts, m) \<in> set q. shard_of m = i)"

definition replay_wf :: "ReplayCache \<Rightarrow> bool" where
  "replay_wf c \<longleftrightarrow>
     length (shards c) = REPLAY_CACHE_SHARDS \<and>
     (\<forall>i < REPLAY_CACHE_SHARDS. shard_ok i (shards c ! i)) \<and>
     (\<forall>m ts. seen c m = Some ts \<longleftrightarrow> (ts, m) \<in> set (shards c ! shard_of m))"

lemma replay_sizes:
  "REPLAY_CACHE_SHARDS = 8" "REPLAY_CACHE_PER_SHARD_MAX = 2048" "REPLAY_CACHE_MAX = 16384"
  by (simp_all add: REPLAY_CACHE_SHARDS_def REPLAY_CACHE_PER_SHARD_MAX_def REPLAY_CACHE_MAX_def)

lemma shard_of_less [simp]: "shard_of mac < REPLAY_CACHE_SHARDS"
  by (simp add: shard_of_def Let_def replay_sizes)

lemma replay_wf_new: "replay_wf replay_cache_new"
  by (simp add: replay_wf_def replay_cache_new_def shard_ok_def)

section \<open>The eviction loops\<close>

definition expired :: "u64 \<Rightarrow> u64 \<Rightarrow> u64 \<times> bytes \<Rightarrow> bool" where
  "expired now age e = (age \<le> saturating_sub now (fst e))"

text \<open>Forgetting the tags of a popped prefix.\<close>

definition forget :: "(bytes \<rightharpoonup> u64) \<Rightarrow> ReplayShard \<Rightarrow> (bytes \<rightharpoonup> u64)" where
  "forget sn q = sn |` (- snd ` set q)"

lemma forget_simps [simp]:
  "forget sn [] = sn"
  "forget sn ((ts, m) # q) = forget (sn(m := None)) q"
  "forget (forget sn p) q = forget sn (p @ q)"
  by (auto simp: forget_def fun_eq_iff restrict_map_def)

lemma evict_expired_eq:
  "evict_expired now age q sn =
     (dropWhile (expired now age) q, forget sn (takeWhile (expired now age) q))"
  by (induction q arbitrary: sn) (auto simp: expired_def)

lemma evict_over_cap_eq:
  "evict_over_cap q sn fe =
     (drop (length q - REPLAY_CACHE_PER_SHARD_MAX) q, forget sn (take (length q - REPLAY_CACHE_PER_SHARD_MAX) q),
      fe + word_of_nat (length q - REPLAY_CACHE_PER_SHARD_MAX))"
proof (induction q arbitrary: sn fe)
  case (Cons e order)
  obtain ts old where e: "e = (ts, old)" by (cases e)
  show ?case
  proof (cases "REPLAY_CACHE_PER_SHARD_MAX \<le> length order")
    case True
    then obtain k where k: "length order = REPLAY_CACHE_PER_SHARD_MAX + k" by (metis le_Suc_ex)
    have "evict_over_cap (e # order) sn fe = evict_over_cap order (sn(old := None)) (fe + 1)"
      using True by (simp add: e)
    also have "\<dots> = (drop k order, forget (sn(old := None)) (take k order), fe + 1 + word_of_nat k)"
      unfolding Cons.IH k by simp
    finally show ?thesis by (simp add: e k)
  qed (simp add: e)
qed simp

text \<open>The two loops together pop a prefix of the queue and forget its tags.\<close>

lemma check_and_insert_new:
  assumes "seen c mac = None"
  obtains k fe where
    "check_and_insert c mac now age =
       (c\<lparr>seen := forget ((seen c)(mac \<mapsto> now)) (take k (shards c ! shard_of mac @ [(now, mac)])),
          shards := (shards c)[shard_of mac := drop k (shards c ! shard_of mac @ [(now, mac)])],
          full_evictions := fe\<rparr>, False)"
    "drop k (shards c ! shard_of mac @ [(now, mac)]) =
       (let r = dropWhile (expired now age) (shards c ! shard_of mac @ [(now, mac)])
        in drop (length r - REPLAY_CACHE_PER_SHARD_MAX) r)"
proof -
  let ?q = "shards c ! shard_of mac @ [(now, mac)]"
  define j where "j = length (takeWhile (expired now age) ?q)"
  define n where "n = length (drop j ?q) - REPLAY_CACHE_PER_SHARD_MAX"
  have r: "dropWhile (expired now age) ?q = drop j ?q" by (simp add: j_def dropWhile_eq_drop)
  have t: "takeWhile (expired now age) ?q = take j ?q" unfolding j_def by (rule takeWhile_eq_take)
  have app: "take j ?q @ take n (drop j ?q) = take (j + n) ?q" by (simp only: take_add)
  have drp: "drop n (drop j ?q) = drop (j + n) ?q" by (simp only: drop_drop add.commute)
  show ?thesis
  proof (rule that [where k = "j + n" and fe = "full_evictions c + word_of_nat n"])
    show "check_and_insert c mac now age =
       (c\<lparr>seen := forget ((seen c)(mac \<mapsto> now)) (take (j + n) ?q),
          shards := (shards c)[shard_of mac := drop (j + n) ?q],
          full_evictions := full_evictions c + word_of_nat n\<rparr>, False)"
      unfolding check_and_insert_def assms Let_def option.case evict_expired_eq prod.case
        evict_over_cap_eq r t n_def [symmetric] forget_simps(3) app drp ..
    show "drop (j + n) ?q = (let r = dropWhile (expired now age) ?q in drop (length r - REPLAY_CACHE_PER_SHARD_MAX) r)"
      unfolding Let_def r n_def [symmetric] by (rule drp [symmetric])
  qed
qed

lemma check_and_insert_old:
  "seen c mac = Some ts \<Longrightarrow> check_and_insert c mac now age = (c, True)"
  by (simp add: check_and_insert_def)

lemma check_and_insert_result:
  "snd (check_and_insert c mac now age) \<longleftrightarrow> mac \<in> dom (seen c)"
  by (auto simp: check_and_insert_def Let_def split: option.splits prod.splits)

section \<open>The invariant is kept\<close>

lemma replay_wf_seen:
  "replay_wf c \<Longrightarrow> seen c m = Some ts \<longleftrightarrow> (ts, m) \<in> set (shards c ! shard_of m)"
  by (simp add: replay_wf_def)

lemma replay_wf_route:
  "replay_wf c \<Longrightarrow> (ts, m) \<in> set (shards c ! i) \<Longrightarrow> i < REPLAY_CACHE_SHARDS \<Longrightarrow> shard_of m = i"
  by (auto simp: replay_wf_def shard_ok_def)

lemma forget_Some [simp]: "forget sn q m = Some ts \<longleftrightarrow> sn m = Some ts \<and> m \<notin> snd ` set q"
  by (auto simp: forget_def restrict_map_def split: if_splits)

lemma distinct_drop_iff:
  assumes "distinct (map snd q)"
  shows "(ts, m) \<in> set (drop k q) \<longleftrightarrow> (ts, m) \<in> set q \<and> m \<notin> snd ` set (take k q)"
proof -
  have split: "set q = set (take k q) \<union> set (drop k q)"
    using set_append [of "take k q" "drop k q"] by simp
  from assms have "distinct (map snd (take k q @ drop k q))" by simp
  then have disj: "snd ` set (take k q) \<inter> snd ` set (drop k q) = {}"
    by (simp only: map_append distinct_append set_map)
  have img: "(ts, m) \<in> A \<Longrightarrow> m \<in> snd ` A" for A
    using image_eqI [of m snd "(ts, m)"] by simp
  show ?thesis using split disj img by blast
qed

lemma replay_wf_shard:
  "replay_wf c \<Longrightarrow> length (shards c) = REPLAY_CACHE_SHARDS"
  "replay_wf c \<Longrightarrow> i < REPLAY_CACHE_SHARDS \<Longrightarrow> shard_ok i (shards c ! i)"
  by (simp_all add: replay_wf_def)

text \<open>Queueing a new tag and popping a prefix of its shard.\<close>

lemma replay_wf_update:
  assumes wf: "replay_wf c" and fresh: "seen c mac = None"
    and q: "q = shards c ! shard_of mac @ [(now, mac)]"
    and short: "length (drop k q) \<le> REPLAY_CACHE_PER_SHARD_MAX"
  shows "replay_wf (c\<lparr>seen := forget ((seen c)(mac \<mapsto> now)) (take k q),
    shards := (shards c)[shard_of mac := drop k q], full_evictions := fe\<rparr>)"
proof -
  let ?i = "shard_of mac"
  note ok = replay_wf_shard(2) [OF wf shard_of_less, of mac]
  have notin: "mac \<notin> snd ` set (shards c ! ?i)"
    using replay_wf_seen [OF wf, of mac] fresh by auto
  with ok have dist: "distinct (map snd q)" by (simp add: q shard_ok_def)
  have route: "shard_of m = ?i" if "(ts, m) \<in> set q" for ts m
    using that ok by (auto simp: q shard_ok_def)
  have "shard_ok ?i (drop k q)"
    unfolding shard_ok_def drop_map [symmetric]
    using dist short by (auto dest!: in_set_dropD route)
  moreover have "(forget ((seen c)(mac \<mapsto> now)) (take k q) m = Some ts) =
      ((ts, m) \<in> set ((shards c)[?i := drop k q] ! shard_of m))" for m ts
  proof (cases "shard_of m = ?i")
    case True
    have "((seen c)(mac \<mapsto> now)) m = Some ts \<longleftrightarrow> (ts, m) \<in> set q"
      using replay_wf_seen [OF wf, of m ts] True notin by (cases "m = mac") (auto simp: q image_iff)
    with True show ?thesis
      by (simp add: replay_wf_shard(1) [OF wf] distinct_drop_iff [OF dist])
  next
    case False
    then have "m \<noteq> mac" by auto
    moreover have "m \<notin> snd ` set (take k q)"
      using False by (auto dest!: in_set_takeD route)
    ultimately show ?thesis
      using False by (simp add: replay_wf_seen [OF wf])
  qed
  ultimately show ?thesis
    using replay_wf_shard [OF wf] by (simp add: replay_wf_def nth_list_update)
qed

lemma replay_wf_check:
  assumes wf: "replay_wf c"
  shows "replay_wf (fst (check_and_insert c mac now age))"
proof (cases "seen c mac")
  case (Some ts)
  with wf show ?thesis by (simp add: check_and_insert_old)
next
  case None
  then show ?thesis
  proof (rule check_and_insert_new [of c mac now age])
    fix k fe
    let ?q = "shards c ! shard_of mac @ [(now, mac)]"
    assume res: "check_and_insert c mac now age =
      (c\<lparr>seen := forget ((seen c)(mac \<mapsto> now)) (take k ?q),
         shards := (shards c)[shard_of mac := drop k ?q], full_evictions := fe\<rparr>, False)"
      and dk: "drop k ?q = (let r = dropWhile (expired now age) ?q
        in drop (length r - REPLAY_CACHE_PER_SHARD_MAX) r)"
    show ?thesis
      unfolding res fst_conv
      by (rule replay_wf_update [OF wf None refl]) (simp add: dk Let_def del: drop_append)
  qed
qed

lemma replay_dom:
  assumes "replay_wf c"
  shows "dom (seen c) \<subseteq> (\<Union>i < REPLAY_CACHE_SHARDS. snd ` set (shards c ! i))"
proof
  fix m assume "m \<in> dom (seen c)"
  then obtain ts where "(ts, m) \<in> set (shards c ! shard_of m)"
    using replay_wf_seen [OF assms] unfolding dom_def by auto
  then have "m \<in> snd ` set (shards c ! shard_of m)" by (metis imageI snd_conv)
  then show "m \<in> (\<Union>i < REPLAY_CACHE_SHARDS. snd ` set (shards c ! i))"
    by (intro UN_I [of "shard_of m"]) simp_all
qed

lemma replay_len_bound:
  assumes "replay_wf c"
  shows "replay_cache_len c \<le> REPLAY_CACHE_MAX"
proof -
  have small: "card (snd ` set (shards c ! i)) \<le> REPLAY_CACHE_PER_SHARD_MAX" if "i < REPLAY_CACHE_SHARDS" for i
  proof -
    have "card (snd ` set (shards c ! i)) \<le> length (shards c ! i)"
      by (meson card_image_le card_length finite_set le_trans)
    also have "\<dots> \<le> REPLAY_CACHE_PER_SHARD_MAX"
      using replay_wf_shard(2) [OF assms that] by (simp add: shard_ok_def)
    finally show ?thesis .
  qed
  have "replay_cache_len c \<le> card (\<Union>i < REPLAY_CACHE_SHARDS. snd ` set (shards c ! i))"
    unfolding replay_cache_len_def by (rule card_mono) (use replay_dom [OF assms] in auto)
  also have "\<dots> \<le> (\<Sum>i < REPLAY_CACHE_SHARDS. card (snd ` set (shards c ! i)))" by (rule card_UN_le) simp
  also have "\<dots> \<le> (\<Sum>i < REPLAY_CACHE_SHARDS. REPLAY_CACHE_PER_SHARD_MAX)" by (rule sum_mono) (use small in auto)
  finally show ?thesis by (simp add: replay_sizes)
qed

section \<open>What the verifiers rely on\<close>

text \<open>
  A replay guard answers whether it has met a tag and remembers a new one, if
  the window is not empty.  A guard that knows a tag rejects it; so a tag is
  accepted once as long as the guard knows it.
\<close>

locale replay_guard =
  fixes check :: "'c \<Rightarrow> bytes \<Rightarrow> u64 \<Rightarrow> u64 \<Rightarrow> 'c \<times> bool"
    and inv :: "'c \<Rightarrow> bool"
    and knows :: "'c \<Rightarrow> bytes \<Rightarrow> bool"
  assumes check_answer: "inv c \<Longrightarrow> snd (check c m now age) \<longleftrightarrow> knows c m"
    and check_inv: "inv c \<Longrightarrow> inv (fst (check c m now age))"
    and check_learns: "inv c \<Longrightarrow> 0 < age \<Longrightarrow> knows (fst (check c m now age)) m"
    and check_known: "inv c \<Longrightarrow> knows c m \<Longrightarrow> fst (check c m now age) = c"
begin

lemma twice_rejected:
  "inv c \<Longrightarrow> 0 < age \<Longrightarrow> snd (check (fst (check c m now age)) m now' age')"
  by (simp add: check_answer check_inv check_learns)

lemma run_inv: "inv c \<Longrightarrow> inv (fold (\<lambda>(m, now). fst \<circ> (\<lambda>c. check c m now age)) calls c)"
  by (induction calls arbitrary: c) (auto simp: check_inv split: prod.splits)

end

lemma check_and_insert_learns:
  assumes wf: "replay_wf c" and age: "0 < age"
  shows "mac \<in> dom (seen (fst (check_and_insert c mac now age)))"
proof (cases "seen c mac")
  case (Some ts)
  then show ?thesis by (simp add: check_and_insert_old dom_def)
next
  case None
  let ?q = "shards c ! shard_of mac @ [(now, mac)]"
  from check_and_insert_new [OF None] obtain k fe where
    res: "check_and_insert c mac now age =
      (c\<lparr>seen := forget ((seen c)(mac \<mapsto> now)) (take k ?q),
         shards := (shards c)[shard_of mac := drop k ?q], full_evictions := fe\<rparr>, False)"
    and dk: "drop k ?q = (let r = dropWhile (expired now age) ?q in drop (length r - REPLAY_CACHE_PER_SHARD_MAX) r)" .
  let ?r = "dropWhile (expired now age) (shards c ! shard_of mac)"
  have "\<not> expired now age (now, mac)"
    using age by (simp add: expired_def saturating_sub_def not_le)
  then have "dropWhile (expired now age) ?q = ?r @ [(now, mac)]"
    by (simp add: dropWhile_append)
  then have "drop k ?q = drop (Suc (length ?r) - REPLAY_CACHE_PER_SHARD_MAX) (?r @ [(now, mac)])"
    unfolding dk by (simp add: Let_def del: drop_append)
  then have "(now, mac) \<in> set (drop k ?q)" by (simp add: replay_sizes)
  then have "(now, mac) \<in> set (shards (fst (check_and_insert c mac now age)) ! shard_of mac)"
    by (simp add: res replay_wf_shard(1) [OF wf] del: drop_append)
  then have "seen (fst (check_and_insert c mac now age)) mac = Some now"
    by (simp only: replay_wf_seen [OF replay_wf_check [OF wf]])
  then show ?thesis by (rule domI)
qed

interpretation replay: replay_guard check_and_insert replay_wf "\<lambda>c m. m \<in> dom (seen c)"
proof unfold_locales
  fix c m now age
  show "snd (check_and_insert c m now age) \<longleftrightarrow> m \<in> dom (seen c)"
    by (rule check_and_insert_result)
  show "replay_wf (fst (check_and_insert c m now age))" if "replay_wf c"
    using that by (rule replay_wf_check)
  show "m \<in> dom (seen (fst (check_and_insert c m now age)))" if "replay_wf c" "0 < age"
    using that by (rule check_and_insert_learns)
  show "fst (check_and_insert c m now age) = c" if known: "m \<in> dom (seen c)"
  proof -
    from known obtain ts where "seen c m = Some ts" unfolding dom_def by auto
    then show ?thesis by (simp only: check_and_insert_old fst_conv)
  qed
qed

section \<open>A tag is accepted once per window\<close>

text \<open>A sequence of calls with one window.\<close>

fun replay_run :: "ReplayCache \<Rightarrow> u64 \<Rightarrow> (bytes \<times> u64) list \<Rightarrow> ReplayCache" where
  "replay_run c age [] = c"
| "replay_run c age ((m, now) # calls) = replay_run (fst (check_and_insert c m now age)) age calls"

text \<open>The tag is queued with at most \<open>k\<close> later ones behind it.\<close>

definition queued :: "ReplayCache \<Rightarrow> bytes \<Rightarrow> u64 \<Rightarrow> nat \<Rightarrow> bool" where
  "queued c m t k \<longleftrightarrow> (\<exists>p s. shards c ! shard_of m = p @ (t, m) # s \<and> length s \<le> k)"

lemma queued_known: "replay_wf c \<Longrightarrow> queued c m t k \<Longrightarrow> m \<in> dom (seen c)"
  by (rule domI [where b = t]) (auto simp: queued_def replay_wf_seen)

lemma dropWhile_keeps:
  assumes "\<not> P x"
  shows "\<exists>p'. dropWhile P (p @ x # s) = p' @ x # s \<and> length p' \<le> length p"
  using assms by (induction p) (auto intro: le_SucI)

lemma queued_check:
  assumes wf: "replay_wf c" and q: "queued c m t k" and k: "k + of_bool (shard_of m' = shard_of m) < REPLAY_CACHE_PER_SHARD_MAX"
    and young: "saturating_sub now t < age"
  shows "queued (fst (check_and_insert c m' now age)) m t (k + of_bool (shard_of m' = shard_of m))"
proof (cases "seen c m' = None \<and> shard_of m' = shard_of m")
  case True
  let ?q = "shards c ! shard_of m' @ [(now, m')]" and ?P = "expired now age"
  from True q obtain p s where ps: "?q = p @ (t, m) # s @ [(now, m')]" and s: "length s \<le> k"
    by (auto simp: queued_def)
  from young have "\<not> ?P (t, m)" by (simp add: expired_def)
  then obtain p' where p': "dropWhile ?P ?q = p' @ (t, m) # s @ [(now, m')]"
    unfolding ps using dropWhile_keeps by metis
  from True have new: "seen c m' = None" ..
  show ?thesis
  proof (rule check_and_insert_new [OF new, of now age])
    fix j fe
    assume res: "check_and_insert c m' now age =
      (c\<lparr>seen := forget ((seen c)(m' \<mapsto> now)) (take j ?q),
         shards := (shards c)[shard_of m' := drop j ?q], full_evictions := fe\<rparr>, False)"
      and dj: "drop j ?q = (let r = dropWhile ?P ?q in drop (length r - REPLAY_CACHE_PER_SHARD_MAX) r)"
    define n where "n = length (dropWhile ?P ?q) - REPLAY_CACHE_PER_SHARD_MAX"
    have "n \<le> length p'" using s k by (simp only: n_def p') (simp add: True)
    then have "drop j ?q = drop n p' @ (t, m) # s @ [(now, m')]"
      unfolding dj Let_def n_def [symmetric] by (simp add: p')
    then have "shards (fst (check_and_insert c m' now age)) ! shard_of m =
        drop n p' @ (t, m) # s @ [(now, m')]"
      using True by (simp add: res replay_wf_shard(1) [OF wf] del: drop_append)
    with s True show ?thesis unfolding queued_def by fastforce
  qed
next
  case False
  then have "shards (fst (check_and_insert c m' now age)) ! shard_of m = shards c ! shard_of m"
    by (auto simp: check_and_insert_def Let_def split: option.splits prod.splits)
  with q show ?thesis by (auto simp: queued_def intro: le_SucI)
qed

text \<open>The calls that compete with a tag for its shard.\<close>

definition same_shard :: "bytes \<Rightarrow> (bytes \<times> u64) list \<Rightarrow> nat" where
  "same_shard m calls = length (filter (\<lambda>(m', now). shard_of m' = shard_of m) calls)"

lemma same_shard_Cons [simp]: "same_shard m ((m', now) # calls) = of_bool (shard_of m' = shard_of m) + same_shard m calls"
  by (simp add: same_shard_def)

lemma same_shard_Nil [simp]: "same_shard m [] = 0"
  by (simp add: same_shard_def)

lemma queued_run:
  assumes "replay_wf c" "queued c m t k" "k + same_shard m calls < REPLAY_CACHE_PER_SHARD_MAX"
    and "\<forall>(m', now) \<in> set calls. saturating_sub now t < age"
  shows "replay_wf (replay_run c age calls) \<and> queued (replay_run c age calls) m t (k + same_shard m calls)"
  using assms
proof (induction calls arbitrary: c k)
  case (Cons call calls)
  obtain m' now where call: "call = (m', now)" by (cases call)
  let ?c = "fst (check_and_insert c m' now age)"
  from Cons.prems have "replay_wf ?c" by (simp add: replay_wf_check)
  moreover from Cons.prems have "queued ?c m t (k + of_bool (shard_of m' = shard_of m))"
    by (intro queued_check) (auto simp: call)
  ultimately show ?case
    using Cons.IH [of ?c "k + of_bool (shard_of m' = shard_of m)"] Cons.prems by (simp add: call add.assoc)
qed simp

lemma queued_insert:
  assumes wf: "replay_wf c" and new: "check_and_insert c m t age = (c', False)" and age: "0 < age"
  shows "queued c' m t 0"
proof -
  from new have fresh: "seen c m = None"
    using check_and_insert_result [of c m t age] by auto
  from check_and_insert_learns [OF wf age, of m t] new have "m \<in> dom (seen c')" by simp
  moreover have "replay_wf c'" using replay_wf_check [OF wf, of m t age] new by simp
  show ?thesis
  proof (rule check_and_insert_new [OF fresh, of t age])
    fix j fe
    let ?q = "shards c ! shard_of m @ [(t, m)]"
    assume res: "check_and_insert c m t age =
      (c\<lparr>seen := forget ((seen c)(m \<mapsto> t)) (take j ?q),
         shards := (shards c)[shard_of m := drop j ?q], full_evictions := fe\<rparr>, False)"
    have sh: "shards c' ! shard_of m = drop j ?q"
      using new unfolding res by (auto simp: replay_wf_shard(1) [OF wf] simp del: drop_append)
    moreover from \<open>m \<in> dom (seen c')\<close> \<open>replay_wf c'\<close> have "drop j ?q \<noteq> []"
      unfolding sh [symmetric] by (auto simp: replay_wf_seen)
    then have "j \<le> length (shards c ! shard_of m)" by (auto simp: not_le)
    ultimately show ?thesis by (simp add: queued_def)
  qed
qed

lemma replay_wf_run: "replay_wf c \<Longrightarrow> replay_wf (replay_run c age calls)"
  by (induction calls arbitrary: c) (auto simp: replay_wf_check)

section \<open>Properties\<close>

text \<open>
  C19: replay rejection.  Take any history of the cache and a tag \<open>m\<close> it accepts at
  time \<open>t\<close>.  However the cache is called afterwards, one call after the other, as long as
  fewer than 2048 of the calls are for tags of the same shard, repeated ones counted, and the
  clock readings of the calls lie less than the window after \<open>t\<close>, a further presentation
  of \<open>m\<close> is reported as a replay, at any reading.
\<close>

theorem replay_rejected_in_window:
  assumes "check_and_insert (replay_run replay_cache_new age hist) m t age = (c, False)"
    and "0 < age" and "same_shard m calls < 2048"
    and "\<forall>(m', now) \<in> set calls. saturating_sub now t < age"
  shows "snd (check_and_insert (replay_run c age calls) m now' age)"
proof -
  have wf: "replay_wf (replay_run replay_cache_new age hist)"
    by (rule replay_wf_run [OF replay_wf_new])
  from replay_wf_check [OF this, of m t age] assms(1) have "replay_wf c" by simp
  moreover from queued_insert [OF wf assms(1,2)] have "queued c m t 0" .
  ultimately have "m \<in> dom (seen (replay_run c age calls))"
    using queued_run [of c m t 0 calls age] assms(3,4) by (auto simp: replay_sizes dest: queued_known)
  then show ?thesis by (simp add: check_and_insert_result)
qed

theorem replay_rejected_in_window_witness:
  "snd (check_and_insert
      (replay_run (fst (check_and_insert replay_cache_new [1] 100 30000)) 30000
         [([2], 150), ([1], 160), ([3], 30099)]) [1] 30099 30000)"
proof (rule replay_rejected_in_window [where hist = "[]" and t = 100])
  show "check_and_insert (replay_run replay_cache_new 30000 []) [1] 100 30000 =
      (fst (check_and_insert replay_cache_new [1] 100 30000), False)"
    by (simp add: check_and_insert_def replay_cache_new_def Let_def split: prod.split)
qed (simp_all add: saturating_sub_def)

text \<open>
  The cache is bounded.  After any sequence of calls, with any clock readings,
  it holds at most \<open>REPLAY_CACHE_MAX\<close> tags, and no shard queue exceeds its cap.
\<close>

theorem replay_cache_bounded:
  "replay_cache_len (replay_run replay_cache_new age calls) \<le> REPLAY_CACHE_MAX"
  by (intro replay_len_bound replay_wf_run replay_wf_new)

text \<open>
  The gap between freshness and eviction.  A message stamped at or after the
  moment \<open>t\<close> of its first acceptance (allowed up to the future skew) is still fresh
  at \<open>t + age\<close>, when the insertion of another tag of the same shard has already
  evicted it, by insertion time; presented again it passes both the freshness
  check and the replay check.
\<close>

theorem future_dated_replay_accepted:
  assumes "0 < age" and "unat t + unat age < 2 ^ 64" and "m' \<noteq> m" and "shard_of m' = shard_of m"
    and "t \<le> ts" and "ts - t \<le> skew" and "ts \<le> t + age"
  shows "check_message_freshness t ts age skew \<and>
    check_message_freshness (t + age) ts age skew \<and>
    \<not> snd (check_and_insert (replay_run replay_cache_new age [(m, t), (m', t + age)])
           m (t + age) age)"
proof -
  have sum: "unat (t + age) = unat t + unat age"
    using assms(2) by (simp add: unat_word_ariths)
  have "check_message_freshness t ts age skew"
    using assms(5,6) by (auto simp: check_message_freshness_def)
  moreover have "unat (t + age - ts) \<le> unat age"
    using assms(5,7) by (simp add: unat_minus_le sum word_le_nat_alt)
  then have "check_message_freshness (t + age) ts age skew"
    using assms(7) by (simp add: check_message_freshness_def word_le_nat_alt)
  moreover have first: "fst (check_and_insert replay_cache_new m t age) =
      replay_cache_new\<lparr>seen := [m \<mapsto> t],
        shards := (replicate REPLAY_CACHE_SHARDS [])[shard_of m := [(t, m)]]\<rparr>"
    using assms(1)
    by (auto simp: check_and_insert_def replay_cache_new_def saturating_sub_def Let_def replay_sizes(2))
  have "saturating_sub (t + age) t = age"
    by (simp add: word_unat_eq_iff unat_saturating_sub sum)
  then have "seen (replay_run replay_cache_new age [(m, t), (m', t + age)]) m = None"
    unfolding replay_run.simps first check_and_insert_def [of _ m']
    using assms(1,3,4) by (simp add: Let_def saturating_sub_def [of "t + age" "t + age"] replay_sizes(2))
  ultimately show ?thesis by (auto simp: check_and_insert_result)
qed

theorem future_dated_replay_accepted_witness:
  "check_message_freshness 1000 1500 30000 1000 \<and>
   check_message_freshness 31000 1500 30000 1000 \<and>
   \<not> snd (check_and_insert (replay_run replay_cache_new 30000
            [(replicate 32 0, 1000), (replicate 16 1 @ replicate 16 0, 31000)]) (replicate 32 0) 31000 30000)"
proof -
  have "shard_of (replicate 16 1 @ replicate 16 0) = shard_of (replicate 32 0)" 
    by (simp add: shard_of_def chunks_exact_8.simps eval_nat_numeral)
  moreover have "replicate 16 1 @ replicate 16 0 \<noteq> (replicate 32 0 :: bytes)"
    by (simp add: numeral_eq_Suc)
  ultimately show ?thesis
    using future_dated_replay_accepted [of 30000 1000 "replicate 16 1 @ replicate 16 0" "replicate 32 0" 1500 1000]
    by simp
qed

end
