(* ===== verification/Vote_Limiter.thy ===== *)
theory Vote_Limiter
  imports HSM_Prelude
begin

text \<open>
  \<open>VoteRateLimiter\<close> of \<open>craton-hsm-cluster/src/raft.rs\<close>: one token bucket per
  peer for inbound vote requests.  Token counts are \<open>u32\<close>, times and counters
  \<open>u64\<close>; the clock reading is an argument, as in the source.  The interface
  \<open>token_budget\<close> states what a limiter promises over a run of calls; the limiter is
  an instance, which bounds how many requests of a peer get through.
\<close>

section \<open>State and operations\<close>

definition MAX_VOTE_RATE_LIMITER_PEERS :: nat where
  "MAX_VOTE_RATE_LIMITER_PEERS = 65536"

record VoteBucket =
  tokens :: u32
  last_refill_ms :: u64
  rejected :: u64

record VoteRateLimiter =
  vl_state :: "string \<rightharpoonup> VoteBucket"
  capacity :: u32
  refill_interval_ms :: u64
  allowed_peers :: "string set option"
  unknown_rejects :: u64

definition limiter_new :: "u32 \<Rightarrow> u64 \<Rightarrow> VoteRateLimiter" where
  "limiter_new cap refill =
     \<lparr>vl_state = Map.empty, capacity = (if cap = 0 then 1 else cap),
      refill_interval_ms = refill, allowed_peers = None, unknown_rejects = 0\<rparr>"

definition set_allowed_peers :: "VoteRateLimiter \<Rightarrow> string set option \<Rightarrow> VoteRateLimiter" where
  "set_allowed_peers l peers = l\<lparr>allowed_peers := peers\<rparr>"

definition unknown_peer_rejects :: "VoteRateLimiter \<Rightarrow> u64" where
  "unknown_peer_rejects l = unknown_rejects l"

definition evict_stale :: "VoteRateLimiter \<Rightarrow> u64 \<Rightarrow> u64 \<Rightarrow> VoteRateLimiter \<times> nat" where
  "evict_stale l now_ms stale_after_ms =
     (if stale_after_ms = 0 then (l, 0)
      else let kept = map_retain
                 (\<lambda>_ b. \<not> saturating_sub now_ms (last_refill_ms b) \<ge> stale_after_ms) (vl_state l)
           in (l\<lparr>vl_state := kept\<rparr>, card (dom (vl_state l) - dom kept)))"

definition refill_bucket :: "VoteRateLimiter \<Rightarrow> VoteBucket \<Rightarrow> u64 \<Rightarrow> VoteBucket" where
  "refill_bucket l b now_ms =
     (if refill_interval_ms l > 0 then
        let elapsed = saturating_sub now_ms (last_refill_ms b);
            refills = elapsed div refill_interval_ms l
        in if refills > 0 then
             let new_tokens = saturating_add (ucast (tokens b)) refills
             in b\<lparr>tokens := ucast (min new_tokens (ucast (capacity l))),
                  last_refill_ms := saturating_add (last_refill_ms b)
                    (saturating_mul refills (refill_interval_ms l))\<rparr>
           else b
      else b)"

definition try_consume :: "VoteRateLimiter \<Rightarrow> string \<Rightarrow> u64 \<Rightarrow> VoteRateLimiter \<times> bool" where
  "try_consume l peer now_ms =
     (if (case allowed_peers l of
            Some allowed \<Rightarrow> peer \<notin> allowed
          | None \<Rightarrow> card (dom (vl_state l)) \<ge> MAX_VOTE_RATE_LIMITER_PEERS \<and> vl_state l peer = None)
      then (l\<lparr>unknown_rejects := unknown_rejects l + 1\<rparr>, False)
      else
        let entry0 = (case vl_state l peer of
              Some b \<Rightarrow> b
            | None \<Rightarrow> \<lparr>tokens = capacity l, last_refill_ms = now_ms, rejected = 0\<rparr>);
            entry = refill_bucket l entry0 now_ms
        in if tokens entry = 0
           then (l\<lparr>vl_state := (vl_state l)(peer \<mapsto>
                   entry\<lparr>rejected := saturating_add (rejected entry) 1\<rparr>)\<rparr>, False)
           else (l\<lparr>vl_state := (vl_state l)(peer \<mapsto> entry\<lparr>tokens := tokens entry - 1\<rparr>)\<rparr>, True))"

definition rejected_count :: "VoteRateLimiter \<Rightarrow> string \<Rightarrow> u64" where
  "rejected_count l peer = (case vl_state l peer of Some b \<Rightarrow> rejected b | None \<Rightarrow> 0)"

text \<open>\<open>all_rejected\<close>, as a map: the order of the source's vector is the table's.\<close>

definition all_rejected :: "VoteRateLimiter \<Rightarrow> string \<rightharpoonup> u64" where
  "all_rejected l = (\<lambda>peer. case vl_state l peer of
       Some b \<Rightarrow> if rejected b > 0 then Some (rejected b) else None
     | None \<Rightarrow> None)"

record VoteRateLimiterConfig =
  cfg_capacity :: u32
  cfg_refill_interval_ms :: u64

definition limiter_defaults :: VoteRateLimiterConfig where
  "limiter_defaults = \<lparr>cfg_capacity = 3, cfg_refill_interval_ms = 5000\<rparr>"

text \<open>\<open>cluster_size as u64\<close> is exact, since \<open>usize\<close> has 64 bits.\<close>

definition adaptive_for_cluster_size :: "nat \<Rightarrow> VoteRateLimiterConfig" where
  "adaptive_for_cluster_size cluster_size =
     (let n = word_of_nat (max cluster_size 1) :: u64;
          refill = min (max (5000 div n) 500) 5000
      in \<lparr>cfg_capacity = 3, cfg_refill_interval_ms = refill\<rparr>)"

section \<open>Invariant\<close>

definition limiter_wf :: "VoteRateLimiter \<Rightarrow> bool" where
  "limiter_wf l \<longleftrightarrow>
     capacity l \<noteq> 0 \<and> finite (dom (vl_state l)) \<and>
     (\<forall>p b. vl_state l p = Some b \<longrightarrow> tokens b \<le> capacity l)"

lemma limiter_wf_new: "limiter_wf (limiter_new cap refill)"
  by (simp add: limiter_wf_def limiter_new_def)

lemma unat_ucast_u32_u64 [simp]: "unat (ucast (w :: u32) :: u64) = unat w"
  by (simp add: unsigned_ucast_eq take_bit_nat_eq_self unat_less_2p [THEN less_trans])

lemma unat_ucast_u64_small:
  "unat (w :: u64) < 2 ^ 32 \<Longrightarrow> unat (ucast w :: u32) = unat w"
  by (simp add: unsigned_ucast_eq take_bit_nat_eq_self)

lemma unat_min: "unat (min a b) = min (unat a) (unat b)"
  by (simp add: min_def word_le_nat_alt)

text \<open>The bucket after a refill, in natural numbers.\<close>

lemma refill_tokens:
  "unat (tokens (refill_bucket l b now)) =
     (if 0 < (unat now - unat (last_refill_ms b)) div unat (refill_interval_ms l)
      then min (unat (tokens b) + (unat now - unat (last_refill_ms b)) div unat (refill_interval_ms l))
             (unat (capacity l))
      else unat (tokens b))"
  (is "_ = ?rhs")
proof -
  let ?k = "saturating_sub now (last_refill_ms b) div refill_interval_ms l"
  let ?m = "min (saturating_add (ucast (tokens b)) ?k) (ucast (capacity l)) :: u64"
  have k: "unat ?k = (unat now - unat (last_refill_ms b)) div unat (refill_interval_ms l)"
    by (simp add: unat_div unat_saturating_sub)
  have cap: "unat (capacity l) < 2 ^ 32" using unat_less_2p [of "capacity l"] by simp
  have m: "unat ?m = min (unat (tokens b) + unat ?k) (unat (capacity l))"
    using cap by (simp add: unat_min unat_saturating_add)
  with cap have "unat (ucast ?m :: u32) = min (unat (tokens b) + unat ?k) (unat (capacity l))"
    by (subst unat_ucast_u64_small) auto
  then show ?thesis
    by (auto simp: refill_bucket_def Let_def k word_less_nat_alt)
qed

lemma refill_last:
  "unat (last_refill_ms (refill_bucket l b now)) =
     unat (last_refill_ms b) +
     (unat now - unat (last_refill_ms b)) div unat (refill_interval_ms l) * unat (refill_interval_ms l)"
proof -
  let ?k = "saturating_sub now (last_refill_ms b) div refill_interval_ms l"
  let ?e = "unat now - unat (last_refill_ms b)" and ?R = "unat (refill_interval_ms l)"
  have k: "unat ?k = ?e div ?R" by (simp add: unat_div unat_saturating_sub)
  have le: "?e div ?R * ?R \<le> ?e" by simp
  then have "?e div ?R * ?R < 18446744073709551616" using unat_u64_less [of now] by linarith
  then have mul: "unat (saturating_mul ?k (refill_interval_ms l)) = ?e div ?R * ?R"
    by (simp add: unat_saturating_mul k)
  show ?thesis
  proof (cases "0 < ?e div ?R")
    case True
    then have "?R \<noteq> 0" by (metis div_by_0 less_irrefl)
    from True have "unat (last_refill_ms b) \<le> unat now" by (cases "?e = 0") auto
    then have "unat (last_refill_ms b) + ?e div ?R * ?R < 18446744073709551616"
      using le unat_u64_less [of now] by linarith
    then show ?thesis
      using True \<open>?R \<noteq> 0\<close>
      by (auto simp: refill_bucket_def Let_def word_less_nat_alt k mul unat_saturating_add)
  next
    case False
    then show ?thesis by (auto simp: refill_bucket_def Let_def word_less_nat_alt k)
  qed
qed

lemma refill_rejected [simp]: "rejected (refill_bucket l b now) = rejected b"
  by (simp add: refill_bucket_def Let_def)

lemma try_consume_config [simp]:
  "capacity (fst (try_consume l p now)) = capacity l"
  "refill_interval_ms (fst (try_consume l p now)) = refill_interval_ms l"
  "allowed_peers (fst (try_consume l p now)) = allowed_peers l"
  by (simp_all add: try_consume_def Let_def)

lemma try_consume_other [simp]:
  "q \<noteq> p \<Longrightarrow> vl_state (fst (try_consume l p now)) q = vl_state l q"
  by (simp add: try_consume_def Let_def)

lemma refill_le_capacity:
  "tokens b \<le> capacity l \<Longrightarrow> tokens (refill_bucket l b now) \<le> capacity l"
  by (simp add: word_le_nat_alt refill_tokens)

text \<open>The three outcomes of a call.\<close>

lemma try_consume_cases:
  obtains (unknown) "try_consume l p now = (l\<lparr>unknown_rejects := unknown_rejects l + 1\<rparr>, False)"
  | (bucket) b where
      "b = refill_bucket l (case vl_state l p of Some b \<Rightarrow> b
         | None \<Rightarrow> \<lparr>tokens = capacity l, last_refill_ms = now, rejected = 0\<rparr>) now"
      "try_consume l p now =
         (l\<lparr>vl_state := (vl_state l)(p \<mapsto> (if tokens b = 0
            then b\<lparr>rejected := saturating_add (rejected b) 1\<rparr>
            else b\<lparr>tokens := tokens b - 1\<rparr>))\<rparr>, tokens b \<noteq> 0)"
  by (cases "case allowed_peers l of Some allowed \<Rightarrow> p \<notin> allowed
        | None \<Rightarrow> card (dom (vl_state l)) \<ge> MAX_VOTE_RATE_LIMITER_PEERS \<and> vl_state l p = None")
    (simp_all add: try_consume_def Let_def)

lemma limiter_wf_try_consume:
  assumes wf: "limiter_wf l"
  shows "limiter_wf (fst (try_consume l p now))"
proof (cases rule: try_consume_cases [of l p now])
  case unknown
  with wf show ?thesis by (simp add: limiter_wf_def)
next
  case (bucket b)
  from wf have "tokens b \<le> capacity l"
    unfolding bucket(1) by (intro refill_le_capacity) (auto simp: limiter_wf_def split: option.splits)
  moreover have "tokens b - 1 \<le> tokens b" if "tokens b \<noteq> 0"
    using that by (simp add: word_le_nat_alt unat_minus_one_pos)
  ultimately show ?thesis
    using wf by (auto simp: limiter_wf_def bucket(2) split: if_splits)
qed

lemma limiter_wf_evict: "limiter_wf l \<Longrightarrow> limiter_wf (fst (evict_stale l now s))"
  by (auto simp: limiter_wf_def evict_stale_def Let_def intro: finite_subset [OF map_retain_subset])

text \<open>Without an allowlist the table never outgrows its cap.\<close>

lemma limiter_table_bound:
  assumes "limiter_wf l" "allowed_peers l = None"
    and "card (dom (vl_state l)) \<le> MAX_VOTE_RATE_LIMITER_PEERS"
  shows "card (dom (vl_state (fst (try_consume l p now)))) \<le> MAX_VOTE_RATE_LIMITER_PEERS"
  using assms
  by (cases "vl_state l p")
    (auto simp: try_consume_def Let_def limiter_wf_def card_insert_if insert_absorb domIff)

section \<open>How many requests get through\<close>

text \<open>
  A limiter grants each tracked client a budget for the calls up to a time \<open>M\<close>: an
  accepted call of the client takes one unit of it, and no call, of this or of
  another client, raises it.
\<close>

primrec count_accepted :: "('l \<Rightarrow> 'p \<Rightarrow> u64 \<Rightarrow> 'l \<times> bool) \<Rightarrow> 'l \<Rightarrow> 'p \<Rightarrow> ('p \<times> u64) list \<Rightarrow> nat" where
  "count_accepted consume l p [] = 0"
| "count_accepted consume l p (call # calls) =
     of_bool (fst call = p \<and> snd (consume l (fst call) (snd call))) +
     count_accepted consume (fst (consume l (fst call) (snd call))) p calls"

locale token_budget =
  fixes consume :: "'l \<Rightarrow> 'p \<Rightarrow> u64 \<Rightarrow> 'l \<times> bool"
    and tracked :: "'l \<Rightarrow> 'p \<Rightarrow> bool"
    and budget :: "'l \<Rightarrow> 'p \<Rightarrow> u64 \<Rightarrow> nat"
  assumes stays_tracked: "tracked l p \<Longrightarrow> tracked (fst (consume l q now)) p"
    and pays: "tracked l p \<Longrightarrow> now \<le> M \<Longrightarrow>
      budget (fst (consume l q now)) p M + of_bool (q = p \<and> snd (consume l q now)) \<le> budget l p M"
begin

lemma accepted_le_budget:
  "tracked l p \<Longrightarrow> \<forall>call \<in> set calls. snd call \<le> M \<Longrightarrow> count_accepted consume l p calls \<le> budget l p M"
proof (induction calls arbitrary: l)
  case (Cons call calls)
  let ?l = "fst (consume l (fst call) (snd call))"
  have "count_accepted consume ?l p calls \<le> budget ?l p M"
    using Cons by (simp add: stays_tracked)
  then show ?case
    using pays [of l p "snd call" M "fst call"] Cons.prems by simp
qed simp

end

definition vote_budget :: "VoteRateLimiter \<Rightarrow> string \<Rightarrow> u64 \<Rightarrow> nat" where
  "vote_budget l p M = (case vl_state l p of None \<Rightarrow> 0 | Some b \<Rightarrow>
     unat (tokens b) + (unat M - unat (last_refill_ms b)) div unat (refill_interval_ms l))"

lemma diff_mult_div: "((x::nat) - k * r) div r = x div r - k"
proof (cases "k * r \<le> x")
  case True
  then obtain y where "x = y + k * r" by (metis le_add_diff_inverse2)
  then show ?thesis by (cases "r = 0") simp_all
next
  case False
  then have "x div r \<le> k" by (simp add: not_le less_imp_le less_mult_imp_div_less)
  with False show ?thesis by simp
qed

lemma refill_budget:
  assumes "now \<le> M"
  shows "unat (tokens (refill_bucket l b now)) +
      (unat M - unat (last_refill_ms (refill_bucket l b now))) div unat (refill_interval_ms l)
    \<le> unat (tokens b) + (unat M - unat (last_refill_ms b)) div unat (refill_interval_ms l)"
proof -
  let ?R = "unat (refill_interval_ms l)" and ?a = "unat (last_refill_ms b)"
  let ?k = "(unat now - ?a) div ?R" and ?D = "(unat M - ?a) div ?R"
  have "(unat M - (?a + ?k * ?R)) div ?R = ?D - ?k"
    by (simp only: diff_diff_left [symmetric] diff_mult_div)
  moreover have "?k \<le> ?D"
    using assms by (intro div_le_mono diff_le_mono) (simp add: word_le_nat_alt)
  moreover have "(if 0 < k then min (t + k) c else t) + (d - k) \<le> t + d" if "k \<le> d" for t k c d :: nat
    using that by auto
  ultimately show ?thesis unfolding refill_tokens refill_last by (simp only:)
qed

interpretation votes: token_budget try_consume "\<lambda>l p. p \<in> dom (vl_state l)" vote_budget
proof unfold_locales
  fix l p q now M
  show "p \<in> dom (vl_state (fst (try_consume l q now)))" if "p \<in> dom (vl_state l)"
    using that by (cases "q = p"; cases rule: try_consume_cases [of l q now]) (auto simp: domIff)
  show "vote_budget (fst (try_consume l q now)) p M + of_bool (q = p \<and> snd (try_consume l q now))
      \<le> vote_budget l p M" if tracked: "p \<in> dom (vl_state l)" and time: "now \<le> M"
  proof (cases "q = p")
    case False
    then show ?thesis by (simp add: vote_budget_def split: option.split)
  next
    case True
    from tracked obtain b where b: "vl_state l p = Some b" by auto
    show ?thesis
    proof (cases rule: try_consume_cases [of l p now])
      case unknown
      with True show ?thesis by (simp add: vote_budget_def b)
    next
      case (bucket b')
      then have r: "b' = refill_bucket l b now" by (simp add: b)
      have "vote_budget (fst (try_consume l p now)) p M + of_bool (snd (try_consume l p now)) =
          unat (tokens b') + (unat M - unat (last_refill_ms b')) div unat (refill_interval_ms l)"
        using Suc_unat_minus_one [of "tokens b'"] by (simp add: bucket(2) vote_budget_def)
      also have "\<dots> \<le> vote_budget l p M"
        using refill_budget [OF time, of l b] by (simp only: r vote_budget_def b option.case)
      finally show ?thesis using True by simp
    qed
  qed
qed

section \<open>Properties\<close>

text \<open>
  A refill at \<open>t0\<close> or later leaves a bucket that was refilled less than one interval before
  \<open>t0\<close>, with at most the capacity in it.
\<close>

lemma refilled_budget:
  assumes "tokens b \<le> capacity l" and "t0 \<le> now"
  shows "unat (tokens (refill_bucket l b now)) +
      (unat M - unat (last_refill_ms (refill_bucket l b now))) div unat (refill_interval_ms l)
    \<le> unat (capacity l) + (unat M - unat t0) div unat (refill_interval_ms l) + 1"
proof (cases "unat (refill_interval_ms l) = 0")
  case True
  then show ?thesis using refill_le_capacity [OF assms(1), of now] by (simp add: word_le_nat_alt)
next
  case False
  let ?R = "unat (refill_interval_ms l)" and ?a = "unat (last_refill_ms b)"
  let ?r = "unat (last_refill_ms (refill_bucket l b now))"
  have "unat now - ?a < (unat now - ?a) div ?R * ?R + ?R"
    using False by (metis add.commute div_mult_mod_eq mod_less_divisor nat_add_left_cancel_less neq0_conv)
  then have "unat t0 < ?r + ?R" using assms(2) by (simp add: refill_last word_le_nat_alt)
  then have "unat M - ?r \<le> unat M - unat t0 + ?R" by linarith
  then have "(unat M - ?r) div ?R \<le> (unat M - unat t0 + ?R) div ?R" by (rule div_le_mono)
  also have "\<dots> = (unat M - unat t0) div ?R + 1" using False div_add_self2 [of ?R "unat M - unat t0"] by (simp only:) simp
  finally show ?thesis using refill_le_capacity [OF assms(1), of now] by (simp add: word_le_nat_alt)
qed

lemma tracked_rate:
  "limiter_wf l \<Longrightarrow> \<forall>call \<in> set calls. t0 \<le> snd call \<and> snd call \<le> M \<Longrightarrow> vl_state l p = Some b0 \<Longrightarrow>
   count_accepted try_consume l p calls
     \<le> unat (capacity l) + (unat M - unat t0) div unat (refill_interval_ms l) + 1"
proof (induction calls arbitrary: l b0)
  case (Cons call calls)
  obtain q now where call: "call = (q, now)" by (cases call)
  let ?l = "fst (try_consume l q now)"
  have wf: "limiter_wf ?l" by (rule limiter_wf_try_consume [OF Cons.prems(1)])
  show ?case
  proof (cases "q = p")
    case False
    then have "vl_state ?l p = Some b0" using Cons.prems(3) by simp
    from Cons.IH [OF wf _ this] Cons.prems(2) False show ?thesis by (simp add: call)
  next
    case True
    show ?thesis
    proof (cases rule: try_consume_cases [of l p now])
      case unknown
      then show ?thesis using Cons.IH [OF wf, of b0] Cons.prems True by (simp add: call)
    next
      case (bucket b)
      have b: "b = refill_bucket l b0 now" using bucket(1) Cons.prems(3) by simp
      have "count_accepted try_consume ?l p calls \<le> vote_budget ?l p M"
        using Cons.prems(2) True by (intro votes.accepted_le_budget) (auto simp: bucket(2))
      moreover have "vote_budget ?l p M + of_bool (tokens b \<noteq> 0) =
          unat (tokens b) + (unat M - unat (last_refill_ms b)) div unat (refill_interval_ms l)"
        using Suc_unat_minus_one [of "tokens b"] True by (simp add: bucket(2) vote_budget_def)
      moreover have "tokens b0 \<le> capacity l" using Cons.prems(1,3) by (simp add: limiter_wf_def)
      ultimately show ?thesis
        using refilled_budget [of b0 l t0 now M] Cons.prems(2) True by (simp add: call bucket(2) b)
    qed
  qed
qed simp

lemma untracked_rate:
  "limiter_wf l \<Longrightarrow> \<forall>call \<in> set calls. t0 \<le> snd call \<and> snd call \<le> M \<Longrightarrow> vl_state l p = None \<Longrightarrow>
   count_accepted try_consume l p calls
     \<le> unat (capacity l) + (unat M - unat t0) div unat (refill_interval_ms l)"
proof (induction calls arbitrary: l)
  case (Cons call calls)
  obtain q now where call: "call = (q, now)" by (cases call)
  let ?l = "fst (try_consume l q now)"
  have wf: "limiter_wf ?l" by (rule limiter_wf_try_consume [OF Cons.prems(1)])
  show ?case
  proof (cases "q = p")
    case False
    then show ?thesis using Cons.IH [OF wf] Cons.prems(2,3) by (simp add: call)
  next
    case True
    show ?thesis
    proof (cases rule: try_consume_cases [of l p now])
      case unknown
      then show ?thesis using Cons.IH [OF wf] Cons.prems True by (simp add: call)
    next
      case (bucket b)
      have b: "b = \<lparr>tokens = capacity l, last_refill_ms = now, rejected = 0\<rparr>"
        using bucket(1) Cons.prems(3) by (simp add: refill_bucket_def saturating_sub_def)
      have "count_accepted try_consume ?l p calls \<le> vote_budget ?l p M"
        using Cons.prems(2) True by (intro votes.accepted_le_budget) (auto simp: bucket(2))
      moreover have "vote_budget ?l p M + of_bool (tokens b \<noteq> 0) =
          unat (capacity l) + (unat M - unat now) div unat (refill_interval_ms l)"
        using Suc_unat_minus_one [of "tokens b"] True by (simp add: bucket(2) vote_budget_def b)
      moreover have "(unat M - unat now) div unat (refill_interval_ms l) \<le>
          (unat M - unat t0) div unat (refill_interval_ms l)"
        using Cons.prems(2) by (intro div_le_mono diff_le_mono2) (simp add: call word_le_nat_alt)
      ultimately show ?thesis using True by (simp add: call bucket(2))
    qed
  qed
qed simp

text \<open>
  C18: the rate bound.  Take a limiter in any well-formed state, whatever calls and evictions it
  has seen, and any calls of \<open>try_consume\<close>, of one peer and of others in any order, with clock
  readings between \<open>t0\<close> and \<open>M\<close> that need not rise, and no eviction of stale buckets among them.
  At most the capacity, plus one request per full refill interval between \<open>t0\<close> and \<open>M\<close>, plus one
  gets through for the peer; without the last one when the peer has no bucket at the start.
\<close>

theorem vote_rate_bounded:
  assumes "limiter_wf l" and "\<forall>call \<in> set calls. t0 \<le> snd call \<and> snd call \<le> M"
  shows "count_accepted try_consume l p calls
    \<le> unat (capacity l) + (unat M - unat t0) div unat (refill_interval_ms l) + of_bool (vl_state l p \<noteq> None)"
  using tracked_rate [OF assms, of p] untracked_rate [OF assms, of p] by (cases "vl_state l p") auto

theorem vote_rate_bounded_witness:
  "count_accepted try_consume (fst (try_consume (limiter_new 3 5000) ''a'' 0)) ''a''
     [(''a'', 9999), (''a'', 9999), (''b'', 9999), (''a'', 9999), (''a'', 10000)] \<le> 4"
proof -
  let ?l = "fst (try_consume (limiter_new 3 5000) ''a'' 0)"
  have "limiter_wf ?l" by (intro limiter_wf_try_consume limiter_wf_new)
  from vote_rate_bounded [OF this, of "[(''a'', 9999), (''a'', 9999), (''b'', 9999), (''a'', 9999), (''a'', 10000)]" 9999 10000 "''a''"]
  have "count_accepted try_consume ?l ''a'' [(''a'', 9999), (''a'', 9999), (''b'', 9999), (''a'', 9999), (''a'', 10000)]
      \<le> 3 + of_bool (vl_state ?l ''a'' \<noteq> None)"
    by (simp add: limiter_new_def word_le_nat_alt del: count_accepted.simps)
  then show ?thesis by (cases "vl_state ?l ''a''") simp_all
qed

text \<open>
  eviction hands a drained peer a full bucket.  A bucket with no tokens whose
  next token is still due is refused; but once it is as old as the staleness
  bound, evicting stale buckets and asking again lets the request through, with
  the whole burst available anew.  A staleness bound below the refill interval
  therefore lifts the limit.
\<close>

theorem evict_stale_resets_drained_bucket:
  assumes "vl_state l p = Some b" and "tokens b = 0" and "capacity l \<noteq> 0"
    and "case allowed_peers l of None \<Rightarrow> card (dom (vl_state l)) \<le> MAX_VOTE_RATE_LIMITER_PEERS
         | Some allowed \<Rightarrow> p \<in> allowed"
    and "finite (dom (vl_state l))" and "0 < stale"
    and "stale \<le> saturating_sub now (last_refill_ms b)"
    and "saturating_sub now (last_refill_ms b) < refill_interval_ms l"
  shows "\<not> snd (try_consume l p now) \<and>
    snd (try_consume (fst (evict_stale l now stale)) p now) \<and>
    map_option tokens (vl_state (fst (try_consume (fst (evict_stale l now stale)) p now)) p)
      = Some (capacity l - 1)"
proof -
  let ?l = "fst (evict_stale l now stale)"
  have l: "vl_state ?l p = None" "allowed_peers ?l = allowed_peers l" "capacity ?l = capacity l"
    "dom (vl_state ?l) \<subseteq> dom (vl_state l)" "refill_interval_ms ?l = refill_interval_ms l"
    using assms(1,6,7) by (auto simp: evict_stale_def Let_def map_retain_None dom_def)
  have "dom (vl_state ?l) \<subset> dom (vl_state l)" using l(1,4) assms(1) by auto
  then have less: "card (dom (vl_state ?l)) < card (dom (vl_state l))"
    by (rule psubset_card_mono [OF assms(5)])
  have "saturating_sub now (last_refill_ms b) div refill_interval_ms l = 0"
    using assms(8) by (simp add: word_unat_eq_iff unat_div word_less_nat_alt)
  then have "refill_bucket l b now = b" by (simp add: refill_bucket_def)
  then have "\<not> snd (try_consume l p now)"
    using assms(1,2) by (simp add: try_consume_def)
  moreover have "refill_bucket ?l \<lparr>tokens = capacity l, last_refill_ms = now, rejected = 0\<rparr> now =
      \<lparr>tokens = capacity l, last_refill_ms = now, rejected = 0\<rparr>"
    by (simp add: refill_bucket_def saturating_sub_def)
  ultimately show ?thesis
    using assms(3,4) less l(1-3) by (auto simp: try_consume_def Let_def split: option.splits)
qed

theorem evict_stale_resets_drained_bucket_witness:
  "\<not> snd (try_consume ((limiter_new 3 5000)\<lparr>vl_state := [''a'' \<mapsto>
       \<lparr>tokens = 0, last_refill_ms = 0, rejected = 0\<rparr>]\<rparr>) ''a'' 2000)"
  using evict_stale_resets_drained_bucket [of
      "(limiter_new 3 5000)\<lparr>vl_state := [''a'' \<mapsto> \<lparr>tokens = 0, last_refill_ms = 0, rejected = 0\<rparr>]\<rparr>"
      "''a''" "\<lparr>tokens = 0, last_refill_ms = 0, rejected = 0\<rparr>" 2000 2000]
  by (simp add: limiter_new_def saturating_sub_def MAX_VOTE_RATE_LIMITER_PEERS_def)

text \<open>
  The adaptive configuration.  For every cluster size below \<open>2 ^ 64\<close> the interval
  is \<open>5000\<close> divided by the size, kept between \<open>500\<close> and \<open>5000\<close> milliseconds, and
  the capacity is 3.
\<close>

theorem adaptive_refill_range:
  assumes "n < 2 ^ 64"
  shows "unat (cfg_refill_interval_ms (adaptive_for_cluster_size n)) =
      max 500 (min 5000 (5000 div max n 1)) \<and>
    cfg_capacity (adaptive_for_cluster_size n) = 3"
proof -
  have "unat (word_of_nat (max n 1) :: u64) = max n 1"
    using assms by (simp add: unat_of_nat max_def)
  moreover have "5000 div max n 1 \<le> 5000" by (rule div_le_dividend)
  ultimately show ?thesis
    by (simp add: adaptive_for_cluster_size_def Let_def unat_min max_def word_le_nat_alt unat_div
        split: if_splits)
qed

theorem adaptive_refill_range_witness:
  "unat (cfg_refill_interval_ms (adaptive_for_cluster_size 5)) = 1000"
  using adaptive_refill_range [of 5] by simp

end
