(* ===== verification/State_Machine.thy ===== *)
theory State_Machine
  imports Raft_Types
begin

text \<open>
  The replicated state machine of \<open>craton-hsm-cluster/src/state_machine.rs\<close>: cluster
  voters and key blobs, changed by committed entries in log order.  The lock
  around the state is held for a whole operation, so an operation is one step.
  The interface \<open>replicated_machine\<close> (apply, snapshot, restore) carries the
  catch-up argument: restoring a snapshot and applying the rest of the log gives
  the state of a replica that applied everything.
\<close>

section \<open>State and operations\<close>

record StateMachineSnapshot =
  ss_last_applied :: u64
  ss_voters :: "string list"
  ss_keys :: "string \<rightharpoonup> bytes"

datatype ApplyOutcome =
    NoopApplied
  | KeyInstalled string nat
  | NodeAdded string
  | NodeRemoved string

datatype ApplyError = OutOfOrder u64 u64

record ClusterStateMachine =
  sm_last_applied :: u64
  sm_voters :: "string set"
  sm_keys :: "string \<rightharpoonup> bytes"

definition sm_new :: "string list \<Rightarrow> ClusterStateMachine" where
  "sm_new initial_voters =
     \<lparr>sm_last_applied = 0, sm_voters = set initial_voters, sm_keys = Map.empty\<rparr>"

definition voters_list :: "ClusterStateMachine \<Rightarrow> string list" where
  "voters_list sm = sorted_list_of_set (sm_voters sm)"

definition contains_key :: "ClusterStateMachine \<Rightarrow> string \<Rightarrow> bool" where
  "contains_key sm key_id = (sm_keys sm key_id \<noteq> None)"

definition key_count :: "ClusterStateMachine \<Rightarrow> nat" where
  "key_count sm = card (dom (sm_keys sm))"

definition get_key :: "ClusterStateMachine \<Rightarrow> string \<Rightarrow> bytes option" where
  "get_key sm key_id = sm_keys sm key_id"

definition sm_apply ::
  "ClusterStateMachine \<Rightarrow> LogEntry \<Rightarrow> ClusterStateMachine \<times> (ApplyError + ApplyOutcome)" where
  "sm_apply sm entry =
     (let expected = sm_last_applied sm + 1 in
      if le_index entry \<noteq> expected then (sm, Inl (OutOfOrder expected (le_index entry)))
      else case le_command entry of
        Noop \<Rightarrow> (sm\<lparr>sm_last_applied := le_index entry\<rparr>, Inr NoopApplied)
      | KeySync key_id data \<Rightarrow>
          (sm\<lparr>sm_keys := (sm_keys sm)(key_id \<mapsto> data), sm_last_applied := le_index entry\<rparr>,
           Inr (KeyInstalled key_id (length data)))
      | ConfigChange node_id action \<Rightarrow>
          (case action of
             RemoveNode \<Rightarrow>
               (sm\<lparr>sm_voters := sm_voters sm - {node_id}, sm_last_applied := le_index entry\<rparr>,
                Inr (NodeRemoved node_id))
           | _ \<Rightarrow>
               (sm\<lparr>sm_voters := insert node_id (sm_voters sm), sm_last_applied := le_index entry\<rparr>,
                Inr (NodeAdded node_id))))"

fun apply_batch ::
  "ClusterStateMachine \<Rightarrow> LogEntry list \<Rightarrow> ClusterStateMachine \<times> (ApplyError + nat)" where
  "apply_batch sm [] = (sm, Inr 0)"
| "apply_batch sm (e # es) =
     (case sm_apply sm e of
        (sm', Inl err) \<Rightarrow> (sm', Inl err)
      | (sm', Inr _) \<Rightarrow>
          (case apply_batch sm' es of
             (sm'', Inr n) \<Rightarrow> (sm'', Inr (Suc n))
           | (sm'', Inl err) \<Rightarrow> (sm'', Inl err)))"

definition sm_snapshot :: "ClusterStateMachine \<Rightarrow> StateMachineSnapshot" where
  "sm_snapshot sm =
     \<lparr>ss_last_applied = sm_last_applied sm, ss_voters = voters_list sm, ss_keys = sm_keys sm\<rparr>"

definition restore_from_snapshot ::
  "ClusterStateMachine \<Rightarrow> StateMachineSnapshot \<Rightarrow> ClusterStateMachine" where
  "restore_from_snapshot sm snap =
     sm\<lparr>sm_last_applied := ss_last_applied snap, sm_voters := set (ss_voters snap),
        sm_keys := ss_keys snap\<rparr>"

section \<open>One entry\<close>

text \<open>The effect of a command, apart from the order check.\<close>

fun command_effect :: "RaftCommand \<Rightarrow> ClusterStateMachine \<Rightarrow> ClusterStateMachine" where
  "command_effect Noop sm = sm"
| "command_effect (KeySync k d) sm = sm\<lparr>sm_keys := (sm_keys sm)(k \<mapsto> d)\<rparr>"
| "command_effect (ConfigChange n RemoveNode) sm = sm\<lparr>sm_voters := sm_voters sm - {n}\<rparr>"
| "command_effect (ConfigChange n _) sm = sm\<lparr>sm_voters := insert n (sm_voters sm)\<rparr>"

lemma sm_apply_in_order:
  "le_index e = sm_last_applied sm + 1 \<Longrightarrow>
     fst (sm_apply sm e) = (command_effect (le_command e) sm)\<lparr>sm_last_applied := le_index e\<rparr> \<and>
     (\<exists>out. snd (sm_apply sm e) = Inr out)"
  by (cases "le_command e") (auto simp: sm_apply_def Let_def split: MembershipAction.splits)

lemma sm_apply_out_of_order:
  "le_index e \<noteq> sm_last_applied sm + 1 \<Longrightarrow>
     sm_apply sm e = (sm, Inl (OutOfOrder (sm_last_applied sm + 1) (le_index e)))"
  by (simp add: sm_apply_def)

lemma finite_voters_apply [simp]:
  "finite (sm_voters (fst (sm_apply sm e))) = finite (sm_voters sm)"
  by (cases "le_command e") (auto simp: sm_apply_def Let_def split: MembershipAction.splits)

lemma command_effect_last_applied [simp]:
  "sm_last_applied (command_effect c sm) = sm_last_applied sm"
  by (induction c sm rule: command_effect.induct) auto

section \<open>Many entries\<close>

text \<open>Entries that carry on where a position ends, without wrapping.\<close>

fun follows :: "u64 \<Rightarrow> LogEntry list \<Rightarrow> bool" where
  "follows i [] = True"
| "follows i (e # es) = (i \<noteq> u64_max \<and> le_index e = i + 1 \<and> follows (i + 1) es)"

definition run_entries :: "ClusterStateMachine \<Rightarrow> LogEntry list \<Rightarrow> ClusterStateMachine" where
  "run_entries sm es = fst (apply_batch sm es)"

lemma apply_batch_follows:
  "follows (sm_last_applied sm) es \<Longrightarrow> snd (apply_batch sm es) = Inr (length es)"
proof (induction es arbitrary: sm)
  case (Cons e es)
  then have step: "fst (sm_apply sm e) = (command_effect (le_command e) sm)\<lparr>sm_last_applied := le_index e\<rparr>"
    and ok: "\<exists>out. snd (sm_apply sm e) = Inr out"
    using sm_apply_in_order by auto
  have "snd (apply_batch (fst (sm_apply sm e)) es) = Inr (length es)"
    using Cons by (simp add: step)
  with ok show ?case by (auto split: prod.splits sum.splits)
qed simp

lemma run_entries_Nil [simp]: "run_entries sm [] = sm"
  by (simp add: run_entries_def)

lemma run_entries_Cons:
  "le_index e = sm_last_applied sm + 1 \<Longrightarrow>
     run_entries sm (e # es) =
       run_entries ((command_effect (le_command e) sm)\<lparr>sm_last_applied := le_index e\<rparr>) es"
  using sm_apply_in_order [of e sm]
  by (cases "sm_apply sm e") (auto simp: run_entries_def split: prod.splits sum.splits)

lemma run_entries_append:
  "follows (sm_last_applied sm) xs \<Longrightarrow>
     run_entries sm (xs @ ys) = run_entries (run_entries sm xs) ys"
  by (induction xs arbitrary: sm) (auto simp: run_entries_Cons)

lemma follows_append:
  "follows i (xs @ ys) \<longleftrightarrow> follows i xs \<and> follows (if xs = [] then i else le_index (last xs)) ys"
  by (induction xs arbitrary: i) auto

lemma run_entries_last_applied:
  "follows (sm_last_applied sm) es \<Longrightarrow>
     sm_last_applied (run_entries sm es) = (if es = [] then sm_last_applied sm else le_index (last es))"
proof (induction es arbitrary: sm)
  case (Cons e es)
  then show ?case by (cases "es = []") (simp_all add: run_entries_Cons)
qed simp

lemma finite_voters_command [simp]:
  "finite (sm_voters (command_effect c sm)) = finite (sm_voters sm)"
  by (induction c sm rule: command_effect.induct) auto

lemma finite_voters_run [simp]:
  "finite (sm_voters (run_entries sm es)) = finite (sm_voters sm)"
proof (induction es arbitrary: sm)
  case (Cons e es)
  show ?case
  proof (cases "le_index e = sm_last_applied sm + 1")
    case True
    then show ?thesis using Cons by (simp add: run_entries_Cons)
  next
    case False
    then show ?thesis by (simp add: run_entries_def sm_apply_out_of_order)
  qed
qed simp

text \<open>What a sequence of entries does to a key and to a node: the last one decides.\<close>

fun key_after :: "string \<Rightarrow> LogEntry list \<Rightarrow> bytes option \<Rightarrow> bytes option" where
  "key_after k [] d = d"
| "key_after k (e # es) d =
     key_after k es (case le_command e of KeySync k' d' \<Rightarrow> if k' = k then Some d' else d | _ \<Rightarrow> d)"

fun voter_after :: "string \<Rightarrow> LogEntry list \<Rightarrow> bool \<Rightarrow> bool" where
  "voter_after n [] b = b"
| "voter_after n (e # es) b =
     voter_after n es (case le_command e of
         ConfigChange n' a \<Rightarrow> if n' = n then a \<noteq> RemoveNode else b | _ \<Rightarrow> b)"

lemma run_entries_key:
  "follows (sm_last_applied sm) es \<Longrightarrow>
     get_key (run_entries sm es) k = key_after k es (get_key sm k)"
proof (induction es arbitrary: sm)
  case (Cons e es)
  let ?sm = "(command_effect (le_command e) sm)\<lparr>sm_last_applied := le_index e\<rparr>"
  have "get_key ?sm k =
      (case le_command e of KeySync k' d' \<Rightarrow> if k' = k then Some d' else get_key sm k | _ \<Rightarrow> get_key sm k)"
    by (cases "(le_command e, sm)" rule: command_effect.cases) (auto simp: get_key_def)
  then show ?case using Cons by (simp add: run_entries_Cons)
qed simp

lemma run_entries_voter:
  "follows (sm_last_applied sm) es \<Longrightarrow>
     n \<in> sm_voters (run_entries sm es) \<longleftrightarrow> voter_after n es (n \<in> sm_voters sm)"
proof (induction es arbitrary: sm)
  case (Cons e es)
  let ?sm = "(command_effect (le_command e) sm)\<lparr>sm_last_applied := le_index e\<rparr>"
  have "n \<in> sm_voters ?sm \<longleftrightarrow>
      (case le_command e of ConfigChange n' a \<Rightarrow> if n' = n then a \<noteq> RemoveNode else n \<in> sm_voters sm
       | _ \<Rightarrow> n \<in> sm_voters sm)"
    by (cases "(le_command e, sm)" rule: command_effect.cases) auto
  then show ?case using Cons by (simp add: run_entries_Cons)
qed simp

section \<open>Snapshots\<close>

text \<open>
  A replicated machine with snapshots: restoring a snapshot brings back the state
  it was taken from, whatever state the machine was in.
\<close>

locale replicated_machine =
  fixes step :: "'m \<Rightarrow> 'e \<Rightarrow> 'm"
    and snap :: "'m \<Rightarrow> 's"
    and restore :: "'m \<Rightarrow> 's \<Rightarrow> 'm"
    and ok :: "'m \<Rightarrow> bool"
  assumes restore_snap: "ok m \<Longrightarrow> restore m' (snap m) = m"
    and step_ok: "ok m \<Longrightarrow> ok (step m e)"
begin

lemma fold_ok: "ok m \<Longrightarrow> ok (fold (\<lambda>e m. step m e) es m)"
  by (induction es arbitrary: m) (auto simp: step_ok)

lemma catch_up:
  "ok m \<Longrightarrow> fold (\<lambda>e m. step m e) ys (restore m' (snap (fold (\<lambda>e m. step m e) xs m)))
     = fold (\<lambda>e m. step m e) (xs @ ys) m"
  by (simp add: restore_snap fold_ok)

end

lemma restore_snapshot_id:
  "finite (sm_voters sm) \<Longrightarrow> restore_from_snapshot sm' (sm_snapshot sm) = sm"
  by (simp add: restore_from_snapshot_def sm_snapshot_def voters_list_def)

interpretation csm: replicated_machine "\<lambda>sm e. fst (sm_apply sm e)" sm_snapshot restore_from_snapshot
  "\<lambda>sm. finite (sm_voters sm)"
  by unfold_locales (simp_all add: restore_snapshot_id)

lemma run_entries_fold:
  "follows (sm_last_applied sm) es \<Longrightarrow> run_entries sm es = fold (\<lambda>e sm. fst (sm_apply sm e)) es sm"
  by (induction es arbitrary: sm) (auto simp: run_entries_Cons sm_apply_in_order)

section \<open>Properties\<close>

text \<open>
  C11: the state is the log.  Applying entries that continue the machine's position
  succeeds for each of them; afterwards every key holds the bytes of the last entry
  that set it (or its former value), a node is a voter exactly if the last
  membership entry about it adds it (or it was one before), and the position is
  that of the last entry.
\<close>

theorem state_machine_reflects_log:
  assumes "follows (sm_last_applied sm) es"
  shows "snd (apply_batch sm es) = Inr (length es) \<and>
    get_key (fst (apply_batch sm es)) k = key_after k es (get_key sm k) \<and>
    (n \<in> sm_voters (fst (apply_batch sm es)) \<longleftrightarrow> voter_after n es (n \<in> sm_voters sm)) \<and>
    sm_last_applied (fst (apply_batch sm es)) =
      (if es = [] then sm_last_applied sm else le_index (last es))"
  using assms apply_batch_follows run_entries_key run_entries_voter run_entries_last_applied
  unfolding run_entries_def by blast

theorem state_machine_reflects_log_witness:
  "snd (apply_batch (sm_new [''n1'']) [\<lparr>le_term = 1, le_index = 1, le_command = KeySync ''k'' [1]\<rparr>,
      \<lparr>le_term = 1, le_index = 2, le_command = ConfigChange ''n2'' AddNode\<rparr>]) = Inr 2"
  using state_machine_reflects_log [of "sm_new [''n1'']"
      "[\<lparr>le_term = 1, le_index = 1, le_command = KeySync ''k'' [1]\<rparr>,
        \<lparr>le_term = 1, le_index = 2, le_command = ConfigChange ''n2'' AddNode\<rparr>]"]
  by (simp add: sm_new_def)

text \<open>
  C12: catching up from a snapshot.  A replica in any state that restores a snapshot
  taken after the entries \<open>xs\<close> and then applies \<open>ys\<close> reaches the state of the
  replica that applied \<open>xs\<close> and \<open>ys\<close> from the start.
\<close>

theorem snapshot_catch_up:
  assumes "follows 0 (xs @ ys)"
  shows "fst (apply_batch
      (restore_from_snapshot other (sm_snapshot (fst (apply_batch (sm_new vs) xs)))) ys)
    = fst (apply_batch (sm_new vs) (xs @ ys))"
proof -
  from assms have xs: "follows (sm_last_applied (sm_new vs)) xs"
    by (simp add: follows_append sm_new_def)
  have "finite (sm_voters (run_entries (sm_new vs) xs))" by (simp add: sm_new_def)
  then show ?thesis
    using run_entries_append [OF xs, of ys]
    by (simp add: run_entries_def restore_snapshot_id)
qed

theorem snapshot_catch_up_witness:
  "fst (apply_batch (restore_from_snapshot (sm_new []) (sm_snapshot
      (fst (apply_batch (sm_new [''a''])
        [\<lparr>le_term = 1, le_index = 1, le_command = KeySync ''k'' [1]\<rparr>]))))
      [\<lparr>le_term = 1, le_index = 2, le_command = Noop\<rparr>])
   = fst (apply_batch (sm_new [''a''])
        [\<lparr>le_term = 1, le_index = 1, le_command = KeySync ''k'' [1]\<rparr>,
         \<lparr>le_term = 1, le_index = 2, le_command = Noop\<rparr>])"
  using snapshot_catch_up [of "[\<lparr>le_term = 1, le_index = 1, le_command = KeySync ''k'' [1]\<rparr>]"
      "[\<lparr>le_term = 1, le_index = 2, le_command = Noop\<rparr>]" "sm_new []" "[''a'']"]
  by simp

end
