(* ===== verification/Raft_Storage.thy ===== *)
theory Raft_Storage
  imports Raft_Types
begin

text \<open>
  The storage interface of \<open>craton-hsm-cluster/src/storage.rs\<close>.  The trait
  \<open>RaftStorage\<close> is a record of operations over a type of storage states, the model
  of a trait object; the locale \<open>raft_storage\<close> states its documented contract, and
  \<open>durable_storage\<close> adds that no operation fails.  \<open>InMemoryStorage\<close> is an instance
  of both.
\<close>

section \<open>The storage trait\<close>

record HardState =
  hs_current_term :: Term
  hs_voted_for :: "string option"

definition hard_state_default :: HardState where
  "hard_state_default = \<lparr>hs_current_term = 0, hs_voted_for = None\<rparr>"

record PersistedSnapshot =
  ps_last_index :: u64
  ps_last_term :: Term
  ps_voters :: "string list"
  ps_data :: bytes

text \<open>The error constructors, without their messages.\<close>

datatype StorageError = Io | Codec | SnapshotIntegrityFailure

record 's RaftStorage =
  load_hard_state :: "'s \<Rightarrow> StorageError + HardState"
  save_hard_state :: "'s \<Rightarrow> HardState \<Rightarrow> 's \<times> StorageError option"
  load_log :: "'s \<Rightarrow> StorageError + LogEntry list"
  append_log :: "'s \<Rightarrow> LogEntry list \<Rightarrow> 's \<times> StorageError option"
  truncate_log_after :: "'s \<Rightarrow> u64 \<Rightarrow> 's \<times> StorageError option"
  save_snapshot :: "'s \<Rightarrow> PersistedSnapshot \<Rightarrow> 's \<times> StorageError option"
  load_snapshot :: "'s \<Rightarrow> StorageError + PersistedSnapshot option"
  sync_all_committed_state :: "'s \<Rightarrow> 's \<times> StorageError option"

section \<open>In-memory storage\<close>

record InMemoryStorage =
  im_hard :: HardState
  im_log :: "LogEntry list"
  im_snapshot :: "PersistedSnapshot option"

definition in_memory_new :: InMemoryStorage where
  "in_memory_new = \<lparr>im_hard = hard_state_default, im_log = [], im_snapshot = None\<rparr>"

definition in_memory_save_hard_state where
  "in_memory_save_hard_state s h = (s\<lparr>im_hard := h\<rparr> :: InMemoryStorage, None :: StorageError option)"

definition in_memory_append_log where
  "in_memory_append_log s es = (s\<lparr>im_log := im_log s @ es\<rparr> :: InMemoryStorage, None :: StorageError option)"

definition in_memory_truncate_log_after where
  "in_memory_truncate_log_after s after =
     (s\<lparr>im_log := filter (\<lambda>e. le_index e \<le> after) (im_log s)\<rparr> :: InMemoryStorage,
      None :: StorageError option)"

definition in_memory_save_snapshot where
  "in_memory_save_snapshot s snap =
     (s\<lparr>im_snapshot := Some snap\<rparr> :: InMemoryStorage, None :: StorageError option)"

definition in_memory :: "InMemoryStorage RaftStorage" where
  "in_memory =
     \<lparr>load_hard_state = (\<lambda>s. Inr (im_hard s)),
      save_hard_state = in_memory_save_hard_state,
      load_log = (\<lambda>s. Inr (im_log s)),
      append_log = in_memory_append_log,
      truncate_log_after = in_memory_truncate_log_after,
      save_snapshot = in_memory_save_snapshot,
      load_snapshot = (\<lambda>s. Inr (im_snapshot s)),
      sync_all_committed_state = (\<lambda>s. (s, None))\<rparr>"

section \<open>The contract\<close>

text \<open>
  What a storage holds is seen through three views.  A successful write has its
  documented effect on one view and none on the others; a read that succeeds
  returns the view.
\<close>

locale raft_storage =
  fixes ops :: "'s RaftStorage"
    and hard :: "'s \<Rightarrow> HardState"
    and plog :: "'s \<Rightarrow> LogEntry list"
    and psnap :: "'s \<Rightarrow> PersistedSnapshot option"
  assumes load_hard: "load_hard_state ops s = Inr h \<Longrightarrow> h = hard s"
    and load_log: "load_log ops s = Inr es \<Longrightarrow> es = plog s"
    and load_snap: "load_snapshot ops s = Inr sn \<Longrightarrow> sn = psnap s"
    and save_hard: "save_hard_state ops s h = (s', None) \<Longrightarrow>
      hard s' = h \<and> plog s' = plog s \<and> psnap s' = psnap s"
    and append: "append_log ops s es = (s', None) \<Longrightarrow>
      hard s' = hard s \<and> plog s' = plog s @ es \<and> psnap s' = psnap s"
    and truncate: "truncate_log_after ops s a = (s', None) \<Longrightarrow>
      hard s' = hard s \<and> plog s' = filter (\<lambda>e. le_index e \<le> a) (plog s) \<and> psnap s' = psnap s"
    and save_snap: "save_snapshot ops s p = (s', None) \<Longrightarrow>
      hard s' = hard s \<and> plog s' = plog s \<and> psnap s' = Some p"
    and sync: "sync_all_committed_state ops s = (s', None) \<Longrightarrow>
      hard s' = hard s \<and> plog s' = plog s \<and> psnap s' = psnap s"
begin

lemma hard_round_trip:
  "save_hard_state ops s h = (s', None) \<Longrightarrow> load_hard_state ops s' = Inr h' \<Longrightarrow> h' = h"
  using save_hard load_hard by blast

lemma append_then_truncate:
  assumes "append_log ops s es = (s', None)" "truncate_log_after ops s' a = (s'', None)"
    and "load_log ops s'' = Inr got"
  shows "got = filter (\<lambda>e. le_index e \<le> a) (plog s) @ filter (\<lambda>e. le_index e \<le> a) es"
  using assms append truncate load_log by fastforce

end

locale durable_storage = raft_storage +
  assumes never_fails:
    "snd (save_hard_state ops s h) = None" "snd (append_log ops s es) = None"
    "snd (truncate_log_after ops s a) = None" "snd (save_snapshot ops s p) = None"
    "snd (sync_all_committed_state ops s) = None"
    "\<exists>h. load_hard_state ops s = Inr h" "\<exists>es. load_log ops s = Inr es"
    "\<exists>sn. load_snapshot ops s = Inr sn"
begin

lemma hard_views:
  "hard (fst (save_hard_state ops s h)) = h"
  "hard (fst (append_log ops s es)) = hard s"
  "hard (fst (truncate_log_after ops s a)) = hard s"
  "hard (fst (save_snapshot ops s p)) = hard s"
  "hard (fst (sync_all_committed_state ops s)) = hard s"
  using never_fails
  by (metis prod.collapse save_hard append truncate save_snap sync)+

lemma load_hard_value: "load_hard_state ops s = Inr (hard s)"
  using never_fails(6) [of s] load_hard by auto

lemma plog_views:
  "plog (fst (save_hard_state ops s h)) = plog s"
  "plog (fst (append_log ops s es)) = plog s @ es"
  "plog (fst (truncate_log_after ops s a)) = filter (\<lambda>e. le_index e \<le> a) (plog s)"
  "plog (fst (save_snapshot ops s p)) = plog s"
  "plog (fst (sync_all_committed_state ops s)) = plog s"
  using never_fails
  by (metis prod.collapse save_hard append truncate save_snap sync)+

lemma load_log_value: "load_log ops s = Inr (plog s)"
  using never_fails(7) [of s] load_log by auto

end

lemmas in_memory_defs = in_memory_def in_memory_save_hard_state_def in_memory_append_log_def
  in_memory_truncate_log_after_def in_memory_save_snapshot_def

interpretation mem: durable_storage in_memory im_hard im_log im_snapshot
  by unfold_locales (auto simp: in_memory_defs)

end
