(* ===== verification/Raft_Messages.thy ===== *)
theory Raft_Messages
  imports Raft_Types
begin

text \<open>
  The RPC messages of \<open>craton-hsm-cluster/src/raft.rs\<close> and the byte strings their
  authentication tags are computed over.  HMAC-SHA256 itself is outside the
  sources: the functions that finalise a tag take it as the parameter \<open>H\<close>, from a
  key and a byte string to a tag.  What is shown is about the byte strings: the
  domain tags separate the message kinds, and within a kind the string determines
  every field it is meant to cover.
\<close>

section \<open>Messages\<close>

record RequestVoteArgs =
  rv_term :: Term
  rv_candidate_id :: string
  rv_last_log_index :: u64
  rv_last_log_term :: Term
  rv_timestamp_ms :: u64
  rv_hmac :: "bytes option"

record RequestVoteReply =
  rvr_term :: Term
  rvr_vote_granted :: bool
  rvr_timestamp_ms :: u64
  rvr_hmac :: "bytes option"

record AppendEntriesArgs =
  ae_term :: Term
  ae_leader_id :: string
  ae_prev_log_index :: u64
  ae_prev_log_term :: Term
  ae_entries :: "LogEntry list"
  ae_leader_commit :: u64
  ae_timestamp_ms :: u64
  ae_hmac :: "bytes option"

record AppendEntriesReply =
  aer_term :: Term
  aer_success :: bool
  aer_timestamp_ms :: u64
  aer_hmac :: "bytes option"

record InstallSnapshotArgs =
  is_term :: Term
  is_leader_id :: string
  is_last_included_index :: u64
  is_last_included_term :: Term
  is_data :: bytes
  is_timestamp_ms :: u64
  is_hmac :: "bytes option"
  is_offset :: u64
  is_total_size :: u64
  is_last_chunk :: bool

record InstallSnapshotReply =
  isr_term :: Term
  isr_timestamp_ms :: u64
  isr_hmac :: "bytes option"

record PreVoteArgs =
  pv_term :: Term
  pv_candidate_id :: string
  pv_last_log_index :: u64
  pv_last_log_term :: Term
  pv_timestamp_ms :: u64
  pv_hmac :: "bytes option"

record PreVoteReply =
  pvr_term :: Term
  pvr_vote_granted :: bool
  pvr_timestamp_ms :: u64
  pvr_hmac :: "bytes option"

record ConfigChangeProposal =
  cp_proposal_id :: string
  cp_node_id :: string
  cp_action :: MembershipAction
  cp_timestamp_ms :: u64

record ConfigChangeApproval =
  ca_proposal_id :: string
  ca_approver_id :: string
  ca_timestamp_ms :: u64
  ca_hmac :: bytes

section \<open>What the tags are computed over\<close>

definition DOMAIN_REQUEST_VOTE :: u8 where "DOMAIN_REQUEST_VOTE = 0x01"
definition DOMAIN_APPEND_ENTRIES :: u8 where "DOMAIN_APPEND_ENTRIES = 0x02"
definition DOMAIN_INSTALL_SNAPSHOT :: u8 where "DOMAIN_INSTALL_SNAPSHOT = 0x03"
definition DOMAIN_CONFIG_CHANGE_APPROVAL :: u8 where "DOMAIN_CONFIG_CHANGE_APPROVAL = 0x04"
definition DOMAIN_PRE_VOTE :: u8 where "DOMAIN_PRE_VOTE = 0x05"
definition DOMAIN_REPLY_LEGACY :: u8 where "DOMAIN_REPLY_LEGACY = 0x06"
definition DOMAIN_REPLY_REQUEST_VOTE :: u8 where "DOMAIN_REPLY_REQUEST_VOTE = 0x10"
definition DOMAIN_REPLY_APPEND_ENTRIES :: u8 where "DOMAIN_REPLY_APPEND_ENTRIES = 0x11"
definition DOMAIN_REPLY_INSTALL_SNAPSHOT :: u8 where "DOMAIN_REPLY_INSTALL_SNAPSHOT = 0x12"
definition DOMAIN_REPLY_PRE_VOTE :: u8 where "DOMAIN_REPLY_PRE_VOTE = 0x13"

lemmas domain_defs = DOMAIN_REQUEST_VOTE_def DOMAIN_APPEND_ENTRIES_def DOMAIN_INSTALL_SNAPSHOT_def
  DOMAIN_CONFIG_CHANGE_APPROVAL_def DOMAIN_PRE_VOTE_def DOMAIN_REPLY_LEGACY_def
  DOMAIN_REPLY_REQUEST_VOTE_def DOMAIN_REPLY_APPEND_ENTRIES_def
  DOMAIN_REPLY_INSTALL_SNAPSHOT_def DOMAIN_REPLY_PRE_VOTE_def

text \<open>\<open>u8::from\<close> of a truth value.\<close>

definition u8_of_bool :: "bool \<Rightarrow> u8" where
  "u8_of_bool b = (if b then 1 else 0)"

definition request_vote_mac :: "RequestVoteArgs \<Rightarrow> mac_stream" where
  "request_vote_mac args =
     (let mac = mac_update [] [DOMAIN_REQUEST_VOTE];
          mac = mac_update mac (u64_be (rv_term args));
          mac = push_lp_to_mac mac (as_bytes (rv_candidate_id args));
          mac = mac_update mac (u64_be (rv_last_log_index args));
          mac = mac_update mac (u64_be (rv_last_log_term args))
      in mac_update mac (u64_be (rv_timestamp_ms args)))"

definition pre_vote_mac :: "PreVoteArgs \<Rightarrow> mac_stream" where
  "pre_vote_mac args =
     (let mac = mac_update [] [DOMAIN_PRE_VOTE];
          mac = mac_update mac (u64_be (pv_term args));
          mac = push_lp_to_mac mac (as_bytes (pv_candidate_id args));
          mac = mac_update mac (u64_be (pv_last_log_index args));
          mac = mac_update mac (u64_be (pv_last_log_term args))
      in mac_update mac (u64_be (pv_timestamp_ms args)))"

definition entry_into_mac :: "LogEntry \<Rightarrow> mac_stream \<Rightarrow> mac_stream" where
  "entry_into_mac entry mac =
     (let mac = mac_update mac (u64_be (le_index entry));
          mac = mac_update mac (u64_be (le_term entry));
          mac = mac_update mac (len_u32_be (canonical_byte_len (le_command entry)))
      in canonical_into_mac (le_command entry) mac)"

definition append_entries_mac_shared ::
  "Term \<Rightarrow> string \<Rightarrow> u64 \<Rightarrow> Term \<Rightarrow> LogEntry list \<Rightarrow> u64 \<Rightarrow> u64 \<Rightarrow> mac_stream" where
  "append_entries_mac_shared trm leader_id prev_log_index prev_log_term es leader_commit timestamp_ms =
     (let mac = mac_update [] [DOMAIN_APPEND_ENTRIES];
          mac = mac_update mac (u64_be trm);
          mac = push_lp_to_mac mac (as_bytes leader_id);
          mac = mac_update mac (u64_be prev_log_index);
          mac = mac_update mac (u64_be prev_log_term);
          mac = mac_update mac (u64_be leader_commit);
          mac = mac_update mac (u64_be timestamp_ms);
          mac = mac_update mac (len_u32_be (length es))
      in fold entry_into_mac es mac)"

definition install_snapshot_mac :: "InstallSnapshotArgs \<Rightarrow> mac_stream" where
  "install_snapshot_mac args =
     (let mac = mac_update [] [DOMAIN_INSTALL_SNAPSHOT];
          mac = mac_update mac (u64_be (is_term args));
          mac = push_lp_to_mac mac (as_bytes (is_leader_id args));
          mac = mac_update mac (u64_be (is_last_included_index args));
          mac = mac_update mac (u64_be (is_last_included_term args));
          mac = mac_update mac (u64_be (is_timestamp_ms args))
      in push_lp_to_mac mac (is_data args))"

fun approval_action_byte :: "MembershipAction \<Rightarrow> u8" where
  "approval_action_byte AddNode = 0x01"
| "approval_action_byte RemoveNode = 0x02"
| "approval_action_byte AddLearner = 0x03"
| "approval_action_byte PromoteLearner = 0x04"

definition config_change_approval_mac ::
  "string \<Rightarrow> string \<Rightarrow> MembershipAction \<Rightarrow> string \<Rightarrow> u64 \<Rightarrow> mac_stream" where
  "config_change_approval_mac proposal_id node_id action approver_id timestamp_ms =
     (let mac = mac_update [] [DOMAIN_CONFIG_CHANGE_APPROVAL];
          mac = push_lp_to_mac mac (as_bytes proposal_id);
          mac = push_lp_to_mac mac (as_bytes node_id);
          mac = mac_update mac [approval_action_byte action];
          mac = push_lp_to_mac mac (as_bytes approver_id)
      in mac_update mac (u64_be timestamp_ms))"

text \<open>The three bodies of reply tags; the prefix is the new tag or the legacy pair.\<close>

definition flagged_reply_mac :: "bytes \<Rightarrow> Term \<Rightarrow> bool \<Rightarrow> u64 \<Rightarrow> mac_stream" where
  "flagged_reply_mac prefix trm flag timestamp_ms =
     (let mac = mac_update [] prefix;
          mac = mac_update mac (u64_be trm);
          mac = mac_update mac [u8_of_bool flag]
      in mac_update mac (u64_be timestamp_ms))"

definition plain_reply_mac :: "bytes \<Rightarrow> Term \<Rightarrow> u64 \<Rightarrow> mac_stream" where
  "plain_reply_mac prefix trm timestamp_ms =
     (let mac = mac_update [] prefix;
          mac = mac_update mac (u64_be trm)
      in mac_update mac (u64_be timestamp_ms))"

section \<open>Tags\<close>

type_synonym hmac_fun = "bytes \<Rightarrow> bytes \<Rightarrow> bytes"

definition finalize_mac :: "hmac_fun \<Rightarrow> bytes \<Rightarrow> mac_stream \<Rightarrow> bytes" where
  "finalize_mac H secret mac = H secret mac"

definition compute_request_vote_hmac :: "hmac_fun \<Rightarrow> bytes \<Rightarrow> RequestVoteArgs \<Rightarrow> bytes" where
  "compute_request_vote_hmac H secret args = finalize_mac H secret (request_vote_mac args)"

definition compute_pre_vote_hmac :: "hmac_fun \<Rightarrow> bytes \<Rightarrow> PreVoteArgs \<Rightarrow> bytes" where
  "compute_pre_vote_hmac H secret args = finalize_mac H secret (pre_vote_mac args)"

definition compute_append_entries_hmac_shared ::
  "hmac_fun \<Rightarrow> bytes \<Rightarrow> Term \<Rightarrow> string \<Rightarrow> u64 \<Rightarrow> Term \<Rightarrow> LogEntry list \<Rightarrow> u64 \<Rightarrow> u64 \<Rightarrow> bytes" where
  "compute_append_entries_hmac_shared H secret trm leader_id pidx pterm es commit ts =
     finalize_mac H secret (append_entries_mac_shared trm leader_id pidx pterm es commit ts)"

definition append_entries_mac :: "AppendEntriesArgs \<Rightarrow> mac_stream" where
  "append_entries_mac args =
     append_entries_mac_shared (ae_term args) (ae_leader_id args) (ae_prev_log_index args)
       (ae_prev_log_term args) (ae_entries args) (ae_leader_commit args) (ae_timestamp_ms args)"

definition compute_append_entries_hmac :: "hmac_fun \<Rightarrow> bytes \<Rightarrow> AppendEntriesArgs \<Rightarrow> bytes" where
  "compute_append_entries_hmac H secret args =
     compute_append_entries_hmac_shared H secret (ae_term args) (ae_leader_id args)
       (ae_prev_log_index args) (ae_prev_log_term args) (ae_entries args)
       (ae_leader_commit args) (ae_timestamp_ms args)"

definition compute_install_snapshot_hmac :: "hmac_fun \<Rightarrow> bytes \<Rightarrow> InstallSnapshotArgs \<Rightarrow> bytes" where
  "compute_install_snapshot_hmac H secret args = finalize_mac H secret (install_snapshot_mac args)"

definition compute_config_change_approval_hmac ::
  "hmac_fun \<Rightarrow> bytes \<Rightarrow> string \<Rightarrow> string \<Rightarrow> MembershipAction \<Rightarrow> string \<Rightarrow> u64 \<Rightarrow> bytes" where
  "compute_config_change_approval_hmac H secret proposal_id node_id action approver_id ts =
     finalize_mac H secret (config_change_approval_mac proposal_id node_id action approver_id ts)"

definition compute_request_vote_reply_hmac :: "hmac_fun \<Rightarrow> bytes \<Rightarrow> RequestVoteReply \<Rightarrow> bytes" where
  "compute_request_vote_reply_hmac H secret reply =
     finalize_mac H secret (flagged_reply_mac [DOMAIN_REPLY_REQUEST_VOTE] (rvr_term reply)
       (rvr_vote_granted reply) (rvr_timestamp_ms reply))"

definition compute_request_vote_reply_hmac_legacy :: "hmac_fun \<Rightarrow> bytes \<Rightarrow> RequestVoteReply \<Rightarrow> bytes" where
  "compute_request_vote_reply_hmac_legacy H secret reply =
     finalize_mac H secret (flagged_reply_mac [DOMAIN_REPLY_LEGACY, 0x01] (rvr_term reply)
       (rvr_vote_granted reply) (rvr_timestamp_ms reply))"

definition compute_pre_vote_reply_hmac :: "hmac_fun \<Rightarrow> bytes \<Rightarrow> PreVoteReply \<Rightarrow> bytes" where
  "compute_pre_vote_reply_hmac H secret reply =
     finalize_mac H secret (flagged_reply_mac [DOMAIN_REPLY_PRE_VOTE] (pvr_term reply)
       (pvr_vote_granted reply) (pvr_timestamp_ms reply))"

definition compute_pre_vote_reply_hmac_legacy :: "hmac_fun \<Rightarrow> bytes \<Rightarrow> PreVoteReply \<Rightarrow> bytes" where
  "compute_pre_vote_reply_hmac_legacy H secret reply =
     finalize_mac H secret (flagged_reply_mac [DOMAIN_REPLY_LEGACY, 0x05] (pvr_term reply)
       (pvr_vote_granted reply) (pvr_timestamp_ms reply))"

definition compute_append_entries_reply_hmac :: "hmac_fun \<Rightarrow> bytes \<Rightarrow> AppendEntriesReply \<Rightarrow> bytes" where
  "compute_append_entries_reply_hmac H secret reply =
     finalize_mac H secret (flagged_reply_mac [DOMAIN_REPLY_APPEND_ENTRIES] (aer_term reply)
       (aer_success reply) (aer_timestamp_ms reply))"

definition compute_append_entries_reply_hmac_legacy ::
  "hmac_fun \<Rightarrow> bytes \<Rightarrow> AppendEntriesReply \<Rightarrow> bytes" where
  "compute_append_entries_reply_hmac_legacy H secret reply =
     finalize_mac H secret (flagged_reply_mac [DOMAIN_REPLY_LEGACY, 0x02] (aer_term reply)
       (aer_success reply) (aer_timestamp_ms reply))"

definition compute_install_snapshot_reply_hmac ::
  "hmac_fun \<Rightarrow> bytes \<Rightarrow> InstallSnapshotReply \<Rightarrow> bytes" where
  "compute_install_snapshot_reply_hmac H secret reply =
     finalize_mac H secret (plain_reply_mac [DOMAIN_REPLY_INSTALL_SNAPSHOT] (isr_term reply)
       (isr_timestamp_ms reply))"

definition compute_install_snapshot_reply_hmac_legacy ::
  "hmac_fun \<Rightarrow> bytes \<Rightarrow> InstallSnapshotReply \<Rightarrow> bytes" where
  "compute_install_snapshot_reply_hmac_legacy H secret reply =
     finalize_mac H secret (plain_reply_mac [DOMAIN_REPLY_LEGACY, 0x03] (isr_term reply)
       (isr_timestamp_ms reply))"

section \<open>The streams, written out\<close>

definition lp :: "bytes \<Rightarrow> bytes" where
  "lp bs = len_u32_be (length bs) @ bs"

definition entry_bytes :: "LogEntry \<Rightarrow> bytes" where
  "entry_bytes e = u64_be (le_index e) @ u64_be (le_term e) @ lp (canonical_bytes (le_command e))"

lemma push_lp_to_mac_lp: "push_lp_to_mac mac bs = mac @ lp bs"
  by (simp add: push_lp_to_mac_eq push_lp_def lp_def)

lemma entry_into_mac_eq: "entry_into_mac e mac = mac @ entry_bytes e"
  by (simp add: entry_into_mac_def entry_bytes_def canonical_into_mac_eq canonical_byte_len_eq
      mac_update_def lp_def)

lemma fold_entry_into_mac: "fold entry_into_mac es mac = mac @ concat (map entry_bytes es)"
  by (induction es arbitrary: mac) (simp_all add: entry_into_mac_eq)

lemma request_vote_mac_eq:
  "request_vote_mac a = DOMAIN_REQUEST_VOTE # u64_be (rv_term a) @ lp (as_bytes (rv_candidate_id a)) @
     u64_be (rv_last_log_index a) @ u64_be (rv_last_log_term a) @ u64_be (rv_timestamp_ms a)"
  by (simp add: request_vote_mac_def Let_def mac_update_def push_lp_to_mac_lp)

lemma pre_vote_mac_eq:
  "pre_vote_mac a = DOMAIN_PRE_VOTE # u64_be (pv_term a) @ lp (as_bytes (pv_candidate_id a)) @
     u64_be (pv_last_log_index a) @ u64_be (pv_last_log_term a) @ u64_be (pv_timestamp_ms a)"
  by (simp add: pre_vote_mac_def Let_def mac_update_def push_lp_to_mac_lp)

lemma append_entries_mac_eq:
  "append_entries_mac a = DOMAIN_APPEND_ENTRIES # u64_be (ae_term a) @ lp (as_bytes (ae_leader_id a)) @
     u64_be (ae_prev_log_index a) @ u64_be (ae_prev_log_term a) @ u64_be (ae_leader_commit a) @
     u64_be (ae_timestamp_ms a) @ len_u32_be (length (ae_entries a)) @
     concat (map entry_bytes (ae_entries a))"
  by (simp add: append_entries_mac_def append_entries_mac_shared_def Let_def mac_update_def
      push_lp_to_mac_lp fold_entry_into_mac)

lemma install_snapshot_mac_eq:
  "install_snapshot_mac a = DOMAIN_INSTALL_SNAPSHOT # u64_be (is_term a) @ lp (as_bytes (is_leader_id a)) @
     u64_be (is_last_included_index a) @ u64_be (is_last_included_term a) @
     u64_be (is_timestamp_ms a) @ lp (is_data a)"
  by (simp add: install_snapshot_mac_def Let_def mac_update_def push_lp_to_mac_lp)

lemma config_change_approval_mac_eq:
  "config_change_approval_mac p n a v ts = DOMAIN_CONFIG_CHANGE_APPROVAL # lp (as_bytes p) @
     lp (as_bytes n) @ [approval_action_byte a] @ lp (as_bytes v) @ u64_be ts"
  by (simp add: config_change_approval_mac_def Let_def mac_update_def push_lp_to_mac_lp)

lemma flagged_reply_mac_eq:
  "flagged_reply_mac prefix t f ts = prefix @ u64_be t @ [u8_of_bool f] @ u64_be ts"
  by (simp add: flagged_reply_mac_def Let_def mac_update_def)

lemma plain_reply_mac_eq: "plain_reply_mac prefix t ts = prefix @ u64_be t @ u64_be ts"
  by (simp add: plain_reply_mac_def Let_def mac_update_def)

lemmas mac_eqs = request_vote_mac_eq pre_vote_mac_eq append_entries_mac_eq install_snapshot_mac_eq
  config_change_approval_mac_eq flagged_reply_mac_eq plain_reply_mac_eq

section \<open>The streams determine what they cover\<close>

lemma lp_append_inject:
  "length a < 2 ^ 32 \<Longrightarrow> length b < 2 ^ 32 \<Longrightarrow> lp a @ r = lp b @ s \<longleftrightarrow> a = b \<and> r = s"
  using lp_inject [of a b r s] by (auto simp: lp_def)

lemma lp_inject_end:
  "length a < 2 ^ 32 \<Longrightarrow> length b < 2 ^ 32 \<Longrightarrow> lp a = lp b \<longleftrightarrow> a = b"
  using lp_append_inject [of a b "[]" "[]"] by simp

lemma u64_be_append_inject [simp]: "u64_be a @ r = u64_be b @ s \<longleftrightarrow> a = b \<and> r = s"
  by (simp add: append_eq_split)

lemma u8_of_bool_inject [simp]: "u8_of_bool a = u8_of_bool b \<longleftrightarrow> a = b"
  by (simp add: u8_of_bool_def)

lemma approval_action_byte_inject [simp]:
  "approval_action_byte a = approval_action_byte b \<longleftrightarrow> a = b"
  by (cases a; cases b) simp_all

lemma entry_bytes_append_inject:
  assumes "cmd_encodable (le_command e)" "cmd_encodable (le_command f)"
  shows "entry_bytes e @ r = entry_bytes f @ s \<longleftrightarrow> e = f \<and> r = s"
  using assms canonical_bytes_inject [OF assms]
  by (auto simp: entry_bytes_def cmd_encodable_def lp_append_inject)

lemma entries_bytes_inject:
  assumes "length es = length fs" "list_all (cmd_encodable \<circ> le_command) es"
    and "list_all (cmd_encodable \<circ> le_command) fs"
  shows "concat (map entry_bytes es) = concat (map entry_bytes fs) \<longleftrightarrow> es = fs"
  using assms
  by (induction es fs rule: list_induct2) (auto simp: entry_bytes_append_inject)

text \<open>The messages that carry a tag, with the approval's bound fields spelt out.\<close>

datatype AuthMsg =
    MRequestVote RequestVoteArgs
  | MPreVote PreVoteArgs
  | MAppendEntries AppendEntriesArgs
  | MInstallSnapshot InstallSnapshotArgs
  | MApproval string string MembershipAction string u64
  | MVoteReply RequestVoteReply
  | MPreVoteReply PreVoteReply
  | MAppendReply AppendEntriesReply
  | MSnapshotReply InstallSnapshotReply

fun mac_input :: "AuthMsg \<Rightarrow> mac_stream" where
  "mac_input (MRequestVote a) = request_vote_mac a"
| "mac_input (MPreVote a) = pre_vote_mac a"
| "mac_input (MAppendEntries a) = append_entries_mac a"
| "mac_input (MInstallSnapshot a) = install_snapshot_mac a"
| "mac_input (MApproval p n a v ts) = config_change_approval_mac p n a v ts"
| "mac_input (MVoteReply r) =
     flagged_reply_mac [DOMAIN_REPLY_REQUEST_VOTE] (rvr_term r) (rvr_vote_granted r) (rvr_timestamp_ms r)"
| "mac_input (MPreVoteReply r) =
     flagged_reply_mac [DOMAIN_REPLY_PRE_VOTE] (pvr_term r) (pvr_vote_granted r) (pvr_timestamp_ms r)"
| "mac_input (MAppendReply r) =
     flagged_reply_mac [DOMAIN_REPLY_APPEND_ENTRIES] (aer_term r) (aer_success r) (aer_timestamp_ms r)"
| "mac_input (MSnapshotReply r) =
     plain_reply_mac [DOMAIN_REPLY_INSTALL_SNAPSHOT] (isr_term r) (isr_timestamp_ms r)"

text \<open>
  What the tag covers: everything but the tag itself and, for a snapshot chunk, its
  place in the transfer.
\<close>

fun covered :: "AuthMsg \<Rightarrow> AuthMsg" where
  "covered (MRequestVote a) = MRequestVote (a\<lparr>rv_hmac := None\<rparr>)"
| "covered (MPreVote a) = MPreVote (a\<lparr>pv_hmac := None\<rparr>)"
| "covered (MAppendEntries a) = MAppendEntries (a\<lparr>ae_hmac := None\<rparr>)"
| "covered (MInstallSnapshot a) = MInstallSnapshot
     (a\<lparr>is_hmac := None, is_offset := 0, is_total_size := 0, is_last_chunk := True\<rparr>)"
| "covered (MApproval p n a v ts) = MApproval p n a v ts"
| "covered (MVoteReply r) = MVoteReply (r\<lparr>rvr_hmac := None\<rparr>)"
| "covered (MPreVoteReply r) = MPreVoteReply (r\<lparr>pvr_hmac := None\<rparr>)"
| "covered (MAppendReply r) = MAppendReply (r\<lparr>aer_hmac := None\<rparr>)"
| "covered (MSnapshotReply r) = MSnapshotReply (r\<lparr>isr_hmac := None\<rparr>)"

text \<open>Lengths that the 32-bit prefixes can express.\<close>

fun encodable :: "AuthMsg \<Rightarrow> bool" where
  "encodable (MRequestVote a) = (length (rv_candidate_id a) < 2 ^ 32)"
| "encodable (MPreVote a) = (length (pv_candidate_id a) < 2 ^ 32)"
| "encodable (MAppendEntries a) = (length (ae_leader_id a) < 2 ^ 32 \<and>
     length (ae_entries a) < 2 ^ 32 \<and> list_all (cmd_encodable \<circ> le_command) (ae_entries a))"
| "encodable (MInstallSnapshot a) =
     (length (is_leader_id a) < 2 ^ 32 \<and> length (is_data a) < 2 ^ 32)"
| "encodable (MApproval p n a v ts) =
     (length p < 2 ^ 32 \<and> length n < 2 ^ 32 \<and> length v < 2 ^ 32)"
| "encodable _ = True"

lemma append_entries_mac_inject:
  assumes "encodable (MAppendEntries a)" "encodable (MAppendEntries b)"
    and "append_entries_mac a = append_entries_mac b"
  shows "a\<lparr>ae_hmac := None\<rparr> = b\<lparr>ae_hmac := None\<rparr>"
proof -
  have eq: "ae_term a = ae_term b" "ae_leader_id a = ae_leader_id b"
    "ae_prev_log_index a = ae_prev_log_index b" "ae_prev_log_term a = ae_prev_log_term b"
    "ae_leader_commit a = ae_leader_commit b" "ae_timestamp_ms a = ae_timestamp_ms b"
    and es: "len_u32_be (length (ae_entries a)) @ concat (map entry_bytes (ae_entries a)) =
      len_u32_be (length (ae_entries b)) @ concat (map entry_bytes (ae_entries b))"
    using assms by (auto simp: append_entries_mac_eq lp_append_inject)
  then have "length (ae_entries a) = length (ae_entries b)"
    using assms(1,2) by (simp add: append_eq_split len_u32_be_inject)
  with es assms(1,2) have "ae_entries a = ae_entries b" by (simp add: entries_bytes_inject)
  with eq show ?thesis by simp
qed

lemma request_vote_mac_inject:
  "encodable (MRequestVote a) \<Longrightarrow> encodable (MRequestVote b) \<Longrightarrow>
     request_vote_mac a = request_vote_mac b \<Longrightarrow> a\<lparr>rv_hmac := None\<rparr> = b\<lparr>rv_hmac := None\<rparr>"
  by (simp add: request_vote_mac_eq lp_append_inject lp_inject_end)

lemma pre_vote_mac_inject:
  "encodable (MPreVote a) \<Longrightarrow> encodable (MPreVote b) \<Longrightarrow>
     pre_vote_mac a = pre_vote_mac b \<Longrightarrow> a\<lparr>pv_hmac := None\<rparr> = b\<lparr>pv_hmac := None\<rparr>"
  by (simp add: pre_vote_mac_eq lp_append_inject lp_inject_end)

lemma install_snapshot_mac_inject:
  "encodable (MInstallSnapshot a) \<Longrightarrow> encodable (MInstallSnapshot b) \<Longrightarrow>
     install_snapshot_mac a = install_snapshot_mac b \<Longrightarrow>
     covered (MInstallSnapshot a) = covered (MInstallSnapshot b)"
  by (simp add: install_snapshot_mac_eq lp_append_inject lp_inject_end)

lemma approval_mac_inject:
  "encodable (MApproval p n a v ts) \<Longrightarrow> encodable (MApproval p' n' a' v' ts') \<Longrightarrow>
     config_change_approval_mac p n a v ts = config_change_approval_mac p' n' a' v' ts' \<Longrightarrow>
     MApproval p n a v ts = MApproval p' n' a' v' ts'"
  by (simp add: config_change_approval_mac_eq lp_append_inject lp_inject_end)

lemma reply_mac_inject:
  "flagged_reply_mac q t f ts = flagged_reply_mac q t' f' ts' \<longleftrightarrow> t = t' \<and> f = f' \<and> ts = ts'"
  "plain_reply_mac q t ts = plain_reply_mac q t' ts' \<longleftrightarrow> t = t' \<and> ts = ts'"
  by (auto simp: flagged_reply_mac_eq plain_reply_mac_eq)

fun domain_tag :: "AuthMsg \<Rightarrow> u8" where
  "domain_tag (MRequestVote _) = DOMAIN_REQUEST_VOTE"
| "domain_tag (MPreVote _) = DOMAIN_PRE_VOTE"
| "domain_tag (MAppendEntries _) = DOMAIN_APPEND_ENTRIES"
| "domain_tag (MInstallSnapshot _) = DOMAIN_INSTALL_SNAPSHOT"
| "domain_tag (MApproval _ _ _ _ _) = DOMAIN_CONFIG_CHANGE_APPROVAL"
| "domain_tag (MVoteReply _) = DOMAIN_REPLY_REQUEST_VOTE"
| "domain_tag (MPreVoteReply _) = DOMAIN_REPLY_PRE_VOTE"
| "domain_tag (MAppendReply _) = DOMAIN_REPLY_APPEND_ENTRIES"
| "domain_tag (MSnapshotReply _) = DOMAIN_REPLY_INSTALL_SNAPSHOT"

lemma hd_mac_input: "hd (mac_input m) = domain_tag m"
  by (cases m) (simp_all add: mac_eqs)

section \<open>Properties\<close>

text \<open>
  C9: the authenticated bytes identify the message.  If the byte strings two signed
  messages are tagged over agree, then the messages are of one kind and agree in
  every field but the tag itself and the place of a snapshot chunk; no request can
  pass for another kind of request, for a reply or for an approval, and no field
  can run into the next.  Identifiers, payloads and batches are below the \<open>2 ^ 32\<close>
  that the length prefixes can express.
\<close>

theorem mac_input_determines_message:
  assumes "encodable m" "encodable m'" and "mac_input m = mac_input m'"
  shows "covered m = covered m'"
proof -
  have tag: "domain_tag m = domain_tag m'"
    using hd_mac_input [of m] hd_mac_input [of m'] assms(3) by simp
  show ?thesis
  proof (cases m)
    case (MRequestVote a)
    with tag obtain b where "m' = MRequestVote b" by (cases m') (simp_all add: domain_defs)
    with MRequestVote assms request_vote_mac_inject [of a b] show ?thesis by simp
  next
    case (MPreVote a)
    with tag obtain b where "m' = MPreVote b" by (cases m') (simp_all add: domain_defs)
    with MPreVote assms pre_vote_mac_inject [of a b] show ?thesis by simp
  next
    case (MAppendEntries a)
    with tag obtain b where "m' = MAppendEntries b" by (cases m') (simp_all add: domain_defs)
    with MAppendEntries assms append_entries_mac_inject [of a b] show ?thesis by simp
  next
    case (MInstallSnapshot a)
    with tag obtain b where "m' = MInstallSnapshot b" by (cases m') (simp_all add: domain_defs)
    with MInstallSnapshot assms install_snapshot_mac_inject [of a b] show ?thesis by simp
  next
    case (MApproval p n a v ts)
    with tag obtain p' n' a' v' ts' where "m' = MApproval p' n' a' v' ts'"
      by (cases m') (simp_all add: domain_defs)
    with MApproval assms approval_mac_inject [of p n a v ts p' n' a' v' ts'] show ?thesis by simp
  qed (use tag assms in \<open>cases m'; simp add: domain_defs reply_mac_inject\<close>)+
qed

theorem mac_input_determines_message_witness:
  "covered (MVoteReply \<lparr>rvr_term = 3, rvr_vote_granted = True, rvr_timestamp_ms = 9, rvr_hmac = None\<rparr>) =
   covered (MVoteReply \<lparr>rvr_term = 3, rvr_vote_granted = True, rvr_timestamp_ms = 9, rvr_hmac = Some [1]\<rparr>)"
  by (rule mac_input_determines_message) simp_all

text \<open>
  The shared and the per-message encoder of AppendEntries agree, so a follower
  that recomputes the tag from the received message recomputes what the leader
  computed from its borrowed fields, and streaming the entries hashes the same
  bytes as encoding each command with \<open>canonical_bytes\<close> first.
\<close>

theorem append_entries_tag_encoders_agree:
  "compute_append_entries_hmac H secret a =
     H secret ([DOMAIN_APPEND_ENTRIES] @ u64_be (ae_term a) @
       push_lp [] (as_bytes (ae_leader_id a)) @ u64_be (ae_prev_log_index a) @
       u64_be (ae_prev_log_term a) @ u64_be (ae_leader_commit a) @ u64_be (ae_timestamp_ms a) @
       len_u32_be (length (ae_entries a)) @
       concat (map (\<lambda>e. u64_be (le_index e) @ u64_be (le_term e) @
                       push_lp [] (canonical_bytes (le_command e))) (ae_entries a)))"
proof -
  have lp: "push_lp [] bs = lp bs" for bs by (simp add: push_lp_def lp_def)
  have "compute_append_entries_hmac H secret a = H secret (append_entries_mac a)"
    by (simp add: compute_append_entries_hmac_def compute_append_entries_hmac_shared_def
        finalize_mac_def append_entries_mac_def)
  then show ?thesis
    by (simp add: append_entries_mac_eq lp entry_bytes_def [abs_def])
qed

text \<open>
  the place of a snapshot chunk is not authenticated.  The tag of a chunk is
  the same whatever its offset, its declared total size and its last-chunk mark.
\<close>

theorem snapshot_chunk_place_not_covered:
  "compute_install_snapshot_hmac H secret
     (a\<lparr>is_offset := offset, is_total_size := total_size, is_last_chunk := last_chunk\<rparr>)
   = compute_install_snapshot_hmac H secret a"
  by (simp add: compute_install_snapshot_hmac_def install_snapshot_mac_def)

end
