(* ===== verification/Raft_Node.thy ===== *)
theory Raft_Node
  imports Raft_Log Replay_Cache Vote_Limiter State_Machine Raft_Storage Raft_Messages
begin

text \<open>
  \<open>RaftNode\<close> of \<open>craton-hsm-cluster/src/raft.rs\<close>: its state and the operations every
  RPC handler is built from (construction, persistence, role changes, peer
  synchronisation, applying committed entries, compaction).  The record has the
  fields of the struct; \<open>'s\<close> is the type of storage states behind the trait object.
  What lies outside the sources comes in through \<open>Env\<close>: the HMAC function, the
  constant-time comparison, JSON (de)serialisation of state machine snapshots and the
  storage operations.  Clock readings and random draws are arguments, one for each
  place the code reads them.
\<close>

section \<open>Environment and state\<close>

record 's Env =
  hmac_sha256 :: hmac_fun
  ct_eq :: "bytes \<Rightarrow> bytes \<Rightarrow> bool"
  sm_to_vec :: "StateMachineSnapshot \<Rightarrow> bytes option"
  sm_from_slice :: "bytes \<Rightarrow> StateMachineSnapshot option"
  store_ops :: "'s RaftStorage"

record PendingConfigChange =
  pc_proposal :: ConfigChangeProposal
  pc_approvers :: "string set"

record SnapshotChunkBuffer =
  cb_data :: bytes
  cb_total_size :: u64
  cb_last_included_index :: u64
  cb_last_included_term :: Term

record 's RaftNode =
  rn_id :: string
  rn_state :: RaftState
  current_term :: Term
  voted_for :: "string option"
  rlog :: RaftLog
  peers :: "string list"
  base_election_timeout_ms :: u64
  election_timeout_ms :: u64
  last_heartbeat_ms :: u64
  cluster_secret :: "bytes option"
  max_message_age_ms :: u64
  max_future_skew_ms :: u64
  next_index :: "string \<rightharpoonup> u64"
  match_index :: "string \<rightharpoonup> u64"
  replay_cache :: ReplayCache
  storage :: "'s option"
  state_machine :: "ClusterStateMachine option"
  last_snapshot_index :: u64
  last_snapshot_term :: Term
  snapshot_interval :: u64
  vote_rate_limiter :: VoteRateLimiter
  pending_config_changes :: "string \<rightharpoonup> PendingConfigChange"
  last_config_change_at :: "string \<rightharpoonup> u64"
  min_config_change_interval_ms :: u64
  last_heartbeat_monotonic_ms :: u64
  snapshot_chunk_buffers :: "string \<rightharpoonup> SnapshotChunkBuffer"
  last_reply_ts :: "string \<rightharpoonup> u64"
  recent_departed_peers :: "string \<rightharpoonup> u64"
  forged_reply_rejects :: u64
  forged_snapshot_rejects :: u64
  current_leader_hint :: "string option"
  accept_legacy_reply_hmac_tags :: bool
  legacy_reply_hmac_accepts :: u64
  apply_halted :: bool

datatype RaftError =
    TermOverflow
  | StaleSnapshotTermAtCommitted u64 Term Term

section \<open>Construction\<close>

text \<open>
  The draw \<open>gen_range(0..=half)\<close> is the argument \<open>jitter\<close>; the process start time is
  not kept, monotonic readings are taken as given.
\<close>

definition with_vote_rate_limiter_config ::
  "string \<Rightarrow> string list \<Rightarrow> u64 \<Rightarrow> VoteRateLimiterConfig \<Rightarrow> u64 \<Rightarrow> 's RaftNode" where
  "with_vote_rate_limiter_config nid nodes base rl_cfg jitter =
     (let half = base div 2 in
      \<lparr>rn_id = nid, rn_state = Follower, current_term = 0, voted_for = None, rlog = log_new,
       peers = nodes, base_election_timeout_ms = base,
       election_timeout_ms = base + (if half > 0 then jitter else 0),
       last_heartbeat_ms = 0, cluster_secret = None, max_message_age_ms = 30000,
       max_future_skew_ms = MAX_FUTURE_SKEW_MS, next_index = Map.empty, match_index = Map.empty,
       replay_cache = replay_cache_new, storage = None, state_machine = None,
       last_snapshot_index = 0, last_snapshot_term = 0, snapshot_interval = 0,
       vote_rate_limiter =
         limiter_new (cfg_capacity rl_cfg) (cfg_refill_interval_ms rl_cfg),
       pending_config_changes = Map.empty, last_config_change_at = Map.empty,
       min_config_change_interval_ms = 500, last_heartbeat_monotonic_ms = 0,
       snapshot_chunk_buffers = Map.empty, last_reply_ts = Map.empty,
       recent_departed_peers = Map.empty, forged_reply_rejects = 0, forged_snapshot_rejects = 0,
       current_leader_hint = None, accept_legacy_reply_hmac_tags = True,
       legacy_reply_hmac_accepts = 0, apply_halted = False\<rparr>)"

definition node_new :: "string \<Rightarrow> string list \<Rightarrow> u64 \<Rightarrow> u64 \<Rightarrow> 's RaftNode" where
  "node_new nid nodes base jitter =
     with_vote_rate_limiter_config nid nodes base
       (adaptive_for_cluster_size (length nodes + 1)) jitter"

text \<open>The production build, without the feature \<open>insecure-no-cluster-secret\<close>.\<close>

definition require_cluster_secret_for_production :: "'s RaftNode \<Rightarrow> bool" where
  "require_cluster_secret_for_production nd = (cluster_secret nd \<noteq> None)"

definition set_cluster_secret :: "'s RaftNode \<Rightarrow> bytes \<Rightarrow> 's RaftNode" where
  "set_cluster_secret nd secret = nd\<lparr>cluster_secret := Some secret\<rparr>"

definition attach_state_machine :: "'s RaftNode \<Rightarrow> ClusterStateMachine \<Rightarrow> 's RaftNode" where
  "attach_state_machine nd sm = nd\<lparr>state_machine := Some sm\<rparr>"

definition quorum_size :: "'s RaftNode \<Rightarrow> nat" where
  "quorum_size nd = (let total = length (peers nd) + 1 in total div 2 + 1)"

section \<open>Persistence\<close>

text \<open>A storage error is logged and otherwise ignored.\<close>

definition persist_hard_state :: "'s Env \<Rightarrow> 's RaftNode \<Rightarrow> 's RaftNode" where
  "persist_hard_state E nd =
     (case storage nd of
        None \<Rightarrow> nd
      | Some s \<Rightarrow> nd\<lparr>storage := Some (fst (save_hard_state (store_ops E) s
          \<lparr>hs_current_term = current_term nd, hs_voted_for = voted_for nd\<rparr>))\<rparr>)"

definition persist_appended :: "'s Env \<Rightarrow> 's RaftNode \<Rightarrow> LogEntry list \<Rightarrow> 's RaftNode" where
  "persist_appended E nd es =
     (case storage nd of
        None \<Rightarrow> nd
      | Some s \<Rightarrow> nd\<lparr>storage := Some (fst (append_log (store_ops E) s es))\<rparr>)"

definition persist_truncate :: "'s Env \<Rightarrow> 's RaftNode \<Rightarrow> u64 \<Rightarrow> 's RaftNode" where
  "persist_truncate E nd after =
     (case storage nd of
        None \<Rightarrow> nd
      | Some s \<Rightarrow> nd\<lparr>storage := Some (fst (truncate_log_after (store_ops E) s after))\<rparr>)"

definition sync_committed_state_best_effort :: "'s Env \<Rightarrow> 's RaftNode \<Rightarrow> 's RaftNode" where
  "sync_committed_state_best_effort E nd =
     (case storage nd of
        None \<Rightarrow> nd
      | Some s \<Rightarrow> nd\<lparr>storage := Some (fst (sync_all_committed_state (store_ops E) s))\<rparr>)"

section \<open>Roles\<close>

definition try_become_candidate :: "'s Env \<Rightarrow> 's RaftNode \<Rightarrow> u64 \<Rightarrow> 's RaftNode \<times> RaftError option" where
  "try_become_candidate E nd jitter =
     (case checked_next (current_term nd) of
        None \<Rightarrow> (nd, Some TermOverflow)
      | Some nxt \<Rightarrow>
          let base = base_election_timeout_ms nd;
              half = base div 2
          in (persist_hard_state E
                (nd\<lparr>current_term := nxt, rn_state := Candidate, voted_for := Some (rn_id nd),
                   election_timeout_ms := base + (if half > 0 then jitter else 0)\<rparr>), None))"

definition become_candidate :: "'s Env \<Rightarrow> 's RaftNode \<Rightarrow> u64 \<Rightarrow> 's RaftNode" where
  "become_candidate E nd jitter = fst (try_become_candidate E nd jitter)"

definition become_leader :: "'s RaftNode \<Rightarrow> 's RaftNode" where
  "become_leader nd =
     (let lst = last_index (rlog nd) in
      nd\<lparr>rn_state := Leader,
         next_index := (\<lambda>p. if p \<in> set (peers nd) then Some (lst + 1) else None),
         match_index := (\<lambda>p. if p \<in> set (peers nd) then Some 0 else None)\<rparr>)"

definition become_follower :: "'s Env \<Rightarrow> 's RaftNode \<Rightarrow> Term \<Rightarrow> 's RaftNode" where
  "become_follower E nd trm =
     (let prior_term = current_term nd;
          nd1 = nd\<lparr>rn_state := Follower, current_term := trm\<rparr>;
          nd2 = (if trm > prior_term then nd1\<lparr>voted_for := None, current_leader_hint := None\<rparr>
                 else nd1)
      in persist_hard_state E nd2)"

definition is_leader :: "'s RaftNode \<Rightarrow> bool" where
  "is_leader nd = (rn_state nd = Leader)"

definition leader_lease_is_valid :: "'s RaftNode \<Rightarrow> u64 \<Rightarrow> bool" where
  "leader_lease_is_valid nd now =
     (if rn_state nd \<noteq> Leader then False
      else case checked_sub now (last_heartbeat_ms nd) of
          None \<Rightarrow> False
        | Some elapsed \<Rightarrow> elapsed < election_timeout_ms nd)"

definition leader_lease_is_valid_monotonic :: "'s RaftNode \<Rightarrow> u64 \<Rightarrow> bool" where
  "leader_lease_is_valid_monotonic nd now_mono =
     (if rn_state nd \<noteq> Leader then False
      else case checked_sub now_mono (last_heartbeat_monotonic_ms nd) of
          None \<Rightarrow> False
        | Some elapsed \<Rightarrow> elapsed < election_timeout_ms nd)"

definition record_heartbeat :: "'s RaftNode \<Rightarrow> u64 \<Rightarrow> u64 \<Rightarrow> 's RaftNode" where
  "record_heartbeat nd timestamp now_mono =
     nd\<lparr>last_heartbeat_ms := timestamp, last_heartbeat_monotonic_ms := now_mono\<rparr>"

definition should_grant_vote :: "'s RaftNode \<Rightarrow> string \<Rightarrow> Term \<Rightarrow> u64 \<Rightarrow> Term \<Rightarrow> bool" where
  "should_grant_vote nd candidate_id candidate_term candidate_last_log_index candidate_last_log_term =
     (if candidate_term < current_term nd then False
      else if (case voted_for nd of Some voted \<Rightarrow> voted \<noteq> candidate_id | None \<Rightarrow> False) then False
      else if candidate_last_log_term > last_term (rlog nd) then True
      else if candidate_last_log_term = last_term (rlog nd)
        then candidate_last_log_index \<ge> last_index (rlog nd)
      else False)"

section \<open>Membership\<close>

definition sync_peers_from_voters :: "'s RaftNode \<Rightarrow> string list \<Rightarrow> u64 \<Rightarrow> 's RaftNode" where
  "sync_peers_from_voters nd voters now_mono =
     (let new_peers = filter (\<lambda>v. v \<noteq> rn_id nd) voters;
          new_set = set new_peers;
          ni = map_retain (\<lambda>k _. k \<in> new_set) (next_index nd);
          mi = map_retain (\<lambda>k _. k \<in> new_set) (match_index nd);
          lc = map_retain (\<lambda>k _. k \<in> new_set) (last_config_change_at nd);
          nxt = last_index (rlog nd) + 1;
          ni' = (if rn_state nd = Leader then fold (\<lambda>p m. or_insert m p nxt) new_peers ni else ni);
          mi' = (if rn_state nd = Leader then fold (\<lambda>p m. or_insert m p 0) new_peers mi else mi);
          departed = fold (\<lambda>p m. if p \<notin> new_set then m(p \<mapsto> now_mono) else m) (peers nd)
            (recent_departed_peers nd);
          departed' = map_retain (\<lambda>_ ts. saturating_sub now_mono ts < election_timeout_ms nd) departed;
          allowed = new_set \<union> {rn_id nd} \<union> dom departed'
      in nd\<lparr>next_index := ni', match_index := mi', last_config_change_at := lc,
            recent_departed_peers := departed',
            vote_rate_limiter := set_allowed_peers (vote_rate_limiter nd) (Some allowed),
            peers := new_peers\<rparr>)"

definition run_periodic_maintenance :: "'s RaftNode \<Rightarrow> u64 \<Rightarrow> 's RaftNode \<times> nat" where
  "run_periodic_maintenance nd now =
     (let stale = saturating_mul (base_election_timeout_ms nd) 2;
          (l, evicted) = evict_stale (vote_rate_limiter nd) now stale
      in (nd\<lparr>vote_rate_limiter := l\<rparr>, evicted))"

section \<open>Applying and compacting\<close>

text \<open>
  The loop of \<open>apply_committed\<close>; the flags are whether a membership entry was met and
  whether the state machine refused an entry.
\<close>

function apply_loop ::
  "ClusterStateMachine \<Rightarrow> RaftLog \<Rightarrow> bool \<Rightarrow> ClusterStateMachine \<times> RaftLog \<times> bool \<times> bool" where
  "apply_loop sm log saw_config_change =
     (if applied log < committed log then
        let nxt = applied log + 1 in
        case log_get log nxt of
          None \<Rightarrow> (sm, log, saw_config_change, False)
        | Some entry \<Rightarrow>
            if is_config_change entry \<and> saw_config_change then (sm, log, saw_config_change, False)
            else
              let saw = (saw_config_change \<or> is_config_change entry) in
              case sm_apply sm entry of
                (sm', Inr _) \<Rightarrow> apply_loop sm' (log_apply log nxt) saw
              | (sm', Inl _) \<Rightarrow> (sm', log, saw, True)
      else (sm, log, saw_config_change, False))"
  by pat_completeness auto

lemma log_apply_next:
  assumes "applied log < committed log"
  shows "log_apply log (applied log + 1) = log\<lparr>applied := applied log + 1\<rparr>"
    and "unat (applied log + 1) = Suc (unat (applied log))"
proof -
  from assms have "applied log \<noteq> u64_max"
    using word_order.not_eq_extremum by fastforce
  then show un: "unat (applied log + 1) = Suc (unat (applied log))" by (rule unat_plus_one)
  with assms show "log_apply log (applied log + 1) = log\<lparr>applied := applied log + 1\<rparr>"
    by (simp add: log_apply_def word_less_nat_alt word_le_nat_alt)
qed

termination apply_loop
  by (relation "measure (\<lambda>(sm, log, saw). unat (committed log) - unat (applied log))")
    (simp_all add: log_apply_next word_less_nat_alt diff_less_mono2)

declare apply_loop.simps [simp del]

definition apply_committed :: "'s RaftNode \<Rightarrow> u64 \<Rightarrow> 's RaftNode" where
  "apply_committed nd now_mono =
     (case state_machine nd of
        None \<Rightarrow> nd
      | Some sm \<Rightarrow>
          let (sm', log', saw_config_change, failed) = apply_loop sm (rlog nd) False;
              nd1 = nd\<lparr>state_machine := Some sm', rlog := log',
                      apply_halted := (apply_halted nd \<or> failed)\<rparr>
          in if saw_config_change then sync_peers_from_voters nd1 (voters_list sm') now_mono
             else nd1)"

definition maybe_snapshot :: "'s Env \<Rightarrow> 's RaftNode \<Rightarrow> 's RaftNode" where
  "maybe_snapshot E nd =
     (if snapshot_interval nd = 0 then nd
      else let upto = applied (rlog nd) in
      if upto < last_snapshot_index nd + snapshot_interval nd then nd
      else case state_machine nd of
        None \<Rightarrow> nd
      | Some sm \<Rightarrow>
          (case sm_to_vec E (sm_snapshot sm) of
             None \<Rightarrow> nd
           | Some data \<Rightarrow>
               let lterm = (case log_get (rlog nd) upto of Some e \<Rightarrow> le_term e
                            | None \<Rightarrow> last_snapshot_term nd);
                   compact = (\<lambda>nd. nd\<lparr>rlog := discard_through (rlog nd) upto,
                                     last_snapshot_index := upto, last_snapshot_term := lterm\<rparr>)
               in case storage nd of
                    None \<Rightarrow> compact nd
                  | Some st \<Rightarrow>
                      (case save_snapshot (store_ops E) st
                              \<lparr>ps_last_index = upto, ps_last_term = lterm,
                               ps_voters = voters_list sm, ps_data = data\<rparr> of
                         (st', Some _) \<Rightarrow> nd\<lparr>storage := Some st'\<rparr>
                       | (st', None) \<Rightarrow>
                           compact (nd\<lparr>storage :=
                             Some (fst (truncate_log_after (store_ops E) st' upto))\<rparr>))))"

text \<open>
  \<open>attach_storage\<close>: an error returns at once, with what was read so far kept and the
  storage not attached.
\<close>

definition attach_storage ::
  "'s Env \<Rightarrow> 's RaftNode \<Rightarrow> 's \<Rightarrow> u64 \<Rightarrow> 's RaftNode \<times> StorageError option" where
  "attach_storage E nd st now_mono =
     (case load_hard_state (store_ops E) st of
        Inl e \<Rightarrow> (nd, Some e)
      | Inr hs \<Rightarrow>
          let nd1 = nd\<lparr>current_term := hs_current_term hs, voted_for := hs_voted_for hs\<rparr> in
          case load_log (store_ops E) st of
            Inl e \<Rightarrow> (nd1, Some e)
          | Inr es \<Rightarrow>
              let nd2 = nd1\<lparr>rlog := fold (\<lambda>e l. log_append l e) es (rlog nd1)\<rparr> in
              case load_snapshot (store_ops E) st of
                Inl e \<Rightarrow> (nd2, Some e)
              | Inr None \<Rightarrow> (nd2\<lparr>storage := Some st\<rparr>, None)
              | Inr (Some snap) \<Rightarrow>
                  let nd3 = nd2\<lparr>last_snapshot_index := ps_last_index snap,
                                last_snapshot_term := ps_last_term snap,
                                rlog := discard_through (rlog nd2) (ps_last_index snap)\<rparr>;
                      nd4 = (case (state_machine nd3, sm_from_slice E (ps_data snap)) of
                               (Some sm, Some s) \<Rightarrow>
                                 nd3\<lparr>state_machine := Some (restore_from_snapshot sm s)\<rparr>
                             | _ \<Rightarrow> nd3);
                      nd5 = (if ps_voters snap \<noteq> [] then
                               sync_peers_from_voters nd4 (ps_voters snap) now_mono
                             else nd4)
                  in (nd5\<lparr>storage := Some st\<rparr>, None))"

text \<open>
  A concrete environment for the examples: the tag of a message is the key followed by
  the message, comparison is equality, a snapshot is encoded by its position and its
  voters, and storage is the in-memory store.
\<close>

definition example_env :: "InMemoryStorage Env" where
  "example_env =
     \<lparr>hmac_sha256 = (\<lambda>k m. k @ m), ct_eq = (=),
      sm_to_vec = (\<lambda>s. Some (u64_be (ss_last_applied s) @ concat (map as_bytes (ss_voters s)))),
      sm_from_slice = (\<lambda>d. if d = [] then None
         else Some \<lparr>ss_last_applied = from_be_bytes (take 8 d), ss_voters = [], ss_keys = Map.empty\<rparr>),
      store_ops = in_memory\<rparr>"

lemma example_env_simps [simp]:
  "hmac_sha256 example_env k m = k @ m" "ct_eq example_env = (=)" "store_ops example_env = in_memory"
  by (simp_all add: example_env_def)

section \<open>What the small operations leave alone\<close>

lemmas persist_defs = persist_hard_state_def persist_appended_def persist_truncate_def
  sync_committed_state_best_effort_def

text \<open>Persisting touches the storage only.\<close>

lemma persist_hard_state_keeps [simp]:
  "rn_id (persist_hard_state E nd) = rn_id nd"
  "rn_state (persist_hard_state E nd) = rn_state nd"
  "current_term (persist_hard_state E nd) = current_term nd"
  "voted_for (persist_hard_state E nd) = voted_for nd"
  "rlog (persist_hard_state E nd) = rlog nd"
  "peers (persist_hard_state E nd) = peers nd"
  "cluster_secret (persist_hard_state E nd) = cluster_secret nd"
  "max_message_age_ms (persist_hard_state E nd) = max_message_age_ms nd"
  "max_future_skew_ms (persist_hard_state E nd) = max_future_skew_ms nd"
  "next_index (persist_hard_state E nd) = next_index nd"
  "match_index (persist_hard_state E nd) = match_index nd"
  "replay_cache (persist_hard_state E nd) = replay_cache nd"
  "state_machine (persist_hard_state E nd) = state_machine nd"
  "last_snapshot_index (persist_hard_state E nd) = last_snapshot_index nd"
  "last_snapshot_term (persist_hard_state E nd) = last_snapshot_term nd"
  "snapshot_interval (persist_hard_state E nd) = snapshot_interval nd"
  "vote_rate_limiter (persist_hard_state E nd) = vote_rate_limiter nd"
  "pending_config_changes (persist_hard_state E nd) = pending_config_changes nd"
  "current_leader_hint (persist_hard_state E nd) = current_leader_hint nd"
  "apply_halted (persist_hard_state E nd) = apply_halted nd"
  "snapshot_chunk_buffers (persist_hard_state E nd) = snapshot_chunk_buffers nd"
  "election_timeout_ms (persist_hard_state E nd) = election_timeout_ms nd"
  by (simp_all add: persist_hard_state_def split: option.split)

lemma persist_appended_keeps [simp]:
  "rn_id (persist_appended E nd es) = rn_id nd"
  "rn_state (persist_appended E nd es) = rn_state nd"
  "current_term (persist_appended E nd es) = current_term nd"
  "voted_for (persist_appended E nd es) = voted_for nd"
  "rlog (persist_appended E nd es) = rlog nd"
  "peers (persist_appended E nd es) = peers nd"
  "cluster_secret (persist_appended E nd es) = cluster_secret nd"
  "max_message_age_ms (persist_appended E nd es) = max_message_age_ms nd"
  "max_future_skew_ms (persist_appended E nd es) = max_future_skew_ms nd"
  "next_index (persist_appended E nd es) = next_index nd"
  "match_index (persist_appended E nd es) = match_index nd"
  "replay_cache (persist_appended E nd es) = replay_cache nd"
  "state_machine (persist_appended E nd es) = state_machine nd"
  "last_snapshot_index (persist_appended E nd es) = last_snapshot_index nd"
  "last_snapshot_term (persist_appended E nd es) = last_snapshot_term nd"
  "snapshot_interval (persist_appended E nd es) = snapshot_interval nd"
  "vote_rate_limiter (persist_appended E nd es) = vote_rate_limiter nd"
  "pending_config_changes (persist_appended E nd es) = pending_config_changes nd"
  "current_leader_hint (persist_appended E nd es) = current_leader_hint nd"
  "apply_halted (persist_appended E nd es) = apply_halted nd"
  "snapshot_chunk_buffers (persist_appended E nd es) = snapshot_chunk_buffers nd"
  "election_timeout_ms (persist_appended E nd es) = election_timeout_ms nd"
  by (simp_all add: persist_appended_def split: option.split)

lemma persist_truncate_keeps [simp]:
  "rn_id (persist_truncate E nd a) = rn_id nd"
  "rn_state (persist_truncate E nd a) = rn_state nd"
  "current_term (persist_truncate E nd a) = current_term nd"
  "voted_for (persist_truncate E nd a) = voted_for nd"
  "rlog (persist_truncate E nd a) = rlog nd"
  "peers (persist_truncate E nd a) = peers nd"
  "cluster_secret (persist_truncate E nd a) = cluster_secret nd"
  "max_message_age_ms (persist_truncate E nd a) = max_message_age_ms nd"
  "max_future_skew_ms (persist_truncate E nd a) = max_future_skew_ms nd"
  "next_index (persist_truncate E nd a) = next_index nd"
  "match_index (persist_truncate E nd a) = match_index nd"
  "replay_cache (persist_truncate E nd a) = replay_cache nd"
  "state_machine (persist_truncate E nd a) = state_machine nd"
  "last_snapshot_index (persist_truncate E nd a) = last_snapshot_index nd"
  "last_snapshot_term (persist_truncate E nd a) = last_snapshot_term nd"
  "snapshot_interval (persist_truncate E nd a) = snapshot_interval nd"
  "vote_rate_limiter (persist_truncate E nd a) = vote_rate_limiter nd"
  "pending_config_changes (persist_truncate E nd a) = pending_config_changes nd"
  "current_leader_hint (persist_truncate E nd a) = current_leader_hint nd"
  "apply_halted (persist_truncate E nd a) = apply_halted nd"
  "snapshot_chunk_buffers (persist_truncate E nd a) = snapshot_chunk_buffers nd"
  "election_timeout_ms (persist_truncate E nd a) = election_timeout_ms nd"
  by (simp_all add: persist_truncate_def split: option.split)

lemma sync_committed_state_best_effort_keeps [simp]:
  "rn_id (sync_committed_state_best_effort E nd) = rn_id nd"
  "rn_state (sync_committed_state_best_effort E nd) = rn_state nd"
  "current_term (sync_committed_state_best_effort E nd) = current_term nd"
  "voted_for (sync_committed_state_best_effort E nd) = voted_for nd"
  "rlog (sync_committed_state_best_effort E nd) = rlog nd"
  "peers (sync_committed_state_best_effort E nd) = peers nd"
  "cluster_secret (sync_committed_state_best_effort E nd) = cluster_secret nd"
  "max_message_age_ms (sync_committed_state_best_effort E nd) = max_message_age_ms nd"
  "max_future_skew_ms (sync_committed_state_best_effort E nd) = max_future_skew_ms nd"
  "next_index (sync_committed_state_best_effort E nd) = next_index nd"
  "match_index (sync_committed_state_best_effort E nd) = match_index nd"
  "replay_cache (sync_committed_state_best_effort E nd) = replay_cache nd"
  "state_machine (sync_committed_state_best_effort E nd) = state_machine nd"
  "last_snapshot_index (sync_committed_state_best_effort E nd) = last_snapshot_index nd"
  "last_snapshot_term (sync_committed_state_best_effort E nd) = last_snapshot_term nd"
  "snapshot_interval (sync_committed_state_best_effort E nd) = snapshot_interval nd"
  "vote_rate_limiter (sync_committed_state_best_effort E nd) = vote_rate_limiter nd"
  "pending_config_changes (sync_committed_state_best_effort E nd) = pending_config_changes nd"
  "current_leader_hint (sync_committed_state_best_effort E nd) = current_leader_hint nd"
  "apply_halted (sync_committed_state_best_effort E nd) = apply_halted nd"
  "snapshot_chunk_buffers (sync_committed_state_best_effort E nd) = snapshot_chunk_buffers nd"
  "election_timeout_ms (sync_committed_state_best_effort E nd) = election_timeout_ms nd"
  by (simp_all add: sync_committed_state_best_effort_def split: option.split)

lemma sync_peers_keeps [simp]:
  "rn_id (sync_peers_from_voters nd vs m) = rn_id nd"
  "rn_state (sync_peers_from_voters nd vs m) = rn_state nd"
  "current_term (sync_peers_from_voters nd vs m) = current_term nd"
  "voted_for (sync_peers_from_voters nd vs m) = voted_for nd"
  "rlog (sync_peers_from_voters nd vs m) = rlog nd"
  "cluster_secret (sync_peers_from_voters nd vs m) = cluster_secret nd"
  "max_message_age_ms (sync_peers_from_voters nd vs m) = max_message_age_ms nd"
  "max_future_skew_ms (sync_peers_from_voters nd vs m) = max_future_skew_ms nd"
  "replay_cache (sync_peers_from_voters nd vs m) = replay_cache nd"
  "storage (sync_peers_from_voters nd vs m) = storage nd"
  "state_machine (sync_peers_from_voters nd vs m) = state_machine nd"
  "last_snapshot_index (sync_peers_from_voters nd vs m) = last_snapshot_index nd"
  "last_snapshot_term (sync_peers_from_voters nd vs m) = last_snapshot_term nd"
  "snapshot_interval (sync_peers_from_voters nd vs m) = snapshot_interval nd"
  "pending_config_changes (sync_peers_from_voters nd vs m) = pending_config_changes nd"
  "current_leader_hint (sync_peers_from_voters nd vs m) = current_leader_hint nd"
  "apply_halted (sync_peers_from_voters nd vs m) = apply_halted nd"
  "snapshot_chunk_buffers (sync_peers_from_voters nd vs m) = snapshot_chunk_buffers nd"
  by (simp_all add: sync_peers_from_voters_def Let_def)

lemma apply_committed_keeps [simp]:
  "rn_id (apply_committed nd m) = rn_id nd"
  "rn_state (apply_committed nd m) = rn_state nd"
  "current_term (apply_committed nd m) = current_term nd"
  "voted_for (apply_committed nd m) = voted_for nd"
  "cluster_secret (apply_committed nd m) = cluster_secret nd"
  "max_message_age_ms (apply_committed nd m) = max_message_age_ms nd"
  "max_future_skew_ms (apply_committed nd m) = max_future_skew_ms nd"
  "replay_cache (apply_committed nd m) = replay_cache nd"
  "storage (apply_committed nd m) = storage nd"
  "last_snapshot_index (apply_committed nd m) = last_snapshot_index nd"
  "last_snapshot_term (apply_committed nd m) = last_snapshot_term nd"
  "snapshot_interval (apply_committed nd m) = snapshot_interval nd"
  "pending_config_changes (apply_committed nd m) = pending_config_changes nd"
  "current_leader_hint (apply_committed nd m) = current_leader_hint nd"
  "snapshot_chunk_buffers (apply_committed nd m) = snapshot_chunk_buffers nd"
  by (simp_all add: apply_committed_def Let_def split: option.split prod.split)

lemma maybe_snapshot_keeps [simp]:
  "rn_id (maybe_snapshot E nd) = rn_id nd"
  "rn_state (maybe_snapshot E nd) = rn_state nd"
  "current_term (maybe_snapshot E nd) = current_term nd"
  "voted_for (maybe_snapshot E nd) = voted_for nd"
  "peers (maybe_snapshot E nd) = peers nd"
  "cluster_secret (maybe_snapshot E nd) = cluster_secret nd"
  "max_message_age_ms (maybe_snapshot E nd) = max_message_age_ms nd"
  "max_future_skew_ms (maybe_snapshot E nd) = max_future_skew_ms nd"
  "replay_cache (maybe_snapshot E nd) = replay_cache nd"
  "state_machine (maybe_snapshot E nd) = state_machine nd"
  "snapshot_interval (maybe_snapshot E nd) = snapshot_interval nd"
  "pending_config_changes (maybe_snapshot E nd) = pending_config_changes nd"
  "match_index (maybe_snapshot E nd) = match_index nd"
  "next_index (maybe_snapshot E nd) = next_index nd"
  "current_leader_hint (maybe_snapshot E nd) = current_leader_hint nd"
  "snapshot_chunk_buffers (maybe_snapshot E nd) = snapshot_chunk_buffers nd"
  by (simp_all add: maybe_snapshot_def Let_def split: option.split prod.split)

lemma become_follower_term [simp]: "current_term (become_follower E nd t) = t"
  by (simp add: become_follower_def Let_def)

lemma become_follower_vote [simp]:
  "voted_for (become_follower E nd t) = (if t > current_term nd then None else voted_for nd)"
  by (simp add: become_follower_def Let_def)

lemma become_follower_role [simp]: "rn_state (become_follower E nd t) = Follower"
  by (simp add: become_follower_def Let_def)

lemma become_follower_keeps [simp]:
  "rn_id (become_follower E nd t) = rn_id nd"
  "rlog (become_follower E nd t) = rlog nd"
  "peers (become_follower E nd t) = peers nd"
  "cluster_secret (become_follower E nd t) = cluster_secret nd"
  "max_message_age_ms (become_follower E nd t) = max_message_age_ms nd"
  "max_future_skew_ms (become_follower E nd t) = max_future_skew_ms nd"
  "replay_cache (become_follower E nd t) = replay_cache nd"
  "state_machine (become_follower E nd t) = state_machine nd"
  "snapshot_interval (become_follower E nd t) = snapshot_interval nd"
  "last_snapshot_index (become_follower E nd t) = last_snapshot_index nd"
  "last_snapshot_term (become_follower E nd t) = last_snapshot_term nd"
  "pending_config_changes (become_follower E nd t) = pending_config_changes nd"
  "match_index (become_follower E nd t) = match_index nd"
  "next_index (become_follower E nd t) = next_index nd"
  "snapshot_chunk_buffers (become_follower E nd t) = snapshot_chunk_buffers nd"
  "apply_halted (become_follower E nd t) = apply_halted nd"
  by (simp_all add: become_follower_def Let_def)

end
