(* ===== verification/Raft_Auth.thy ===== *)
theory Raft_Auth
  imports Raft_Node
begin

text \<open>
  Signing of replies and verification of every inbound message of \<open>RaftNode\<close>.  A
  verifier returns the node (its replay cache and counters may have changed) and
  whether the message is accepted.  \<open>t_fresh\<close> and \<open>t_replay\<close> are the two wall-clock
  readings a request verifier takes, in this order.
\<close>

section \<open>Limits\<close>

definition MAX_WIRE_FRAME_BYTES :: nat where
  "MAX_WIRE_FRAME_BYTES = 1 * 1024 * 1024"

definition MAX_INSTALL_SNAPSHOT_BYTES :: u64 where
  "MAX_INSTALL_SNAPSHOT_BYTES = 64 * 1024 * 1024"

section \<open>Signing replies\<close>

definition sign_request_vote_reply ::
  "'s Env \<Rightarrow> 's RaftNode \<Rightarrow> u64 \<Rightarrow> RequestVoteReply \<Rightarrow> RequestVoteReply" where
  "sign_request_vote_reply E nd now reply =
     (case cluster_secret nd of
        None \<Rightarrow> reply
      | Some secret \<Rightarrow>
          let reply1 = reply\<lparr>rvr_timestamp_ms := now\<rparr>
          in reply1\<lparr>rvr_hmac :=
               Some (compute_request_vote_reply_hmac (hmac_sha256 E) secret reply1)\<rparr>)"

definition sign_pre_vote_reply ::
  "'s Env \<Rightarrow> 's RaftNode \<Rightarrow> u64 \<Rightarrow> PreVoteReply \<Rightarrow> PreVoteReply" where
  "sign_pre_vote_reply E nd now reply =
     (case cluster_secret nd of
        None \<Rightarrow> reply
      | Some secret \<Rightarrow>
          let reply1 = reply\<lparr>pvr_timestamp_ms := now\<rparr>
          in reply1\<lparr>pvr_hmac := Some (compute_pre_vote_reply_hmac (hmac_sha256 E) secret reply1)\<rparr>)"

definition sign_append_entries_reply ::
  "'s Env \<Rightarrow> 's RaftNode \<Rightarrow> u64 \<Rightarrow> AppendEntriesReply \<Rightarrow> AppendEntriesReply" where
  "sign_append_entries_reply E nd now reply =
     (case cluster_secret nd of
        None \<Rightarrow> reply
      | Some secret \<Rightarrow>
          let reply1 = reply\<lparr>aer_timestamp_ms := now\<rparr>
          in reply1\<lparr>aer_hmac :=
               Some (compute_append_entries_reply_hmac (hmac_sha256 E) secret reply1)\<rparr>)"

definition sign_install_snapshot_reply ::
  "'s Env \<Rightarrow> 's RaftNode \<Rightarrow> u64 \<Rightarrow> InstallSnapshotReply \<Rightarrow> InstallSnapshotReply" where
  "sign_install_snapshot_reply E nd now reply =
     (case cluster_secret nd of
        None \<Rightarrow> reply
      | Some secret \<Rightarrow>
          let reply1 = reply\<lparr>isr_timestamp_ms := now\<rparr>
          in reply1\<lparr>isr_hmac :=
               Some (compute_install_snapshot_reply_hmac (hmac_sha256 E) secret reply1)\<rparr>)"

section \<open>Verifying replies\<close>

definition verify_hmac :: "'s Env \<Rightarrow> bytes \<Rightarrow> bytes \<Rightarrow> bool" where
  "verify_hmac E expected computed = ct_eq E expected computed"

definition record_legacy_reply_hmac_accept :: "'s RaftNode \<Rightarrow> 's RaftNode" where
  "record_legacy_reply_hmac_accept nd =
     nd\<lparr>legacy_reply_hmac_accepts := legacy_reply_hmac_accepts nd + 1\<rparr>"

definition verify_request_vote_reply ::
  "'s Env \<Rightarrow> 's RaftNode \<Rightarrow> u64 \<Rightarrow> RequestVoteReply \<Rightarrow> 's RaftNode \<times> bool" where
  "verify_request_vote_reply E nd t_fresh reply =
     (case cluster_secret nd of
        None \<Rightarrow> (nd, False)
      | Some secret \<Rightarrow>
          if \<not> check_message_freshness t_fresh (rvr_timestamp_ms reply) (max_message_age_ms nd)
                (max_future_skew_ms nd) then (nd, False)
          else case rvr_hmac reply of
            None \<Rightarrow> (nd, False)
          | Some provided \<Rightarrow>
              if verify_hmac E provided
                   (compute_request_vote_reply_hmac (hmac_sha256 E) secret reply) then (nd, True)
              else if accept_legacy_reply_hmac_tags nd \<and> verify_hmac E provided
                   (compute_request_vote_reply_hmac_legacy (hmac_sha256 E) secret reply)
                then (record_legacy_reply_hmac_accept nd, True)
              else (nd, False))"

definition verify_pre_vote_reply ::
  "'s Env \<Rightarrow> 's RaftNode \<Rightarrow> u64 \<Rightarrow> PreVoteReply \<Rightarrow> 's RaftNode \<times> bool" where
  "verify_pre_vote_reply E nd t_fresh reply =
     (case cluster_secret nd of
        None \<Rightarrow> (nd, False)
      | Some secret \<Rightarrow>
          if \<not> check_message_freshness t_fresh (pvr_timestamp_ms reply) (max_message_age_ms nd)
                (max_future_skew_ms nd) then (nd, False)
          else case pvr_hmac reply of
            None \<Rightarrow> (nd, False)
          | Some provided \<Rightarrow>
              if verify_hmac E provided
                   (compute_pre_vote_reply_hmac (hmac_sha256 E) secret reply) then (nd, True)
              else if accept_legacy_reply_hmac_tags nd \<and> verify_hmac E provided
                   (compute_pre_vote_reply_hmac_legacy (hmac_sha256 E) secret reply)
                then (record_legacy_reply_hmac_accept nd, True)
              else (nd, False))"

definition verify_append_entries_reply ::
  "'s Env \<Rightarrow> 's RaftNode \<Rightarrow> u64 \<Rightarrow> AppendEntriesReply \<Rightarrow> 's RaftNode \<times> bool" where
  "verify_append_entries_reply E nd t_fresh reply =
     (case cluster_secret nd of
        None \<Rightarrow> (nd, False)
      | Some secret \<Rightarrow>
          if \<not> check_message_freshness t_fresh (aer_timestamp_ms reply) (max_message_age_ms nd)
                (max_future_skew_ms nd) then (nd, False)
          else case aer_hmac reply of
            None \<Rightarrow> (nd, False)
          | Some provided \<Rightarrow>
              if verify_hmac E provided
                   (compute_append_entries_reply_hmac (hmac_sha256 E) secret reply) then (nd, True)
              else if accept_legacy_reply_hmac_tags nd \<and> verify_hmac E provided
                   (compute_append_entries_reply_hmac_legacy (hmac_sha256 E) secret reply)
                then (record_legacy_reply_hmac_accept nd, True)
              else (nd, False))"

definition verify_install_snapshot_reply ::
  "'s Env \<Rightarrow> 's RaftNode \<Rightarrow> u64 \<Rightarrow> InstallSnapshotReply \<Rightarrow> 's RaftNode \<times> bool" where
  "verify_install_snapshot_reply E nd t_fresh reply =
     (case cluster_secret nd of
        None \<Rightarrow> (nd, False)
      | Some secret \<Rightarrow>
          if \<not> check_message_freshness t_fresh (isr_timestamp_ms reply) (max_message_age_ms nd)
                (max_future_skew_ms nd) then (nd, False)
          else case isr_hmac reply of
            None \<Rightarrow> (nd, False)
          | Some provided \<Rightarrow>
              if verify_hmac E provided
                   (compute_install_snapshot_reply_hmac (hmac_sha256 E) secret reply) then (nd, True)
              else if accept_legacy_reply_hmac_tags nd \<and> verify_hmac E provided
                   (compute_install_snapshot_reply_hmac_legacy (hmac_sha256 E) secret reply)
                then (record_legacy_reply_hmac_accept nd, True)
              else (nd, False))"

section \<open>Verifying requests\<close>

definition verify_request_vote ::
  "'s Env \<Rightarrow> 's RaftNode \<Rightarrow> u64 \<Rightarrow> u64 \<Rightarrow> RequestVoteArgs \<Rightarrow> 's RaftNode \<times> bool" where
  "verify_request_vote E nd t_fresh t_replay args =
     (if length (rv_candidate_id args) > MAX_WIRE_FRAME_BYTES then (nd, False)
      else case cluster_secret nd of
        None \<Rightarrow> (nd, False)
      | Some secret \<Rightarrow>
          if \<not> check_message_freshness t_fresh (rv_timestamp_ms args) (max_message_age_ms nd)
                (max_future_skew_ms nd) then (nd, False)
          else case rv_hmac args of
            None \<Rightarrow> (nd, False)
          | Some provided \<Rightarrow>
              let computed = compute_request_vote_hmac (hmac_sha256 E) secret args in
              if \<not> verify_hmac E provided computed then (nd, False)
              else let (cache, replayed) =
                     check_and_insert (replay_cache nd) computed t_replay (max_message_age_ms nd)
                   in (nd\<lparr>replay_cache := cache\<rparr>, \<not> replayed))"

text \<open>
  The size estimate of a batch, checked after each entry.  It is a \<open>usize\<close> whose
  saturation cannot be reached, since the loop stops at the first sum above the limit.
\<close>

fun frame_too_big :: "nat \<Rightarrow> LogEntry list \<Rightarrow> bool" where
  "frame_too_big estimated [] = False"
| "frame_too_big estimated (e # es) =
     (let estimated' = estimated + length (canonical_bytes (le_command e))
      in if estimated' > MAX_WIRE_FRAME_BYTES then True else frame_too_big estimated' es)"

definition verify_append_entries ::
  "'s Env \<Rightarrow> 's RaftNode \<Rightarrow> u64 \<Rightarrow> u64 \<Rightarrow> AppendEntriesArgs \<Rightarrow> 's RaftNode \<times> bool" where
  "verify_append_entries E nd t_fresh t_replay args =
     (if frame_too_big (length (ae_leader_id args)) (ae_entries args) then (nd, False)
      else case cluster_secret nd of
        None \<Rightarrow> (nd, False)
      | Some secret \<Rightarrow>
          if \<not> check_message_freshness t_fresh (ae_timestamp_ms args) (max_message_age_ms nd)
                (max_future_skew_ms nd) then (nd, False)
          else case ae_hmac args of
            None \<Rightarrow> (nd, False)
          | Some provided \<Rightarrow>
              let computed = compute_append_entries_hmac (hmac_sha256 E) secret args in
              if \<not> verify_hmac E provided computed then (nd, False)
              else let (cache, replayed) =
                     check_and_insert (replay_cache nd) computed t_replay (max_message_age_ms nd)
                   in (nd\<lparr>replay_cache := cache\<rparr>, \<not> replayed))"

definition verify_install_snapshot ::
  "'s Env \<Rightarrow> 's RaftNode \<Rightarrow> u64 \<Rightarrow> u64 \<Rightarrow> InstallSnapshotArgs \<Rightarrow> 's RaftNode \<times> bool" where
  "verify_install_snapshot E nd t_fresh t_replay args =
     (if length (is_data args) > unat MAX_INSTALL_SNAPSHOT_BYTES then (nd, False)
      else if is_total_size args > MAX_INSTALL_SNAPSHOT_BYTES then (nd, False)
      else case cluster_secret nd of
        None \<Rightarrow> (nd, False)
      | Some secret \<Rightarrow>
          if \<not> check_message_freshness t_fresh (is_timestamp_ms args) (max_message_age_ms nd)
                (max_future_skew_ms nd) then (nd, False)
          else case is_hmac args of
            None \<Rightarrow> (nd, False)
          | Some provided \<Rightarrow>
              let computed = compute_install_snapshot_hmac (hmac_sha256 E) secret args in
              if \<not> verify_hmac E provided computed then (nd, False)
              else let (cache, replayed) =
                     check_and_insert (replay_cache nd) computed t_replay (max_message_age_ms nd)
                   in (nd\<lparr>replay_cache := cache\<rparr>, \<not> replayed))"

definition verify_pre_vote :: "'s Env \<Rightarrow> 's RaftNode \<Rightarrow> u64 \<Rightarrow> PreVoteArgs \<Rightarrow> bool" where
  "verify_pre_vote E nd t_fresh args =
     (case cluster_secret nd of
        None \<Rightarrow> False
      | Some secret \<Rightarrow>
          if \<not> check_message_freshness t_fresh (pv_timestamp_ms args) (max_message_age_ms nd)
                (max_future_skew_ms nd) then False
          else case pv_hmac args of
            None \<Rightarrow> False
          | Some provided \<Rightarrow>
              verify_hmac E provided (compute_pre_vote_hmac (hmac_sha256 E) secret args))"

section \<open>What every request verifier guarantees\<close>

text \<open>
  The request verifiers share one course: a size gate, the secret, the freshness
  window, the tag, the replay cache.  The consequences are proved once, for a
  verifier that follows it, and hold of the three verifiers by interpretation.
\<close>

fun verify_seq :: "('s RaftNode \<Rightarrow> u64 \<Rightarrow> u64 \<Rightarrow> 'm \<Rightarrow> 's RaftNode \<times> bool) \<Rightarrow> 's RaftNode \<Rightarrow> (u64 \<times> u64 \<times> 'm) list \<Rightarrow> 's RaftNode" where
  "verify_seq verify nd [] = nd"
| "verify_seq verify nd ((tf, tr, m) # calls) = verify_seq verify (fst (verify nd tf tr m)) calls"

locale request_verifier =
  fixes E :: "'s Env"
    and verify :: "'s RaftNode \<Rightarrow> u64 \<Rightarrow> u64 \<Rightarrow> 'm \<Rightarrow> 's RaftNode \<times> bool"
    and fits :: "'m \<Rightarrow> bool"
    and stamp :: "'m \<Rightarrow> u64"
    and provided :: "'m \<Rightarrow> bytes option"
    and tag :: "bytes \<Rightarrow> 'm \<Rightarrow> bytes"
  assumes verify_course: "verify nd t_fresh t_replay m =
      (case cluster_secret nd of
         None \<Rightarrow> (nd, False)
       | Some secret \<Rightarrow>
           if fits m \<and>
              check_message_freshness t_fresh (stamp m) (max_message_age_ms nd) (max_future_skew_ms nd) \<and>
              (\<exists>p. provided m = Some p \<and> ct_eq E p (tag secret m))
           then (nd\<lparr>replay_cache :=
                  fst (check_and_insert (replay_cache nd) (tag secret m) t_replay (max_message_age_ms nd))\<rparr>,
                 \<not> snd (check_and_insert (replay_cache nd) (tag secret m) t_replay (max_message_age_ms nd)))
           else (nd, False))"
begin

lemma no_secret: "cluster_secret nd = None \<Longrightarrow> verify nd tf tr m = (nd, False)"
  by (simp add: verify_course)

lemma keeps [simp]:
  "rn_id (fst (verify nd tf tr m)) = rn_id nd"
  "rn_state (fst (verify nd tf tr m)) = rn_state nd"
  "current_term (fst (verify nd tf tr m)) = current_term nd"
  "voted_for (fst (verify nd tf tr m)) = voted_for nd"
  "rlog (fst (verify nd tf tr m)) = rlog nd"
  "peers (fst (verify nd tf tr m)) = peers nd"
  "base_election_timeout_ms (fst (verify nd tf tr m)) = base_election_timeout_ms nd"
  "election_timeout_ms (fst (verify nd tf tr m)) = election_timeout_ms nd"
  "last_heartbeat_ms (fst (verify nd tf tr m)) = last_heartbeat_ms nd"
  "cluster_secret (fst (verify nd tf tr m)) = cluster_secret nd"
  "max_message_age_ms (fst (verify nd tf tr m)) = max_message_age_ms nd"
  "max_future_skew_ms (fst (verify nd tf tr m)) = max_future_skew_ms nd"
  "next_index (fst (verify nd tf tr m)) = next_index nd"
  "match_index (fst (verify nd tf tr m)) = match_index nd"
  "storage (fst (verify nd tf tr m)) = storage nd"
  "state_machine (fst (verify nd tf tr m)) = state_machine nd"
  "last_snapshot_index (fst (verify nd tf tr m)) = last_snapshot_index nd"
  "last_snapshot_term (fst (verify nd tf tr m)) = last_snapshot_term nd"
  "snapshot_interval (fst (verify nd tf tr m)) = snapshot_interval nd"
  "vote_rate_limiter (fst (verify nd tf tr m)) = vote_rate_limiter nd"
  "pending_config_changes (fst (verify nd tf tr m)) = pending_config_changes nd"
  "current_leader_hint (fst (verify nd tf tr m)) = current_leader_hint nd"
  "apply_halted (fst (verify nd tf tr m)) = apply_halted nd"
  "snapshot_chunk_buffers (fst (verify nd tf tr m)) = snapshot_chunk_buffers nd"
  by (simp_all add: verify_course split: option.split)

lemma accepted:
  "snd (verify nd tf tr m) \<Longrightarrow>
     \<exists>secret p. cluster_secret nd = Some secret \<and> provided m = Some p \<and> ct_eq E p (tag secret m) \<and>
       check_message_freshness tf (stamp m) (max_message_age_ms nd) (max_future_skew_ms nd) \<and> fits m \<and>
       tag secret m \<notin> dom (seen (replay_cache nd))"
  by (auto simp: verify_course check_and_insert_result split: option.splits if_splits)

lemma cache_wf: "replay_wf (replay_cache nd) \<Longrightarrow> replay_wf (replay_cache (fst (verify nd tf tr m)))"
  by (auto simp: verify_course replay_wf_check split: option.split)

lemma known_rejected:
  "cluster_secret nd = Some secret \<Longrightarrow> tag secret m \<in> dom (seen (replay_cache nd)) \<Longrightarrow>
     \<not> snd (verify nd tf tr m)"
  using accepted by fastforce

lemma accepted_learns:
  assumes "replay_wf (replay_cache nd)" "0 < max_message_age_ms nd" "snd (verify nd tf tr m)"
    and "cluster_secret nd = Some secret"
  shows "tag secret m \<in> dom (seen (replay_cache (fst (verify nd tf tr m))))"
  using assms replay.check_learns [OF assms(1,2), of "tag secret m" tr]
  unfolding verify_course by (simp split: if_splits)

lemma course_cases:
  assumes "cluster_secret nd = Some secret"
  obtains "fst (verify nd tf tr m) = nd"
  | "fst (verify nd tf tr m) =
      nd\<lparr>replay_cache := fst (check_and_insert (replay_cache nd) (tag secret m) tr (max_message_age_ms nd))\<rparr>"
proof -
  have "fst (verify nd tf tr m) = nd \<or> fst (verify nd tf tr m) =
      nd\<lparr>replay_cache := fst (check_and_insert (replay_cache nd) (tag secret m) tr (max_message_age_ms nd))\<rparr>"
    using assms by (simp add: verify_course)
  then show thesis using that by blast
qed

text \<open>Verifying another message costs a remembered tag at most one place in its shard.\<close>

lemma verify_queued:
  assumes "cluster_secret nd = Some secret" and "replay_wf (replay_cache nd)" and "queued (replay_cache nd) mac t k"
    and "k + of_bool (shard_of (tag secret m) = shard_of mac) < REPLAY_CACHE_PER_SHARD_MAX"
    and "saturating_sub tr t < max_message_age_ms nd"
  shows "queued (replay_cache (fst (verify nd tf tr m))) mac t (k + of_bool (shard_of (tag secret m) = shard_of mac))"
proof (cases rule: course_cases [OF assms(1), of tf tr m])
  case 1
  then show ?thesis using assms(3) by (auto simp: queued_def intro: le_SucI)
next
  case 2
  then show ?thesis using queued_check [OF assms(2-5)] by simp
qed

lemma verify_seq_queued:
  "cluster_secret nd = Some secret \<Longrightarrow> replay_wf (replay_cache nd) \<Longrightarrow> queued (replay_cache nd) mac t k \<Longrightarrow>
   k + length (filter (\<lambda>(_, _, m). shard_of (tag secret m) = shard_of mac) calls) < REPLAY_CACHE_PER_SHARD_MAX \<Longrightarrow>
   \<forall>(_, tr, _) \<in> set calls. saturating_sub tr t < max_message_age_ms nd \<Longrightarrow>
   cluster_secret (verify_seq verify nd calls) = Some secret \<and>
   mac \<in> dom (seen (replay_cache (verify_seq verify nd calls)))"
proof (induction calls arbitrary: nd k)
  case Nil
  then show ?case using queued_known by simp
next
  case (Cons call calls)
  obtain tf tr m where call: "call = (tf, tr, m)" by (cases call)
  let ?nd = "fst (verify nd tf tr m)" and ?k = "k + of_bool (shard_of (tag secret m) = shard_of mac)"
  have "queued (replay_cache ?nd) mac t ?k"
    using Cons.prems by (intro verify_queued) (auto simp: call split: if_splits)
  moreover have "?k + length (filter (\<lambda>(_, _, m). shard_of (tag secret m) = shard_of mac) calls)
      < REPLAY_CACHE_PER_SHARD_MAX" using Cons.prems(4) by (simp add: call split: if_splits)
  ultimately show ?case using Cons.IH [of ?nd ?k] Cons.prems by (simp add: call cache_wf)
qed

lemma accepted_queued:
  assumes "replay_wf (replay_cache nd)" "0 < max_message_age_ms nd" "snd (verify nd tf tr m)"
    and "cluster_secret nd = Some secret"
  shows "queued (replay_cache (fst (verify nd tf tr m))) (tag secret m) tr 0"
proof -
  let ?r = "check_and_insert (replay_cache nd) (tag secret m) tr (max_message_age_ms nd)"
  have "fst (verify nd tf tr m) = nd\<lparr>replay_cache := fst ?r\<rparr>" "\<not> snd ?r"
    using assms(3,4) by (auto simp: verify_course split: if_splits)
  then show ?thesis using queued_insert [OF assms(1) _ assms(2), of "tag secret m" tr "fst ?r"]
    by (cases ?r) simp
qed

lemma once:
  assumes "replay_wf (replay_cache nd)" "0 < max_message_age_ms nd" "snd (verify nd tf tr m)"
    and "cluster_secret nd = Some secret"
    and "length (filter (\<lambda>(_, _, m'). shard_of (tag secret m') = shard_of (tag secret m)) calls) < 2048"
    and "\<forall>(_, tr', _) \<in> set calls. saturating_sub tr' tr < max_message_age_ms nd"
  shows "\<not> snd (verify (verify_seq verify (fst (verify nd tf tr m)) calls) tf' tr' m)"
proof -
  let ?nd = "fst (verify nd tf tr m)"
  have "cluster_secret (verify_seq verify ?nd calls) = Some secret \<and>
      tag secret m \<in> dom (seen (replay_cache (verify_seq verify ?nd calls)))"
    using assms(4-6) cache_wf [OF assms(1)] accepted_queued [OF assms(1-4)]
    by (intro verify_seq_queued [where t = tr and k = 0]) (simp_all add: replay_sizes)
  then show ?thesis using known_rejected by blast
qed

end

interpretation rv: request_verifier E "verify_request_vote E"
  "\<lambda>m. length (rv_candidate_id m) \<le> MAX_WIRE_FRAME_BYTES" rv_timestamp_ms rv_hmac
  "compute_request_vote_hmac (hmac_sha256 E)" for E :: "'s Env"
proof (unfold_locales, goal_cases)
  case (1 nd t_fresh t_replay m)
  show ?case
    by (cases "cluster_secret nd"; cases "rv_hmac m")
      (simp_all add: verify_request_vote_def verify_hmac_def Let_def split_def not_less)
qed

interpretation ae: request_verifier E "verify_append_entries E"
  "\<lambda>m. \<not> frame_too_big (length (ae_leader_id m)) (ae_entries m)" ae_timestamp_ms ae_hmac
  "compute_append_entries_hmac (hmac_sha256 E)" for E :: "'s Env"
proof (unfold_locales, goal_cases)
  case (1 nd t_fresh t_replay m)
  show ?case
    by (cases "cluster_secret nd"; cases "ae_hmac m")
      (simp_all add: verify_append_entries_def verify_hmac_def Let_def split_def not_less)
qed

interpretation isn: request_verifier E "verify_install_snapshot E"
  "\<lambda>m. \<not> length (is_data m) > unat MAX_INSTALL_SNAPSHOT_BYTES \<and>
       \<not> is_total_size m > MAX_INSTALL_SNAPSHOT_BYTES" is_timestamp_ms is_hmac
  "compute_install_snapshot_hmac (hmac_sha256 E)" for E :: "'s Env"
proof (unfold_locales, goal_cases)
  case (1 nd t_fresh t_replay m)
  show ?case
    by (cases "cluster_secret nd"; cases "is_hmac m")
      (simp_all add: verify_install_snapshot_def verify_hmac_def Let_def split_def)
qed

text \<open>The requests that go through the replay cache, as one kind of message.\<close>

datatype Request = VoteRequest RequestVoteArgs | AppendRequest AppendEntriesArgs | SnapshotRequest InstallSnapshotArgs

fun verify_request :: "'s Env \<Rightarrow> 's RaftNode \<Rightarrow> u64 \<Rightarrow> u64 \<Rightarrow> Request \<Rightarrow> 's RaftNode \<times> bool" where
  "verify_request E nd tf tr (VoteRequest m) = verify_request_vote E nd tf tr m"
| "verify_request E nd tf tr (AppendRequest m) = verify_append_entries E nd tf tr m"
| "verify_request E nd tf tr (SnapshotRequest m) = verify_install_snapshot E nd tf tr m"

fun request_fits :: "Request \<Rightarrow> bool" where
  "request_fits (VoteRequest m) \<longleftrightarrow> length (rv_candidate_id m) \<le> MAX_WIRE_FRAME_BYTES"
| "request_fits (AppendRequest m) \<longleftrightarrow> \<not> frame_too_big (length (ae_leader_id m)) (ae_entries m)"
| "request_fits (SnapshotRequest m) \<longleftrightarrow> \<not> length (is_data m) > unat MAX_INSTALL_SNAPSHOT_BYTES \<and>
     \<not> is_total_size m > MAX_INSTALL_SNAPSHOT_BYTES"

fun request_stamp :: "Request \<Rightarrow> u64" where
  "request_stamp (VoteRequest m) = rv_timestamp_ms m"
| "request_stamp (AppendRequest m) = ae_timestamp_ms m"
| "request_stamp (SnapshotRequest m) = is_timestamp_ms m"

fun request_hmac :: "Request \<Rightarrow> bytes option" where
  "request_hmac (VoteRequest m) = rv_hmac m"
| "request_hmac (AppendRequest m) = ae_hmac m"
| "request_hmac (SnapshotRequest m) = is_hmac m"

fun request_tag :: "'s Env \<Rightarrow> bytes \<Rightarrow> Request \<Rightarrow> bytes" where
  "request_tag E secret (VoteRequest m) = compute_request_vote_hmac (hmac_sha256 E) secret m"
| "request_tag E secret (AppendRequest m) = compute_append_entries_hmac (hmac_sha256 E) secret m"
| "request_tag E secret (SnapshotRequest m) = compute_install_snapshot_hmac (hmac_sha256 E) secret m"

interpretation req: request_verifier E "verify_request E" request_fits request_stamp request_hmac "request_tag E"
  for E :: "'s Env"
proof (unfold_locales, goal_cases)
  case (1 nd t_fresh t_replay m)
  show ?case
    by (cases m)
      (simp_all only: verify_request.simps request_fits.simps request_stamp.simps request_hmac.simps request_tag.simps
        rv.verify_course ae.verify_course isn.verify_course)
qed

section \<open>What every reply verifier guarantees\<close>

locale reply_verifier =
  fixes E :: "'s Env"
    and verify :: "'s RaftNode \<Rightarrow> u64 \<Rightarrow> 'm \<Rightarrow> 's RaftNode \<times> bool"
    and stamp :: "'m \<Rightarrow> u64"
    and provided :: "'m \<Rightarrow> bytes option"
    and tag legacy_tag :: "bytes \<Rightarrow> 'm \<Rightarrow> bytes"
  assumes verify_course: "verify nd t_fresh m =
      (case cluster_secret nd of
         None \<Rightarrow> (nd, False)
       | Some secret \<Rightarrow>
           (case provided m of
              None \<Rightarrow> (nd, False)
            | Some p \<Rightarrow>
                if \<not> check_message_freshness t_fresh (stamp m) (max_message_age_ms nd)
                     (max_future_skew_ms nd) then (nd, False)
                else if ct_eq E p (tag secret m) then (nd, True)
                else if accept_legacy_reply_hmac_tags nd \<and> ct_eq E p (legacy_tag secret m)
                  then (record_legacy_reply_hmac_accept nd, True)
                else (nd, False)))"
begin

lemma no_secret: "cluster_secret nd = None \<Longrightarrow> verify nd tf m = (nd, False)"
  by (simp add: verify_course)

lemma accepted:
  "snd (verify nd tf m) \<Longrightarrow>
     \<exists>secret p. cluster_secret nd = Some secret \<and> provided m = Some p \<and>
       check_message_freshness tf (stamp m) (max_message_age_ms nd) (max_future_skew_ms nd) \<and>
       (ct_eq E p (tag secret m) \<or>
        accept_legacy_reply_hmac_tags nd \<and> ct_eq E p (legacy_tag secret m))"
  by (auto simp: verify_course split: option.splits if_splits)

lemma keeps [simp]:
  "rn_id (fst (verify nd tf m)) = rn_id nd"
  "rn_state (fst (verify nd tf m)) = rn_state nd"
  "current_term (fst (verify nd tf m)) = current_term nd"
  "voted_for (fst (verify nd tf m)) = voted_for nd"
  "rlog (fst (verify nd tf m)) = rlog nd"
  "peers (fst (verify nd tf m)) = peers nd"
  "storage (fst (verify nd tf m)) = storage nd"
  "state_machine (fst (verify nd tf m)) = state_machine nd"
  "match_index (fst (verify nd tf m)) = match_index nd"
  "next_index (fst (verify nd tf m)) = next_index nd"
  "last_snapshot_index (fst (verify nd tf m)) = last_snapshot_index nd"
  "last_snapshot_term (fst (verify nd tf m)) = last_snapshot_term nd"
  "snapshot_interval (fst (verify nd tf m)) = snapshot_interval nd"
  by (simp_all add: verify_course record_legacy_reply_hmac_accept_def split: option.split)

lemma genuine_accepted:
  "cluster_secret nd = Some secret \<Longrightarrow> provided m = Some (tag secret m) \<Longrightarrow>
   ct_eq E (tag secret m) (tag secret m) \<Longrightarrow>
   check_message_freshness tf (stamp m) (max_message_age_ms nd) (max_future_skew_ms nd) \<Longrightarrow>
     verify nd tf m = (nd, True)"
  by (simp add: verify_course)

end

interpretation rvr: reply_verifier E "verify_request_vote_reply E" rvr_timestamp_ms rvr_hmac
  "compute_request_vote_reply_hmac (hmac_sha256 E)" "compute_request_vote_reply_hmac_legacy (hmac_sha256 E)"
  for E :: "'s Env"
proof (unfold_locales, goal_cases)
  case (1 nd t_fresh m)
  show ?case
    by (cases "cluster_secret nd"; cases "rvr_hmac m")
      (simp_all add: verify_request_vote_reply_def verify_hmac_def)
qed

interpretation pvr: reply_verifier E "verify_pre_vote_reply E" pvr_timestamp_ms pvr_hmac
  "compute_pre_vote_reply_hmac (hmac_sha256 E)" "compute_pre_vote_reply_hmac_legacy (hmac_sha256 E)"
  for E :: "'s Env"
proof (unfold_locales, goal_cases)
  case (1 nd t_fresh m)
  show ?case
    by (cases "cluster_secret nd"; cases "pvr_hmac m")
      (simp_all add: verify_pre_vote_reply_def verify_hmac_def)
qed

interpretation aer: reply_verifier E "verify_append_entries_reply E" aer_timestamp_ms aer_hmac
  "compute_append_entries_reply_hmac (hmac_sha256 E)" "compute_append_entries_reply_hmac_legacy (hmac_sha256 E)"
  for E :: "'s Env"
proof (unfold_locales, goal_cases)
  case (1 nd t_fresh m)
  show ?case
    by (cases "cluster_secret nd"; cases "aer_hmac m")
      (simp_all add: verify_append_entries_reply_def verify_hmac_def)
qed

interpretation isr: reply_verifier E "verify_install_snapshot_reply E" isr_timestamp_ms isr_hmac
  "compute_install_snapshot_reply_hmac (hmac_sha256 E)" "compute_install_snapshot_reply_hmac_legacy (hmac_sha256 E)"
  for E :: "'s Env"
proof (unfold_locales, goal_cases)
  case (1 nd t_fresh m)
  show ?case
    by (cases "cluster_secret nd"; cases "isr_hmac m")
      (simp_all add: verify_install_snapshot_reply_def verify_hmac_def)
qed

section \<open>Properties\<close>

text \<open>
  fail closed.  A node without a cluster secret accepts no request, no pre-vote
  and no reply of any kind, and is unchanged by the attempt.
\<close>

theorem unauthenticated_node_rejects_everything:
  assumes "cluster_secret nd = None"
  shows "verify_request_vote E nd tf tr rv = (nd, False) \<and>
    verify_append_entries E nd tf tr ae = (nd, False) \<and>
    verify_install_snapshot E nd tf tr is = (nd, False) \<and>
    \<not> verify_pre_vote E nd tf pv \<and>
    verify_request_vote_reply E nd tf rvr = (nd, False) \<and>
    verify_pre_vote_reply E nd tf pvr = (nd, False) \<and>
    verify_append_entries_reply E nd tf aer = (nd, False) \<and>
    verify_install_snapshot_reply E nd tf isr = (nd, False)"
  using assms
  by (simp add: rv.no_secret ae.no_secret isn.no_secret rvr.no_secret pvr.no_secret aer.no_secret
      isr.no_secret verify_pre_vote_def)

theorem unauthenticated_node_rejects_everything_witness:
  "\<not> snd (verify_request_vote example_env (node_new ''a'' [''b''] 1000 0) 5 5
     \<lparr>rv_term = 1, rv_candidate_id = ''b'', rv_last_log_index = 0, rv_last_log_term = 0,
      rv_timestamp_ms = 5, rv_hmac = Some [1, 2, 3]\<rparr>)"
  using unauthenticated_node_rejects_everything [of "node_new ''a'' [''b''] 1000 0" example_env 5 5
      "\<lparr>rv_term = 1, rv_candidate_id = ''b'', rv_last_log_index = 0, rv_last_log_term = 0,
       rv_timestamp_ms = 5, rv_hmac = Some [1, 2, 3]\<rparr>"]
  by (simp add: node_new_def with_vote_rate_limiter_config_def)

text \<open>
  C7: accepted requests are authentic and fresh.  With the constant-time comparison
  deciding equality, an accepted vote, append, snapshot or pre-vote request carries exactly
  the tag of its contents under the node's secret and is within the freshness window;
  and the tag of an accepted vote, append or snapshot request was not in the replay cache,
  which pre-vote requests do not use.
\<close>

theorem accepted_requests_are_authentic:
  assumes "\<And>a b. ct_eq E a b \<longleftrightarrow> a = b"
  shows "(snd (verify_request_vote E nd tf tr rv) \<longrightarrow>
      (\<exists>secret. cluster_secret nd = Some secret \<and>
        rv_hmac rv = Some (compute_request_vote_hmac (hmac_sha256 E) secret rv) \<and>
        check_message_freshness tf (rv_timestamp_ms rv) (max_message_age_ms nd) (max_future_skew_ms nd) \<and>
        compute_request_vote_hmac (hmac_sha256 E) secret rv \<notin> dom (seen (replay_cache nd)))) \<and>
    (snd (verify_append_entries E nd tf tr ae) \<longrightarrow>
      (\<exists>secret. cluster_secret nd = Some secret \<and>
        ae_hmac ae = Some (compute_append_entries_hmac (hmac_sha256 E) secret ae) \<and>
        check_message_freshness tf (ae_timestamp_ms ae) (max_message_age_ms nd) (max_future_skew_ms nd) \<and>
        compute_append_entries_hmac (hmac_sha256 E) secret ae \<notin> dom (seen (replay_cache nd)))) \<and>
    (snd (verify_install_snapshot E nd tf tr is) \<longrightarrow>
      (\<exists>secret. cluster_secret nd = Some secret \<and>
        is_hmac is = Some (compute_install_snapshot_hmac (hmac_sha256 E) secret is) \<and>
        check_message_freshness tf (is_timestamp_ms is) (max_message_age_ms nd) (max_future_skew_ms nd) \<and>
        compute_install_snapshot_hmac (hmac_sha256 E) secret is \<notin> dom (seen (replay_cache nd)))) \<and>
    (verify_pre_vote E nd tf pv \<longrightarrow>
      (\<exists>secret. cluster_secret nd = Some secret \<and>
        pv_hmac pv = Some (compute_pre_vote_hmac (hmac_sha256 E) secret pv) \<and>
        check_message_freshness tf (pv_timestamp_ms pv) (max_message_age_ms nd) (max_future_skew_ms nd)))"
proof -
  have "verify_pre_vote E nd tf pv \<longrightarrow>
      (\<exists>secret. cluster_secret nd = Some secret \<and>
        pv_hmac pv = Some (compute_pre_vote_hmac (hmac_sha256 E) secret pv) \<and>
        check_message_freshness tf (pv_timestamp_ms pv) (max_message_age_ms nd) (max_future_skew_ms nd))"
    by (auto simp: verify_pre_vote_def verify_hmac_def assms split: option.splits if_splits)
  then show ?thesis
    using rv.accepted [of E nd tf tr rv] ae.accepted [of E nd tf tr ae] isn.accepted [of E nd tf tr "is"]
    unfolding assms by blast
qed

theorem accepted_requests_are_authentic_witness:
  "snd (verify_request_vote example_env (set_cluster_secret (node_new ''a'' [''b''] 1000 0) [9]) 5 5
     (let rv = \<lparr>rv_term = 1, rv_candidate_id = ''b'', rv_last_log_index = 0, rv_last_log_term = 0,
        rv_timestamp_ms = 5, rv_hmac = None\<rparr>
      in rv\<lparr>rv_hmac := Some ([9] @ request_vote_mac rv)\<rparr>)) \<and>
   \<not> snd (verify_request_vote example_env (set_cluster_secret (node_new ''a'' [''b''] 1000 0) [9]) 5 5
     \<lparr>rv_term = 1, rv_candidate_id = ''b'', rv_last_log_index = 0, rv_last_log_term = 0,
      rv_timestamp_ms = 5, rv_hmac = Some [1]\<rparr>)"
proof -
  let ?nd = "set_cluster_secret (node_new ''a'' [''b''] 1000 0) [9] :: InMemoryStorage RaftNode"
  let ?rv = "\<lparr>rv_term = 1, rv_candidate_id = ''b'', rv_last_log_index = 0, rv_last_log_term = 0,
      rv_timestamp_ms = 5, rv_hmac = Some [1]\<rparr>"
  have "\<not> snd (verify_request_vote example_env ?nd 5 5 ?rv)"
    using accepted_requests_are_authentic [of example_env ?nd 5 5 ?rv]
    by (auto simp: compute_request_vote_hmac_def finalize_mac_def request_vote_mac_eq
        set_cluster_secret_def)
  moreover have "snd (verify_request_vote example_env ?nd 5 5
      (?rv\<lparr>rv_hmac := Some ([9] @ request_vote_mac ?rv)\<rparr>))"
    by (simp add: verify_request_vote_def set_cluster_secret_def node_new_def verify_hmac_def
        with_vote_rate_limiter_config_def check_message_freshness_def MAX_WIRE_FRAME_BYTES_def
        compute_request_vote_hmac_def finalize_mac_def request_vote_mac_eq replay_cache_new_def
        check_and_insert_result split_def)
  ultimately show ?thesis by (simp add: request_vote_mac_eq)
qed

text \<open>
  C8: a request is accepted once.  Take an accepted vote, append or snapshot request, and any
  sequence of such requests, forged ones included, that are verified after it one after the other.
  As long as the clock readings of these verifications lie less than the window after the
  acceptance, and fewer than 2048 of the requests have tags in the shard of the accepted one, the
  accepted request is refused when it is presented again, at any clock readings.
\<close>

theorem accepted_request_not_accepted_again:
  assumes "replay_wf (replay_cache nd)" and "0 < max_message_age_ms nd" and "cluster_secret nd = Some secret"
    and "snd (verify_request E nd tf tr m)"
    and "length (filter (\<lambda>(_, _, m'). shard_of (request_tag E secret m') = shard_of (request_tag E secret m)) calls) < 2048"
    and "\<forall>(_, tr', _) \<in> set calls. saturating_sub tr' tr < max_message_age_ms nd"
  shows "\<not> snd (verify_request E (verify_seq (verify_request E) (fst (verify_request E nd tf tr m)) calls) tf' tr' m)"
  using req.once [OF assms(1,2,4,3,5,6)] .

definition example_vote :: "string \<Rightarrow> RequestVoteArgs" where
  "example_vote candidate = (let rv = \<lparr>rv_term = 1, rv_candidate_id = candidate, rv_last_log_index = 0,
       rv_last_log_term = 0, rv_timestamp_ms = 5, rv_hmac = None\<rparr>
     in rv\<lparr>rv_hmac := Some ([9] @ request_vote_mac rv)\<rparr>)"

theorem accepted_request_not_accepted_again_witness:
  "\<not> snd (verify_request example_env
     (verify_seq (verify_request example_env)
        (fst (verify_request example_env (set_cluster_secret (node_new ''a'' [''b''] 1000 0) [9]) 5 5
          (VoteRequest (example_vote ''b''))))
        [(6, 6, VoteRequest (example_vote ''c''))]) 7 7 (VoteRequest (example_vote ''b'')))"
proof -
  let ?nd = "set_cluster_secret (node_new ''a'' [''b''] 1000 0) [9] :: InMemoryStorage RaftNode"
  have nd: "replay_cache ?nd = replay_cache_new" "max_message_age_ms ?nd = 30000" "cluster_secret ?nd = Some [9]"
    by (simp_all add: set_cluster_secret_def node_new_def with_vote_rate_limiter_config_def)
  have "snd (verify_request example_env ?nd 5 5 (VoteRequest (example_vote ''b'')))"
    by (simp add: verify_request_vote_def set_cluster_secret_def node_new_def verify_hmac_def example_vote_def
        with_vote_rate_limiter_config_def check_message_freshness_def MAX_WIRE_FRAME_BYTES_def
        compute_request_vote_hmac_def finalize_mac_def request_vote_mac_eq replay_cache_new_def
        check_and_insert_result split_def)
  from accepted_request_not_accepted_again [OF _ _ nd(3) this, of "[(6, 6, VoteRequest (example_vote ''c''))]" 7 7]
  show ?thesis by (simp add: nd replay_wf_new saturating_sub_def del: verify_request.simps)
qed

text \<open>
  Replies round-trip.  A reply a node signs at time \<open>t\<close> is accepted by every node
  with the same secret that reads its clock within the freshness window of \<open>t\<close>, and
  acceptance changes nothing (the legacy fallback is not counted).
\<close>

theorem signed_replies_verify:
  assumes "\<And>a b. ct_eq E a b \<longleftrightarrow> a = b"
    and "cluster_secret signer = Some secret" and "cluster_secret nd = Some secret"
    and "check_message_freshness now t (max_message_age_ms nd) (max_future_skew_ms nd)"
  shows "verify_request_vote_reply E nd now (sign_request_vote_reply E signer t rvr) = (nd, True) \<and>
    verify_pre_vote_reply E nd now (sign_pre_vote_reply E signer t pvr) = (nd, True) \<and>
    verify_append_entries_reply E nd now (sign_append_entries_reply E signer t aer) = (nd, True) \<and>
    verify_install_snapshot_reply E nd now (sign_install_snapshot_reply E signer t isr) = (nd, True)"
  using assms
  by (simp add: sign_request_vote_reply_def sign_pre_vote_reply_def sign_append_entries_reply_def
      sign_install_snapshot_reply_def verify_request_vote_reply_def verify_pre_vote_reply_def
      verify_append_entries_reply_def verify_install_snapshot_reply_def verify_hmac_def
      compute_request_vote_reply_hmac_def compute_pre_vote_reply_hmac_def
      compute_append_entries_reply_hmac_def compute_install_snapshot_reply_hmac_def)

theorem signed_replies_verify_witness:
  "snd (verify_append_entries_reply example_env
     (set_cluster_secret (node_new ''a'' [''b''] 1000 0) [9]) 7
     (sign_append_entries_reply example_env
        (set_cluster_secret (node_new ''b'' [''a''] 1000 0) [9]) 5
        \<lparr>aer_term = 1, aer_success = True, aer_timestamp_ms = 0, aer_hmac = None\<rparr>))"
  using signed_replies_verify [of example_env
      "set_cluster_secret (node_new ''b'' [''a''] 1000 0) [9]" "[9]"
      "set_cluster_secret (node_new ''a'' [''b''] 1000 0) [9]" 7 5]
  by (simp add: set_cluster_secret_def node_new_def with_vote_rate_limiter_config_def
      check_message_freshness_def)

end
