(* ===== verification/Raft_Vote.thy ===== *)
theory Raft_Vote
  imports Raft_Auth
begin

text \<open>
  Elections of \<open>RaftNode\<close>: vote requests, pre-votes and the step to candidate.  The
  clock readings of a call are \<open>t_limit\<close> (rate limiter), \<open>t_fresh\<close> and \<open>t_replay\<close>
  (verification) and \<open>now\<close>.
\<close>

section \<open>Operations\<close>

definition handle_request_vote ::
  "'s Env \<Rightarrow> 's RaftNode \<Rightarrow> u64 \<Rightarrow> u64 \<Rightarrow> RequestVoteArgs \<Rightarrow> 's RaftNode \<times> RequestVoteReply" where
  "handle_request_vote E nd t_fresh t_replay args =
     (let (nd1, ok) = verify_request_vote E nd t_fresh t_replay args in
      if \<not> ok then
        (nd1, \<lparr>rvr_term = current_term nd1, rvr_vote_granted = False, rvr_timestamp_ms = 0,
               rvr_hmac = None\<rparr>)
      else
        let nd2 = (if rv_term args > current_term nd1 then become_follower E nd1 (rv_term args)
                   else nd1);
            grant = should_grant_vote nd2 (rv_candidate_id args) (rv_term args)
                      (rv_last_log_index args) (rv_last_log_term args);
            nd3 = (if grant then
                     persist_hard_state E (nd2\<lparr>voted_for := Some (rv_candidate_id args)\<rparr>)
                   else nd2)
        in (nd3, \<lparr>rvr_term = current_term nd3, rvr_vote_granted = grant, rvr_timestamp_ms = 0,
                  rvr_hmac = None\<rparr>))"

definition handle_request_vote_rpc ::
  "'s Env \<Rightarrow> 's RaftNode \<Rightarrow> u64 \<Rightarrow> u64 \<Rightarrow> u64 \<Rightarrow> RequestVoteArgs \<Rightarrow>
   's RaftNode \<times> RequestVoteReply option" where
  "handle_request_vote_rpc E nd t_limit t_fresh t_replay args =
     (let (limiter, ok) = try_consume (vote_rate_limiter nd) (rv_candidate_id args) t_limit;
          nd1 = nd\<lparr>vote_rate_limiter := limiter\<rparr>
      in if \<not> ok then (nd1, None)
         else let (nd2, reply) = handle_request_vote E nd1 t_fresh t_replay args
              in (nd2, Some reply))"

definition handle_pre_vote :: "'s Env \<Rightarrow> 's RaftNode \<Rightarrow> u64 \<Rightarrow> u64 \<Rightarrow> PreVoteArgs \<Rightarrow> PreVoteReply" where
  "handle_pre_vote E nd t_fresh now args =
     (let reply = (\<lambda>trm granted. \<lparr>pvr_term = trm, pvr_vote_granted = granted,
                      pvr_timestamp_ms = 0, pvr_hmac = None\<rparr>)
      in if \<not> verify_pre_vote E nd t_fresh args then reply 0 False
         else if pv_term args < current_term nd then reply (current_term nd) False
         else
           let heard_leader_recently =
                 (case checked_add (last_heartbeat_ms nd) (election_timeout_ms nd) of
                    Some deadline \<Rightarrow> now < deadline
                  | None \<Rightarrow> False)
           in if heard_leader_recently then reply (current_term nd) False
              else
                let up_to_date =
                      (if pv_last_log_term args > last_term (rlog nd) then True
                       else if pv_last_log_term args = last_term (rlog nd)
                         then pv_last_log_index args \<ge> last_index (rlog nd)
                       else False)
                in reply (current_term nd) up_to_date)"

definition prepare_pre_vote :: "'s Env \<Rightarrow> 's RaftNode \<Rightarrow> u64 \<Rightarrow> PreVoteArgs option" where
  "prepare_pre_vote E nd now =
     (case cluster_secret nd of
        None \<Rightarrow> None
      | Some secret \<Rightarrow>
          (case checked_next (current_term nd) of
             None \<Rightarrow> None
           | Some prospective_term \<Rightarrow>
               let args = \<lparr>pv_term = prospective_term, pv_candidate_id = rn_id nd,
                     pv_last_log_index = last_index (rlog nd), pv_last_log_term = last_term (rlog nd),
                     pv_timestamp_ms = now, pv_hmac = None\<rparr>
               in Some (args\<lparr>pv_hmac :=
                    Some (compute_pre_vote_hmac (hmac_sha256 E) secret args)\<rparr>)))"

definition pre_vote_majority_reached :: "'s RaftNode \<Rightarrow> PreVoteReply list \<Rightarrow> bool" where
  "pre_vote_majority_reached nd peer_replies =
     (let grants = 1 + length (filter pvr_vote_granted peer_replies) in grants \<ge> quorum_size nd)"

definition try_become_candidate_with_prevote ::
  "'s Env \<Rightarrow> 's RaftNode \<Rightarrow> PreVoteReply list \<Rightarrow> u64 \<Rightarrow> 's RaftNode \<times> (RaftError + bool)" where
  "try_become_candidate_with_prevote E nd peer_replies jitter =
     (if \<not> pre_vote_majority_reached nd peer_replies then (nd, Inr False)
      else case try_become_candidate E nd jitter of
          (nd', Some err) \<Rightarrow> (nd', Inl err)
        | (nd', None) \<Rightarrow> (nd', Inr True))"

section \<open>Granting votes\<close>

text \<open>The election restriction: the candidate's log is at least as up to date.\<close>

definition up_to_date :: "RaftLog \<Rightarrow> u64 \<Rightarrow> Term \<Rightarrow> bool" where
  "up_to_date l idx trm \<longleftrightarrow> trm > last_term l \<or> trm = last_term l \<and> idx \<ge> last_index l"

lemma should_grant_vote_iff:
  "should_grant_vote nd c trm idx lt \<longleftrightarrow>
     current_term nd \<le> trm \<and> (voted_for nd = None \<or> voted_for nd = Some c) \<and>
     up_to_date (rlog nd) idx lt"
  by (auto simp: should_grant_vote_def up_to_date_def not_less split: option.splits)

lemma should_grant_vote_cong [simp]:
  "should_grant_vote (nd\<lparr>replay_cache := r\<rparr>) = should_grant_vote nd"
  by (intro ext) (simp add: should_grant_vote_def)

text \<open>The node after a vote request, field by field.\<close>

lemma handle_request_vote_granted:
  "rvr_vote_granted (snd (handle_request_vote E nd tf tr args)) \<longleftrightarrow>
     snd (verify_request_vote E nd tf tr args) \<and> current_term nd \<le> rv_term args \<and>
     (current_term nd < rv_term args \<or> voted_for nd = None \<or> voted_for nd = Some (rv_candidate_id args)) \<and>
     up_to_date (rlog nd) (rv_last_log_index args) (rv_last_log_term args)"
  by (cases "verify_request_vote E nd tf tr args")
    (use rv.keeps [of E nd tf tr args] in \<open>auto simp: handle_request_vote_def Let_def should_grant_vote_iff\<close>)

lemma handle_request_vote_term:
  "current_term (fst (handle_request_vote E nd tf tr args)) =
     (if snd (verify_request_vote E nd tf tr args) then max (current_term nd) (rv_term args)
      else current_term nd)"
  by (cases "verify_request_vote E nd tf tr args")
    (use rv.keeps [of E nd tf tr args] in \<open>auto simp: handle_request_vote_def Let_def max_def\<close>)

lemma handle_request_vote_voted_for:
  "voted_for (fst (handle_request_vote E nd tf tr args)) =
     (if rvr_vote_granted (snd (handle_request_vote E nd tf tr args)) then Some (rv_candidate_id args)
      else if snd (verify_request_vote E nd tf tr args) \<and> current_term nd < rv_term args then None
      else voted_for nd)"
  by (cases "verify_request_vote E nd tf tr args")
    (use rv.keeps [of E nd tf tr args] in \<open>auto simp: handle_request_vote_def Let_def\<close>)

lemma handle_request_vote_reply_term:
  "rvr_term (snd (handle_request_vote E nd tf tr args)) =
     current_term (fst (handle_request_vote E nd tf tr args))"
  by (cases "verify_request_vote E nd tf tr args") (auto simp: handle_request_vote_def Let_def)

lemma handle_request_vote_keeps [simp]:
  "rlog (fst (handle_request_vote E nd tf tr args)) = rlog nd"
  "rn_id (fst (handle_request_vote E nd tf tr args)) = rn_id nd"
  "peers (fst (handle_request_vote E nd tf tr args)) = peers nd"
  "state_machine (fst (handle_request_vote E nd tf tr args)) = state_machine nd"
  "last_snapshot_index (fst (handle_request_vote E nd tf tr args)) = last_snapshot_index nd"
  "last_snapshot_term (fst (handle_request_vote E nd tf tr args)) = last_snapshot_term nd"
  using rv.keeps [of E nd tf tr args]
  by (cases "verify_request_vote E nd tf tr args", simp add: handle_request_vote_def Let_def)+

section \<open>Pre-votes\<close>

definition heard_leader :: "'s RaftNode \<Rightarrow> u64 \<Rightarrow> bool" where
  "heard_leader nd now \<longleftrightarrow>
     unat now < unat (last_heartbeat_ms nd) + unat (election_timeout_ms nd) \<and>
     unat (last_heartbeat_ms nd) + unat (election_timeout_ms nd) < 2 ^ 64"

lemma heard_leader_code:
  "(case checked_add (last_heartbeat_ms nd) (election_timeout_ms nd) of
      Some deadline \<Rightarrow> now < deadline | None \<Rightarrow> False) = heard_leader nd now"
  by (auto simp: heard_leader_def checked_add_def word_less_nat_alt unat_word_ariths)

lemma handle_pre_vote_granted:
  "pvr_vote_granted (handle_pre_vote E nd tf now args) \<longleftrightarrow>
     verify_pre_vote E nd tf args \<and> current_term nd \<le> pv_term args \<and> \<not> heard_leader nd now \<and>
     up_to_date (rlog nd) (pv_last_log_index args) (pv_last_log_term args)"
  by (auto simp: handle_pre_vote_def Let_def heard_leader_code up_to_date_def not_less)



lemma try_become_candidate_ok:
  assumes "current_term nd \<noteq> u64_max"
  shows "snd (try_become_candidate E nd j) = None"
    "current_term (fst (try_become_candidate E nd j)) = current_term nd + 1"
    "voted_for (fst (try_become_candidate E nd j)) = Some (rn_id nd)"
    "rn_state (fst (try_become_candidate E nd j)) = Candidate"
  using assms checked_next_Some [of "current_term nd" "current_term nd + 1"]
  by (simp_all add: try_become_candidate_def Let_def)

lemma try_become_candidate_overflow:
  "current_term nd = u64_max \<Longrightarrow> try_become_candidate E nd j = (nd, Some TermOverflow)"
  using checked_next_None [of "current_term nd"] by (simp add: try_become_candidate_def)

lemma pre_vote_majority_from:
  "pre_vote_majority_reached nd (map f ps) \<longleftrightarrow>
     quorum_size nd \<le> 1 + length (filter (\<lambda>p. pvr_vote_granted (f p)) ps)"
  by (simp add: pre_vote_majority_reached_def filter_map o_def)

lemma filter_implies_length:
  "(\<And>x. x \<in> set xs \<Longrightarrow> P x \<Longrightarrow> Q x) \<Longrightarrow> length (filter P xs) \<le> length (filter Q xs)"
  by (induction xs) auto

section \<open>Properties\<close>

text \<open>
  when a vote is granted, and what granting does.  A vote request is granted exactly
  when it verifies, its term is not behind, no other candidate has the node's vote in
  that term, and the candidate's log is at least as up to date; then the node is in the
  request's term with its vote given to that candidate, and answers with that term.  A
  request that is not granted takes at most the newer term and clears the vote with it.
\<close>

theorem vote_request_outcome:
  "let (nd', reply) = handle_request_vote E nd tf tr args;
       ok = snd (verify_request_vote E nd tf tr args)
   in rvr_vote_granted reply =
        (ok \<and> current_term nd \<le> rv_term args \<and>
         (current_term nd < rv_term args \<or> voted_for nd \<in> {None, Some (rv_candidate_id args)}) \<and>
         up_to_date (rlog nd) (rv_last_log_index args) (rv_last_log_term args)) \<and>
      current_term nd' = (if ok then max (current_term nd) (rv_term args) else current_term nd) \<and>
      voted_for nd' =
        (if rvr_vote_granted reply then Some (rv_candidate_id args)
         else if ok \<and> current_term nd < rv_term args then None else voted_for nd) \<and>
      rvr_term reply = current_term nd' \<and> rlog nd' = rlog nd"
proof -
  obtain nd' reply where h: "handle_request_vote E nd tf tr args = (nd', reply)" by fastforce
  show ?thesis
    using handle_request_vote_granted [of E nd tf tr args] handle_request_vote_term [of E nd tf tr args]
      handle_request_vote_voted_for [of E nd tf tr args]
      handle_request_vote_reply_term [of E nd tf tr args] handle_request_vote_keeps(1) [of E nd tf tr args]
    unfolding h by (simp add: Let_def)
qed

text \<open>
  pre-votes protect a live leader.  When so many peers have heard from a leader
  within their election timeout that the others and the candidate are no quorum, the
  pre-vote round fails, whatever the candidate sends, and the candidate keeps its
  whole state, its term included.
\<close>

theorem pre_vote_no_disruption:
  assumes "1 + length (filter (\<lambda>p. \<not> heard_leader (cluster p) (now p)) (peers nd)) < quorum_size nd"
  shows "try_become_candidate_with_prevote E nd
    (map (\<lambda>p. handle_pre_vote E (cluster p) (tf p) (now p) args) (peers nd)) j = (nd, Inr False)"
proof -
  have "length (filter (\<lambda>p. pvr_vote_granted (handle_pre_vote E (cluster p) (tf p) (now p) args)) (peers nd))
      \<le> length (filter (\<lambda>p. \<not> heard_leader (cluster p) (now p)) (peers nd))"
    by (rule filter_implies_length) (simp add: handle_pre_vote_granted)
  with assms have "\<not> pre_vote_majority_reached nd
      (map (\<lambda>p. handle_pre_vote E (cluster p) (tf p) (now p) args) (peers nd))"
    unfolding pre_vote_majority_from by simp
  then show ?thesis by (simp add: try_become_candidate_with_prevote_def)
qed

definition voter_node :: "string \<Rightarrow> InMemoryStorage RaftNode" where
  "voter_node nid = (node_new nid [''a'', ''b''] 150 0)\<lparr>cluster_secret := Some [7]\<rparr>"

definition candidate_node :: "InMemoryStorage RaftNode" where
  "candidate_node = voter_node ''n''"

lemma voter_node_fields:
  "peers (voter_node i) = [''a'', ''b'']" "last_heartbeat_ms (voter_node i) = 0"
  "election_timeout_ms (voter_node i) = 150" "cluster_secret (voter_node i) = Some [7]"
  "current_term (voter_node i) = 0" "rlog (voter_node i) = log_new" "rn_id (voter_node i) = i"
  "max_message_age_ms (voter_node i) = 30000" "max_future_skew_ms (voter_node i) = MAX_FUTURE_SKEW_MS"
  by (simp_all add: voter_node_def node_new_def with_vote_rate_limiter_config_def Let_def)

theorem pre_vote_no_disruption_witness:
  "try_become_candidate_with_prevote example_env candidate_node
    (map (\<lambda>p. handle_pre_vote example_env (voter_node p) 100 100
       (the (prepare_pre_vote example_env candidate_node 100))) (peers candidate_node)) 0 =
   (candidate_node, Inr False)"
  by (rule pre_vote_no_disruption)
    (simp add: candidate_node_def voter_node_fields quorum_size_def heard_leader_def)




text \<open>
  term overflow is an error, not a wrap.  Starting an election fails exactly when the
  term is the largest 64-bit number; then the node is unchanged and no pre-vote is
  prepared.  Otherwise the term grows by exactly one.
\<close>

theorem term_overflow_reported:
  "(snd (try_become_candidate E nd j) = Some TermOverflow) = (current_term nd = u64_max) \<and>
   (if current_term nd = u64_max
    then try_become_candidate E nd j = (nd, Some TermOverflow) \<and> become_candidate E nd j = nd \<and>
         prepare_pre_vote E nd t = None
    else unat (current_term (become_candidate E nd j)) = Suc (unat (current_term nd)) \<and>
         voted_for (become_candidate E nd j) = Some (rn_id nd))"
proof (cases "current_term nd = u64_max")
  case True
  then have "checked_next (current_term nd) = None" by (simp add: checked_next_None)
  with True show ?thesis
    by (auto simp: try_become_candidate_overflow become_candidate_def prepare_pre_vote_def split: option.split)
next
  case False
  with try_become_candidate_ok [OF False, of E j] unat_plus_one [OF False] show ?thesis
    by (simp add: become_candidate_def)
qed

end
