(* ===== verification/Raft_Apply.thy ===== *)
theory Raft_Apply
  imports Raft_Node
begin

text \<open>
  What applying committed entries and compacting do to a node: the invariant
  \<open>node_log_ok\<close> (the log sits right above the last snapshot and the state machine is
  at the applied index) is kept, the state machine advances by exactly the entries
  between the old and the new applied index, in log order, and nothing above the
  applied index is compacted.
\<close>

section \<open>Invariant\<close>

definition node_log_ok :: "'s RaftNode \<Rightarrow> bool" where
  "node_log_ok nd \<longleftrightarrow>
     log_based (last_snapshot_index nd) (rlog nd) \<and>
     (\<forall>sm. state_machine nd = Some sm \<longrightarrow> sm_last_applied sm = applied (rlog nd))"

lemma node_log_ok_new: "node_log_ok (node_new nid nodes base jitter)"
  by (simp add: node_log_ok_def node_new_def with_vote_rate_limiter_config_def log_based_new)

lemma node_log_ok_based: "node_log_ok nd \<Longrightarrow> log_based (last_snapshot_index nd) (rlog nd)"
  by (simp add: node_log_ok_def)

lemma node_log_ok_cong:
  "rlog nd' = rlog nd \<Longrightarrow> last_snapshot_index nd' = last_snapshot_index nd \<Longrightarrow>
   state_machine nd' = state_machine nd \<Longrightarrow> node_log_ok nd' = node_log_ok nd"
  by (simp add: node_log_ok_def)

section \<open>The apply loop\<close>

text \<open>The entries above \<open>lo\<close> up to \<open>hi\<close>.\<close>

definition entries_between :: "RaftLog \<Rightarrow> u64 \<Rightarrow> u64 \<Rightarrow> LogEntry list" where
  "entries_between l lo hi = filter (\<lambda>e. lo < le_index e \<and> le_index e \<le> hi) (entries l)"

lemma entries_between_same [simp]: "entries_between l a a = []"
  by (auto simp: entries_between_def filter_empty_conv)

lemma entries_between_applied [simp]: "entries_between (l\<lparr>applied := a\<rparr>) lo hi = entries_between l lo hi"
  by (simp add: entries_between_def)

lemma entries_between_step:
  assumes wf: "log_wf l" and e: "log_get l nxt = Some e" and nxt: "unat nxt = Suc (unat lo)"
    and hi: "nxt \<le> hi"
  shows "entries_between l lo hi = e # entries_between l nxt hi"
proof -
  from wf e have mem: "e \<in> set (entries l)" and idx: "le_index e = nxt" by (auto simp: log_get_iff)
  then obtain xs ys where es: "entries l = xs @ e # ys" by (meson split_list)
  have "sorted_wrt (\<lambda>x y. le_index x < le_index y) (entries l)"
    using wf by (auto intro: consecutive_sorted)
  then have lower: "\<forall>x \<in> set xs. le_index x < nxt" and upper: "\<forall>y \<in> set ys. nxt < le_index y"
    by (auto simp: es sorted_wrt_append idx)
  have lo_nxt: "lo < i \<longleftrightarrow> nxt \<le> i" for i using nxt by (auto simp: word_less_nat_alt word_le_nat_alt)
  have "filter (\<lambda>x. nxt \<le> le_index x \<and> le_index x \<le> hi) xs = []"
    using lower by (auto simp: filter_empty_conv)
  moreover have "filter (\<lambda>x. nxt < le_index x \<and> le_index x \<le> hi) xs = []"
    using lower by (auto simp: filter_empty_conv)
  moreover have "filter (\<lambda>x. nxt \<le> le_index x \<and> le_index x \<le> hi) ys =
      filter (\<lambda>x. nxt < le_index x \<and> le_index x \<le> hi) ys"
    using upper by (intro filter_cong) auto
  ultimately show ?thesis using hi idx by (simp add: entries_between_def es lo_nxt)
qed

lemma apply_loop_marks:
  assumes "apply_loop sm log saw = (sm', log', saw', failed)" and "applied log \<le> committed log"
  shows "\<exists>a. log' = log\<lparr>applied := a\<rparr> \<and> applied log \<le> a \<and> a \<le> committed log"
  using assms
proof (induction sm log saw arbitrary: sm' log' rule: apply_loop.induct)
  case (1 sm log saw)
  show ?case
  proof (cases "\<exists>entry. applied log < committed log \<and> log_get log (applied log + 1) = Some entry \<and>
      \<not> (is_config_change entry \<and> saw) \<and> (\<exists>out. snd (sm_apply sm entry) = Inr out)")
    case False
    then have "log' = log"
      using "1.prems" by (subst (asm) apply_loop.simps)
        (auto simp: Let_def split: if_splits option.splits prod.splits sum.splits)
    then have "log' = log\<lparr>applied := applied log\<rparr>" by simp
    with "1.prems"(2) show ?thesis by blast
  next
    case True
    then obtain entry out where lt: "applied log < committed log"
      and get: "log_get log (applied log + 1) = Some entry"
      and cc: "\<not> (is_config_change entry \<and> saw)" and out: "snd (sm_apply sm entry) = Inr out" by blast
    obtain sm1 where ap: "sm_apply sm entry = (sm1, Inr out)" using out by (cases "sm_apply sm entry") auto
    let ?log = "log\<lparr>applied := applied log + 1\<rparr>"
    note nxt = log_apply_next [OF lt]
    have rec: "apply_loop sm1 ?log (saw \<or> is_config_change entry) = (sm', log', saw', failed)"
      using "1.prems"(1) lt get cc ap nxt(1) by (subst (asm) apply_loop.simps) (auto simp: Let_def)
    have "applied log + 1 \<le> committed log"
      using lt nxt(2) by (simp add: word_less_nat_alt word_le_nat_alt)
    then obtain a where a: "log' = ?log\<lparr>applied := a\<rparr>" "applied log + 1 \<le> a" "a \<le> committed log"
      using "1.IH" [OF lt refl get cc refl ap [symmetric] refl] rec nxt(1) by auto
    have "applied log \<le> a"
      using a(2) nxt(2) by (simp add: word_le_nat_alt)
    with a show ?thesis by auto
  qed
qed

text \<open>
  On a log above its snapshot, with the machine at the applied index, no entry is
  refused: the machine runs the entries it passes, and the loop ends at the commit
  index or before the second membership entry.
\<close>

lemma apply_loop_run:
  assumes "apply_loop sm log saw = (sm', log', saw', failed)"
    and "log_based b log" and "sm_last_applied sm = applied log"
  shows "\<not> failed \<and> sm_last_applied sm' = applied log' \<and>
    sm' = run_entries sm (entries_between log (applied log) (applied log')) \<and>
    follows (applied log) (entries_between log (applied log) (applied log')) \<and>
    (applied log' = committed log \<or>
     (\<exists>e. log_get log (applied log' + 1) = Some e \<and> is_config_change e \<and> saw'))"
  using assms
proof (induction sm log saw arbitrary: sm' log' rule: apply_loop.induct)
  case (1 sm log saw)
  from "1.prems"(2) have wf: "log_wf log" and ac: "applied log \<le> committed log" and ba: "b \<le> applied log"
    by (auto simp: log_based_def log_wf_def)
  show ?case
  proof (cases "applied log < committed log")
    case False
    with ac have "applied log = committed log" by simp
    with "1.prems" False show ?thesis by (subst (asm) apply_loop.simps) simp
  next
    case lt: True
    note nxt = log_apply_next [OF lt]
    have "committed log \<le> last_index log \<and> entries log \<noteq> []"
      using lt ba "1.prems"(2) by (auto simp: log_based_def log_wf_def last_index_def)
    then have "unat (applied log + 1) \<le> unat b + length (entries log)"
      using lt nxt(2) log_based_last [OF "1.prems"(2)] by (simp add: word_less_nat_alt word_le_nat_alt)
    moreover have "unat b < unat (applied log + 1)" using ba nxt(2) by (simp add: word_le_nat_alt)
    ultimately obtain entry where get: "log_get log (applied log + 1) = Some entry"
      using log_based_get [OF "1.prems"(2)] by simp
    then have idx: "le_index entry = sm_last_applied sm + 1"
      using log_get_index [OF wf get] "1.prems"(3) by simp
    show ?thesis
    proof (cases "is_config_change entry \<and> saw")
      case True
      then have "sm' = sm" "log' = log" "saw'" "\<not> failed"
        using "1.prems"(1) lt get by (subst (asm) apply_loop.simps, simp)+
      with True get "1.prems"(3) show ?thesis by auto
    next
      case cc: False
      obtain sm1 out where ap: "sm_apply sm entry = (sm1, Inr out)"
        using sm_apply_in_order [OF idx] by (cases "sm_apply sm entry") auto
      then have sm1: "sm1 = (command_effect (le_command entry) sm)\<lparr>sm_last_applied := le_index entry\<rparr>"
        using sm_apply_in_order [OF idx] by simp
      let ?log = "log\<lparr>applied := applied log + 1\<rparr>"
      have rec: "apply_loop sm1 ?log (saw \<or> is_config_change entry) = (sm', log', saw', failed)"
        using "1.prems"(1) lt get cc ap nxt(1) by (subst (asm) apply_loop.simps) (auto simp: Let_def)
      have le: "applied log + 1 \<le> committed log"
        using lt nxt(2) by (simp add: word_less_nat_alt word_le_nat_alt)
      have "b \<le> applied log + 1" using ba nxt(2) by (simp add: word_le_nat_alt)
      then have based: "log_based b ?log" using "1.prems"(2) le by (intro log_based_applied)
      have at: "sm_last_applied sm1 = applied ?log" using idx "1.prems"(3) by (simp add: sm1)
      have IH: "\<not> failed \<and> sm_last_applied sm' = applied log' \<and>
          sm' = run_entries sm1 (entries_between ?log (applied ?log) (applied log')) \<and>
          follows (applied ?log) (entries_between ?log (applied ?log) (applied log')) \<and>
          (applied log' = committed ?log \<or>
           (\<exists>e. log_get ?log (applied log' + 1) = Some e \<and> is_config_change e \<and> saw'))"
        by (rule "1.IH" [OF lt refl get cc refl ap [symmetric] refl, unfolded nxt(1), OF rec based at])
      obtain a where "log' = ?log\<lparr>applied := a\<rparr>" "applied log + 1 \<le> a"
        using apply_loop_marks [OF rec] le by auto
      then have "entries_between log (applied log) (applied log') =
          entry # entries_between log (applied log + 1) (applied log')"
        by (intro entries_between_step [OF wf get nxt(2)]) simp
      moreover have "log_get ?log i = log_get log i" for i by (simp add: log_get_def Let_def)
      moreover have "applied log \<noteq> u64_max" using lt word_order.not_eq_extremum by fastforce
      ultimately show ?thesis using IH run_entries_Cons [OF idx] sm1 idx "1.prems"(3) by auto
    qed
  qed
qed

section \<open>Nodes\<close>

lemma apply_committed_log:
  assumes "node_log_ok nd"
  shows "\<exists>a. rlog (apply_committed nd m) = (rlog nd)\<lparr>applied := a\<rparr> \<and>
    applied (rlog nd) \<le> a \<and> a \<le> committed (rlog nd)"
proof (cases "state_machine nd")
  case None
  then have "rlog (apply_committed nd m) = (rlog nd)\<lparr>applied := applied (rlog nd)\<rparr>"
    by (simp add: apply_committed_def)
  moreover have "applied (rlog nd) \<le> committed (rlog nd)"
    using assms by (auto simp: node_log_ok_def log_based_def log_wf_def)
  ultimately show ?thesis by blast
next
  case (Some sm)
  obtain sm' log' saw failed where loop: "apply_loop sm (rlog nd) False = (sm', log', saw, failed)"
    by (cases "apply_loop sm (rlog nd) False") auto
  have "applied (rlog nd) \<le> committed (rlog nd)"
    using assms by (auto simp: node_log_ok_def log_based_def log_wf_def)
  from apply_loop_marks [OF loop this] show ?thesis by (simp add: apply_committed_def Some loop Let_def)
qed

lemma apply_committed_ok:
  assumes "node_log_ok nd"
  shows "node_log_ok (apply_committed nd m)"
proof (cases "state_machine nd")
  case None
  with assms show ?thesis by (simp add: apply_committed_def)
next
  case (Some sm)
  obtain sm' log' saw failed where loop: "apply_loop sm (rlog nd) False = (sm', log', saw, failed)"
    by (cases "apply_loop sm (rlog nd) False") auto
  have based: "log_based (last_snapshot_index nd) (rlog nd)" and at: "sm_last_applied sm = applied (rlog nd)"
    using assms Some by (auto simp: node_log_ok_def)
  obtain a where a: "rlog (apply_committed nd m) = (rlog nd)\<lparr>applied := a\<rparr>"
    "applied (rlog nd) \<le> a" "a \<le> committed (rlog nd)"
    using apply_committed_log [OF assms] by blast
  moreover have "last_snapshot_index nd \<le> a"
    using based a(2) by (auto simp: log_based_def)
  ultimately have "log_based (last_snapshot_index nd) (rlog (apply_committed nd m))"
    using log_based_applied [OF based] by simp
  moreover have "state_machine (apply_committed nd m) = Some sm'" "rlog (apply_committed nd m) = log'"
    by (simp_all add: apply_committed_def Some loop Let_def)
  moreover have "sm_last_applied sm' = applied log'" using apply_loop_run [OF loop based at] by blast
  ultimately show ?thesis by (simp add: node_log_ok_def)
qed

lemma maybe_snapshot_log:
  "rlog (maybe_snapshot E nd) = rlog nd \<and> last_snapshot_index (maybe_snapshot E nd) = last_snapshot_index nd \<or>
   rlog (maybe_snapshot E nd) = discard_through (rlog nd) (applied (rlog nd)) \<and>
     last_snapshot_index (maybe_snapshot E nd) = applied (rlog nd)"
  by (auto simp: maybe_snapshot_def Let_def split: option.split prod.split)

lemma maybe_snapshot_ok:
  assumes "node_log_ok nd"
  shows "node_log_ok (maybe_snapshot E nd)"
proof -
  have based: "log_based (last_snapshot_index nd) (rlog nd)" using assms by (rule node_log_ok_based)
  then have "last_snapshot_index nd \<le> applied (rlog nd)" by (simp add: log_based_def)
  with based have "log_based (applied (rlog nd)) (discard_through (rlog nd) (applied (rlog nd)))"
    by (rule log_based_discard)
  with assms maybe_snapshot_log [of E nd] show ?thesis
    by (auto simp: node_log_ok_def discard_through_watermarks)
qed

lemma maybe_snapshot_marks:
  assumes "node_log_ok nd"
  shows "committed (rlog (maybe_snapshot E nd)) = committed (rlog nd)"
    "applied (rlog (maybe_snapshot E nd)) = applied (rlog nd)"
    "last_snapshot_index nd \<le> last_snapshot_index (maybe_snapshot E nd)"
  using assms maybe_snapshot_log [of E nd]
  by (auto simp: discard_through_watermarks node_log_ok_def log_based_def log_wf_def max_def)

lemma maybe_snapshot_get:
  assumes "node_log_ok nd" and "last_snapshot_index (maybe_snapshot E nd) < i"
  shows "log_get (rlog (maybe_snapshot E nd)) i = log_get (rlog nd) i"
  using assms maybe_snapshot_log [of E nd] log_get_discard [of "rlog nd" "applied (rlog nd)" i]
  by (auto simp: node_log_ok_def)

lemma apply_committed_get:
  "node_log_ok nd \<Longrightarrow> log_get (rlog (apply_committed nd m)) i = log_get (rlog nd) i"
  "node_log_ok nd \<Longrightarrow> committed (rlog (apply_committed nd m)) = committed (rlog nd)"
  "node_log_ok nd \<Longrightarrow> applied (rlog nd) \<le> applied (rlog (apply_committed nd m))"
  using apply_committed_log [of nd m] by (auto simp: log_get_def Let_def)

lemma apply_committed_machine:
  assumes "node_log_ok nd" and "state_machine nd = Some sm"
  shows "state_machine (apply_committed nd m) = Some (run_entries sm
      (entries_between (rlog nd) (applied (rlog nd)) (applied (rlog (apply_committed nd m))))) \<and>
    follows (applied (rlog nd))
      (entries_between (rlog nd) (applied (rlog nd)) (applied (rlog (apply_committed nd m)))) \<and>
    apply_halted (apply_committed nd m) = apply_halted nd \<and>
    (applied (rlog (apply_committed nd m)) = committed (rlog nd) \<or>
     (\<exists>e. log_get (rlog nd) (applied (rlog (apply_committed nd m)) + 1) = Some e \<and> is_config_change e))"
proof -
  obtain sm' log' saw failed where loop: "apply_loop sm (rlog nd) False = (sm', log', saw, failed)"
    by (cases "apply_loop sm (rlog nd) False") auto
  have "state_machine (apply_committed nd m) = Some sm'" "rlog (apply_committed nd m) = log'"
    "apply_halted (apply_committed nd m) = (apply_halted nd \<or> failed)"
    by (simp_all add: apply_committed_def assms(2) loop Let_def)
  moreover have "log_based (last_snapshot_index nd) (rlog nd)" "sm_last_applied sm = applied (rlog nd)"
    using assms by (auto simp: node_log_ok_def)
  ultimately show ?thesis using apply_loop_run [OF loop] by auto
qed

section \<open>Properties\<close>

text \<open>
  C10: applying, on a node whose log rises by one from its snapshot without a gap and whose
  state machine is at the applied index (\<open>node_log_ok\<close>).  There \<open>apply_committed\<close> gives
  the machine exactly the entries between the old and the new applied index, in log order,
  and every one of them succeeds; it does not halt; the applied index never falls and
  stays within the commit index; and it stops only at the commit index or in front of a
  membership entry.  The condition is needed: behind a gap in the log, or with a machine
  that is behind the applied index, the next entry is missing or refused, and in the
  second case the pass ends with \<open>apply_halted\<close> set.  The code does not exclude such a
  node: a batch with a gap is accepted, and a snapshot may be unreadable at a restart.
\<close>

theorem apply_committed_runs_the_log:
  assumes "node_log_ok nd" and "state_machine nd = Some sm"
  shows "let nd' = apply_committed nd m;
      passed = entries_between (rlog nd) (applied (rlog nd)) (applied (rlog nd'))
    in node_log_ok nd' \<and>
      apply_batch sm passed = (the (state_machine nd'), Inr (length passed)) \<and>
      state_machine nd' \<noteq> None \<and> apply_halted nd' = apply_halted nd \<and>
      applied (rlog nd) \<le> applied (rlog nd') \<and> applied (rlog nd') \<le> committed (rlog nd) \<and>
      (applied (rlog nd') = committed (rlog nd) \<or>
       (\<exists>e. log_get (rlog nd) (applied (rlog nd') + 1) = Some e \<and> is_config_change e))"
proof -
  have at: "sm_last_applied sm = applied (rlog nd)" using assms by (simp add: node_log_ok_def)
  note run = apply_committed_machine [OF assms, of m]
  have "snd (apply_batch sm (entries_between (rlog nd) (applied (rlog nd))
      (applied (rlog (apply_committed nd m))))) =
    Inr (length (entries_between (rlog nd) (applied (rlog nd)) (applied (rlog (apply_committed nd m)))))"
    using run by (intro apply_batch_follows) (simp add: at)
  with run show ?thesis
    using apply_committed_ok [OF assms(1), of m] apply_committed_log [OF assms(1), of m]
    by (auto simp: Let_def run_entries_def intro: prod_eqI)
qed

definition example_entry :: "u64 \<Rightarrow> u64 \<Rightarrow> LogEntry" where
  "example_entry t i = \<lparr>le_term = t, le_index = i, le_command = KeySync ''k'' [1]\<rparr>"

definition example_node :: "InMemoryStorage RaftNode" where
  "example_node = (node_new ''a'' [''b'', ''c''] 150 0)
     \<lparr>rlog := \<lparr>entries = [example_entry 1 1, example_entry 1 2], committed = 1, applied = 0\<rparr>,
      current_term := 1, state_machine := Some (sm_new []), snapshot_interval := 1\<rparr>"

lemma example_node_ok: "node_log_ok example_node"
  by (simp add: node_log_ok_def example_node_def log_based_def log_wf_def example_entry_def
      node_new_def with_vote_rate_limiter_config_def sm_new_def)

theorem apply_committed_runs_the_log_witness:
  "node_log_ok example_node \<and> state_machine example_node = Some (sm_new []) \<and>
   node_log_ok (apply_committed example_node 0) \<and> \<not> apply_halted (apply_committed example_node 0)"
  using apply_committed_runs_the_log [OF example_node_ok, of "sm_new []" 0] example_node_ok
  by (simp add: Let_def) (simp add: example_node_def node_new_def with_vote_rate_limiter_config_def)

text \<open>
  Compaction loses durable entries.  When \<open>maybe_snapshot\<close> compacts, it keeps the
  entries above the applied index in memory but removes all of them from the persisted
  log (it truncates the stored log after the snapshot point, not before it); such an
  entry, once persisted and acknowledged, is gone after a restart.
\<close>

theorem compaction_drops_persisted_suffix:
  assumes "store_ops E = in_memory" and "storage nd = Some st"
    and "snapshot_interval nd \<noteq> 0"
    and "last_snapshot_index nd + snapshot_interval nd \<le> applied (rlog nd)"
    and "state_machine nd = Some sm" and "sm_to_vec E (sm_snapshot sm) = Some data"
    and "e \<in> set (entries (rlog nd))" and "applied (rlog nd) < le_index e"
  shows "e \<in> set (entries (rlog (maybe_snapshot E nd))) \<and>
    (\<exists>st'. storage (maybe_snapshot E nd) = Some st' \<and>
      im_log st' = filter (\<lambda>x. le_index x \<le> applied (rlog nd)) (im_log st) \<and> e \<notin> set (im_log st'))"
proof -
  have "\<not> applied (rlog nd) < last_snapshot_index nd + snapshot_interval nd" using assms(4) by simp
  then show ?thesis
    using assms(1-3,5-8)
    by (auto simp: maybe_snapshot_def Let_def in_memory_defs split: option.split)
qed

definition compacting_node :: "InMemoryStorage RaftNode" where
  "compacting_node = example_node
     \<lparr>rlog := \<lparr>entries = [example_entry 1 1, example_entry 1 2], committed = 1, applied = 1\<rparr>,
      storage := Some (in_memory_new\<lparr>im_log := [example_entry 1 1, example_entry 1 2]\<rparr>)\<rparr>"

lemma compacting_node_fields:
  "storage compacting_node = Some (in_memory_new\<lparr>im_log := [example_entry 1 1, example_entry 1 2]\<rparr>)"
  "snapshot_interval compacting_node = 1" "last_snapshot_index compacting_node = 0"
  "rlog compacting_node =
     \<lparr>entries = [example_entry 1 1, example_entry 1 2], committed = 1, applied = 1\<rparr>"
  "state_machine compacting_node = Some (sm_new [])"
  "le_index (example_entry t i) = i" "sm_to_vec example_env s = Some (the (sm_to_vec example_env s))"
  by (simp_all add: compacting_node_def example_node_def node_new_def
      with_vote_rate_limiter_config_def example_env_def example_entry_def)

theorem compaction_drops_persisted_suffix_witness:
  "example_entry 1 2 \<in> set (entries (rlog (maybe_snapshot example_env compacting_node))) \<and>
   (\<exists>st'. storage (maybe_snapshot example_env compacting_node) = Some st' \<and>
     im_log st' = [example_entry 1 1] \<and> example_entry 1 2 \<notin> set (im_log st'))"
  using compaction_drops_persisted_suffix [OF example_env_simps(3) compacting_node_fields(1),
      where sm = "sm_new []" and e = "example_entry 1 2", OF _ _ _ compacting_node_fields(7)]
  by (simp add: compacting_node_fields(1-6) word_le_nat_alt)

end
