(* ===== verification/Raft_Append.thy ===== *)
theory Raft_Append
  imports Raft_Auth Raft_Apply
begin

text \<open>
  \<open>handle_append_entries\<close> of \<open>RaftNode\<close>: the follower's side of log replication.  The
  clock readings of a call, in the order of the source, are \<open>ck_fresh\<close> and \<open>ck_replay\<close>
  (verification), \<open>now\<close> and \<open>ck_heartbeat\<close> (wall and monotonic time of the heartbeat)
  and \<open>ck_sync\<close> (peer synchronisation after a membership entry).
\<close>

record AppendClock =
  ck_fresh :: u64
  ck_replay :: u64
  ck_now :: u64
  ck_heartbeat :: u64
  ck_sync :: u64

section \<open>Operations\<close>

definition append_reply :: "'s RaftNode \<Rightarrow> bool \<Rightarrow> AppendEntriesReply" where
  "append_reply nd ok =
     \<lparr>aer_term = current_term nd, aer_success = ok, aer_timestamp_ms = 0, aer_hmac = None\<rparr>"

text \<open>
  The consistency check on the entry before the batch: the node, possibly with a
  conflicting suffix cut off, and whether to go on.
\<close>

definition check_prev_log ::
  "'s Env \<Rightarrow> 's RaftNode \<Rightarrow> AppendEntriesArgs \<Rightarrow> 's RaftNode \<times> bool" where
  "check_prev_log E nd args =
     (if ae_prev_log_index args > 0 then
        if ae_prev_log_index args < last_snapshot_index nd then (nd, False)
        else if ae_prev_log_index args = last_snapshot_index nd then
          (nd, ae_prev_log_term args = last_snapshot_term nd)
        else
          (case log_get (rlog nd) (ae_prev_log_index args) of
             None \<Rightarrow> (nd, False)
           | Some entry \<Rightarrow>
               if le_term entry \<noteq> ae_prev_log_term args then
                 let trunc_to = ae_prev_log_index args - 1 in
                 case truncate_after (rlog nd) trunc_to of
                   Inl _ \<Rightarrow> (nd, False)
                 | Inr l \<Rightarrow> (persist_truncate E (nd\<lparr>rlog := l\<rparr>) trunc_to, False)
               else (nd, True))
      else (nd, True))"

text \<open>The batch must rise by one from entry to entry (\<open>windows(2)\<close>, wrapping addition).\<close>

fun batch_monotonic :: "LogEntry list \<Rightarrow> bool" where
  "batch_monotonic (e # f # es) = (le_index f = le_index e + 1 \<and> batch_monotonic (f # es))"
| "batch_monotonic _ = True"

text \<open>
  The append loop: the node, the entries newly appended (in order), and whether the
  whole batch was taken.
\<close>

fun append_batch ::
  "'s Env \<Rightarrow> 's RaftNode \<Rightarrow> LogEntry list \<Rightarrow> LogEntry list \<Rightarrow> 's RaftNode \<times> LogEntry list \<times> bool" where
  "append_batch E nd newly_appended [] = (nd, newly_appended, True)"
| "append_batch E nd newly_appended (entry # es) =
     (case log_get (rlog nd) (le_index entry) of
        Some existing \<Rightarrow>
          if le_term existing \<noteq> le_term entry then
            let trunc_to = le_index entry - 1 in
            (case truncate_after (rlog nd) trunc_to of
               Inl _ \<Rightarrow> (nd, newly_appended, False)
             | Inr l \<Rightarrow>
                 let nd1 = persist_truncate E (nd\<lparr>rlog := l\<rparr>) trunc_to
                 in append_batch E (nd1\<lparr>rlog := log_append (rlog nd1) entry\<rparr>)
                      (newly_appended @ [entry]) es)
          else append_batch E nd newly_appended es
      | None \<Rightarrow>
          append_batch E (nd\<lparr>rlog := log_append (rlog nd) entry\<rparr>) (newly_appended @ [entry]) es)"

definition advance_follower_commit :: "'s Env \<Rightarrow> 's RaftNode \<Rightarrow> AppendEntriesArgs \<Rightarrow> 's RaftNode" where
  "advance_follower_commit E nd args =
     (if ae_leader_commit args > committed (rlog nd) then
        let last_new = (if ae_entries args = [] then ae_prev_log_index args
                        else le_index (last (ae_entries args)));
            new_commit = min (ae_leader_commit args) last_new
        in sync_committed_state_best_effort E (nd\<lparr>rlog := log_commit (rlog nd) new_commit\<rparr>)
      else nd)"

definition handle_append_entries ::
  "'s Env \<Rightarrow> 's RaftNode \<Rightarrow> AppendClock \<Rightarrow> AppendEntriesArgs \<Rightarrow> 's RaftNode \<times> AppendEntriesReply" where
  "handle_append_entries E nd ck args =
     (let (nd1, ok) = verify_append_entries E nd (ck_fresh ck) (ck_replay ck) args in
      if \<not> ok then (nd1, append_reply nd1 False)
      else if ae_term args < current_term nd1 then (nd1, append_reply nd1 False)
      else
        let nd2 = (if ae_term args > current_term nd1 then become_follower E nd1 (ae_term args)
                   else if rn_state nd1 \<noteq> Follower then become_follower E nd1 (ae_term args)
                   else nd1);
            nd3 = nd2\<lparr>current_leader_hint := Some (ae_leader_id args)\<rparr>;
            nd4 = record_heartbeat nd3 (ck_now ck) (ck_heartbeat ck);
            (nd5, consistent) = check_prev_log E nd4 args
        in if \<not> consistent then (nd5, append_reply nd5 False)
           else if \<not> batch_monotonic (ae_entries args) then (nd5, append_reply nd5 False)
           else
             let (nd6, newly_appended, taken) = append_batch E nd5 [] (ae_entries args) in
             if \<not> taken then (nd6, append_reply nd6 False)
             else
               let nd7 = (if newly_appended \<noteq> [] then persist_appended E nd6 newly_appended else nd6);
                   nd8 = advance_follower_commit E nd7 args;
                   nd9 = apply_committed nd8 (ck_sync ck);
                   nd10 = maybe_snapshot E nd9
               in (nd10, append_reply nd10 True))"

section \<open>Merging a batch into a log\<close>

text \<open>
  The append loop as a function on logs alone, and what merging one entry does.
\<close>

fun merge_log :: "RaftLog \<Rightarrow> LogEntry list \<Rightarrow> RaftLog \<times> bool" where
  "merge_log l [] = (l, True)"
| "merge_log l (e # es) =
     (case log_get l (le_index e) of
        Some x \<Rightarrow>
          if le_term x \<noteq> le_term e then
            (case truncate_after l (le_index e - 1) of
               Inl _ \<Rightarrow> (l, False)
             | Inr l' \<Rightarrow> merge_log (log_append l' e) es)
          else merge_log l es
      | None \<Rightarrow> merge_log (log_append l e) es)"

lemma append_batch_log:
  "rlog (fst (append_batch E nd acc es)) = fst (merge_log (rlog nd) es)"
  "snd (snd (append_batch E nd acc es)) = snd (merge_log (rlog nd) es)"
  by (induction es arbitrary: nd acc) (simp_all add: Let_def split: option.split sum.split)

definition merges :: "RaftLog \<Rightarrow> LogEntry \<Rightarrow> RaftLog \<Rightarrow> bool" where
  "merges l e l1 \<longleftrightarrow>
     log_get l (le_index e) = None \<and> l1 = log_append l e \<or>
     (\<exists>x t. log_get l (le_index e) = Some x \<and> le_term x \<noteq> le_term e \<and>
        truncate_after l (le_index e - 1) = Inr t \<and> l1 = log_append t e) \<or>
     (\<exists>x. log_get l (le_index e) = Some x \<and> le_term x = le_term e \<and> l1 = l)"

lemma merge_log_Cons:
  "merge_log l (e # es) = (l', ok) \<Longrightarrow> l' = l \<and> \<not> ok \<or> (\<exists>l1. merges l e l1 \<and> merge_log l1 es = (l', ok))"
  by (auto simp: merges_def split: option.splits if_splits sum.splits)

lemma length_filter_consecutive:
  "consecutive es \<Longrightarrow> es \<noteq> [] \<Longrightarrow> unat (le_index (hd es)) \<le> Suc (unat a) \<Longrightarrow>
   unat a \<le> unat (le_index (last es)) \<Longrightarrow>
   length (filter (\<lambda>e. le_index e \<le> a) es) = Suc (unat a) - unat (le_index (hd es))"
proof (induction es rule: consecutive.induct)
  case (3 e f es)
  show ?case
  proof (cases "unat (le_index e) \<le> unat a")
    case True
    with 3 show ?thesis by (auto simp: word_le_nat_alt)
  next
    case False
    have "unat a < unat (le_index x)" if "x \<in> set (e # f # es)" for x
      using that False 3(2) consecutive_hd_le [of "e # f # es" x] by (auto simp: word_le_nat_alt)
    then have "filter (\<lambda>e. le_index e \<le> a) (e # f # es) = []"
      by (auto simp: filter_empty_conv word_le_nat_alt not_le)
    with False 3 show ?thesis by simp
  qed
qed (auto simp: word_le_nat_alt)

lemma log_next_truncate:
  assumes based: "log_based b l" and tr: "truncate_after l a = Inr t" and a: "unat a < log_next l"
  shows "log_next t = Suc (unat a)"
proof -
  have es: "entries t = filter (\<lambda>e. le_index e \<le> a) (entries l)"
    using based tr by (auto intro: truncate_after_entries)
  have ba: "unat b \<le> unat a"
    using log_based_committed [OF based] truncate_after_Inr(1) [OF tr] by (auto simp: word_le_nat_alt)
  have "length (entries t) = unat a - unat b"
  proof (cases "entries l = []")
    case True
    with a ba log_based_next [OF based] es show ?thesis by simp
  next
    case False
    then have "unat (le_index (hd (entries l))) = Suc (unat b)" using based by (simp add: log_based_def)
    moreover have "unat a \<le> unat (le_index (last (entries l)))"
      using a False by (simp add: log_next_def last_index_def)
    ultimately show ?thesis
      using length_filter_consecutive [of "entries l" a] based False ba es
      by (auto dest!: log_based_wf log_wf_consecutive)
  qed
  with log_based_next [OF log_based_truncate [OF based tr]] ba show ?thesis by simp
qed

text \<open>
  Merging one entry either leaves the log as it is or keeps exactly what lies below the
  entry and puts the entry on top; a committed entry is never below the cut.
\<close>

lemma merges_outcome:
  assumes based: "log_based b l" and lo: "unat b < unat (le_index e)" and hi: "unat (le_index e) \<le> log_next l"
    and m: "merges l e l1"
  obtains (appended) t where "l1 = log_append t e" "log_based b t" "unat (le_index e) = log_next t"
      "committed t = committed l" "applied t = applied l" "committed t < le_index e"
      "\<And>i. log_get t i = (if i < le_index e then log_get l i else None)"
    | (kept) x where "l1 = l" "log_get l (le_index e) = Some x" "le_term x = le_term e"
proof -
  note nxt = log_based_next [OF based]
  consider (none) "log_get l (le_index e) = None" "l1 = log_append l e"
    | (conflict) x t where "log_get l (le_index e) = Some x" "truncate_after l (le_index e - 1) = Inr t"
        "l1 = log_append t e"
    | (same) x where "log_get l (le_index e) = Some x" "le_term x = le_term e" "l1 = l"
    using m by (auto simp: merges_def)
  then show thesis
  proof cases
    case none
    then have top: "unat (le_index e) = log_next l"
      using log_based_get [OF based, of "le_index e"] lo hi nxt by (auto split: if_splits)
    have "log_get l i = (if i < le_index e then log_get l i else None)" for i
      using log_based_get [OF based, of i] top nxt by (auto simp: word_less_nat_alt)
    moreover have "committed l < le_index e"
      using top based by (auto simp: log_based_def log_wf_def log_next_def last_index_def word_less_nat_alt
          word_le_nat_alt split: if_splits)
    ultimately show ?thesis using none top based appended by metis
  next
    case conflict
    have pred: "Suc (unat (le_index e - 1)) = unat (le_index e)"
      using lo by (metis Suc_unat_minus_one not_less_zero unat_0)
    have "unat (le_index e) = log_next t"
      using hi pred log_next_truncate [OF based conflict(2)] by simp
    moreover have "log_get t i = (if i < le_index e then log_get l i else None)" for i
      using log_get_truncate [OF log_based_wf [OF based] conflict(2), of i] pred
      by (auto simp: word_le_nat_alt word_less_nat_alt)
    moreover have "committed t < le_index e"
      using truncate_after_Inr [OF conflict(2)] pred by (simp add: word_le_nat_alt word_less_nat_alt)
    ultimately show ?thesis
      using appended [OF conflict(3) log_based_truncate [OF based conflict(2)]]
        truncate_after_watermarks [OF conflict(2)] by simp
  next
    case same
    then show ?thesis using kept by blast
  qed
qed

lemma merges_spec:
  assumes based: "log_based b l" and lo: "unat b < unat (le_index e)" and hi: "unat (le_index e) \<le> log_next l"
    and m: "merges l e l1"
  shows "log_based b l1 \<and> committed l1 = committed l \<and> applied l1 = applied l"
    "Suc (unat (le_index e)) \<le> log_next l1"
    "\<exists>x. log_get l1 (le_index e) = Some x \<and> le_term x = le_term e \<and> (x = e \<or> log_get l (le_index e) = Some x)"
    "i < le_index e \<or> i \<le> committed l \<Longrightarrow> log_get l1 i = log_get l i"
    "le_index e < i \<Longrightarrow> log_get l1 i = Some x \<Longrightarrow> log_get l i = Some x"
proof -
  have above: "Suc (unat (le_index e)) \<le> log_next l" if "log_get l (le_index e) = Some x" for x
    using that log_based_get [OF based, of "le_index e"] log_based_next [OF based] by (auto split: if_splits)
  have "log_next (log_append t e) = Suc (unat (le_index e))" for t
    by (simp add: log_next_def last_index_def)
  with above show "Suc (unat (le_index e)) \<le> log_next l1"
    by (cases rule: merges_outcome [OF assms]) auto
  show "log_based b l1 \<and> committed l1 = committed l \<and> applied l1 = applied l"
    by (cases rule: merges_outcome [OF assms]) (auto simp: log_based_append based)
  show "\<exists>x. log_get l1 (le_index e) = Some x \<and> le_term x = le_term e \<and> (x = e \<or> log_get l (le_index e) = Some x)"
    by (cases rule: merges_outcome [OF assms]) (auto simp: log_get_append)
  show "log_get l1 i = log_get l i" if "i < le_index e \<or> i \<le> committed l"
  proof (cases rule: merges_outcome [OF assms])
    case (1 t)
    then have "i < le_index e" using that by auto
    with 1 show ?thesis using log_get_append [of t e i] by auto
  qed simp
  show "log_get l i = Some x" if "le_index e < i" "log_get l1 i = Some x"
    using that by (cases rule: merges_outcome [OF assms]) (auto simp: log_get_append split: if_splits)
qed

definition batch_fits :: "u64 \<Rightarrow> RaftLog \<Rightarrow> LogEntry list \<Rightarrow> bool" where
  "batch_fits b l es \<longleftrightarrow>
     consecutive es \<and>
     (es \<noteq> [] \<longrightarrow> unat b < unat (le_index (hd es)) \<and> unat (le_index (hd es)) \<le> log_next l)"

lemma batch_fits_step:
  assumes "batch_fits b l (e # es)" and "log_based b l" and "merges l e l1"
  shows "batch_fits b l1 es" "unat b < unat (le_index e)" "unat (le_index e) \<le> log_next l"
proof -
  show lo: "unat b < unat (le_index e)" and hi: "unat (le_index e) \<le> log_next l"
    using assms(1) by (auto simp: batch_fits_def)
  show "batch_fits b l1 es"
  proof (cases es)
    case Nil
    then show ?thesis by (simp add: batch_fits_def)
  next
    case (Cons f fs)
    then have "unat (le_index f) = Suc (unat (le_index e))" "consecutive es"
      using assms(1) by (auto simp: batch_fits_def)
    with Cons lo merges_spec(2) [OF assms(2) lo hi assms(3)] show ?thesis by (simp add: batch_fits_def)
  qed
qed

lemma consecutive_Cons_greater: "consecutive (e # es) \<Longrightarrow> f \<in> set es \<Longrightarrow> le_index e < le_index f"
  using consecutive_sorted by fastforce

lemma merge_log_based:
  "merge_log l es = (l', ok) \<Longrightarrow> log_based b l \<Longrightarrow> batch_fits b l es \<Longrightarrow>
   log_based b l' \<and> committed l' = committed l \<and> applied l' = applied l"
proof (induction es arbitrary: l)
  case (Cons e es)
  from merge_log_Cons [OF Cons.prems(1)] show ?case
  proof (elim disjE exE conjE)
    fix l1 assume m: "merges l e l1" and rest: "merge_log l1 es = (l', ok)"
    note fits = batch_fits_step [OF Cons.prems(3,2) m]
    show ?thesis using Cons.IH [OF rest] merges_spec(1) [OF Cons.prems(2) fits(2,3) m] fits(1) by simp
  qed (use Cons.prems in simp)
qed simp

lemma merge_log_below:
  "merge_log l es = (l', ok) \<Longrightarrow> log_based b l \<Longrightarrow> batch_fits b l es \<Longrightarrow>
   es = [] \<or> i < le_index (hd es) \<or> i \<le> committed l \<Longrightarrow> log_get l' i = log_get l i"
proof (induction es arbitrary: l)
  case (Cons e es)
  from merge_log_Cons [OF Cons.prems(1)] show ?case
  proof (elim disjE exE conjE)
    fix l1 assume m: "merges l e l1" and rest: "merge_log l1 es = (l', ok)"
    note fits = batch_fits_step [OF Cons.prems(3,2) m]
    note spec = merges_spec [OF Cons.prems(2) fits(2,3) m]
    have "i < le_index (hd es)" if "i < le_index e" "es \<noteq> []"
      using that Cons.prems(3) consecutive_Cons_greater [of e es "hd es"]
      by (auto simp: batch_fits_def)
    then show ?thesis
      using Cons.IH [OF rest _ fits(1)] spec(1) spec(4) [of i] Cons.prems(4) by auto
  qed (use Cons.prems in simp)
qed simp

lemma merge_log_contains:
  "merge_log l es = (l', True) \<Longrightarrow> log_based b l \<Longrightarrow> batch_fits b l es \<Longrightarrow> e \<in> set es \<Longrightarrow>
   \<exists>x. log_get l' (le_index e) = Some x \<and> le_term x = le_term e \<and> (x = e \<or> log_get l (le_index e) = Some x)"
proof (induction es arbitrary: l)
  case (Cons f es)
  from merge_log_Cons [OF Cons.prems(1)] obtain l1
    where m: "merges l f l1" and rest: "merge_log l1 es = (l', True)" by auto
  note fits = batch_fits_step [OF Cons.prems(3,2) m]
  note spec = merges_spec [OF Cons.prems(2) fits(2,3) m]
  have cons: "consecutive (f # es)" using Cons.prems(3) by (simp add: batch_fits_def)
  show ?case
  proof (cases "e \<in> set es")
    case True
    with Cons.IH [OF rest _ fits(1)] spec(1) obtain x where x: "log_get l' (le_index e) = Some x"
      "le_term x = le_term e" "x = e \<or> log_get l1 (le_index e) = Some x" by blast
    with spec(5) [of "le_index e" x] consecutive_Cons_greater [OF cons True] show ?thesis by blast
  next
    case False
    with Cons.prems(4) have e: "e = f" by simp
    have "es = [] \<or> le_index f < le_index (hd es)"
      using consecutive_Cons_greater [OF cons] by (cases es) auto
    then have "log_get l' (le_index f) = log_get l1 (le_index f)"
      using merge_log_below [OF rest _ fits(1)] spec(1) by blast
    with e spec(3) show ?thesis by simp
  qed
qed simp

lemma merge_log_origin:
  "merge_log l es = (l', ok) \<Longrightarrow> log_based b l \<Longrightarrow> batch_fits b l es \<Longrightarrow> log_get l' i = Some x \<Longrightarrow>
   log_get l i = Some x \<or> x \<in> set es"
proof (induction es arbitrary: l)
  case (Cons e es)
  from merge_log_Cons [OF Cons.prems(1)] show ?case
  proof (elim disjE exE conjE)
    fix l1 assume m: "merges l e l1" and rest: "merge_log l1 es = (l', ok)"
    note fits = batch_fits_step [OF Cons.prems(3,2) m]
    note spec = merges_spec [OF Cons.prems(2) fits(2,3) m]
    have "log_get l1 i = Some x \<or> x \<in> set es"
      using Cons.IH [OF rest _ fits(1)] spec(1) Cons.prems(4) by blast
    then show ?thesis
      using spec(3) spec(4) [of i] spec(5) [of i x] by (cases i "le_index e" rule: linorder_cases) auto
  qed (use Cons.prems in simp)
qed simp

section \<open>The handler in two halves\<close>

text \<open>
  \<open>append_accept\<close> is the node after the role change of an accepted call, \<open>append_rest\<close>
  what the call does from the consistency check on.
\<close>

definition append_accept :: "'s Env \<Rightarrow> 's RaftNode \<Rightarrow> AppendClock \<Rightarrow> AppendEntriesArgs \<Rightarrow> 's RaftNode" where
  "append_accept E nd ck args =
     record_heartbeat
       ((if ae_term args > current_term nd \<or> rn_state nd \<noteq> Follower
         then become_follower E nd (ae_term args) else nd)
        \<lparr>current_leader_hint := Some (ae_leader_id args)\<rparr>) (ck_now ck) (ck_heartbeat ck)"

definition append_rest ::
  "'s Env \<Rightarrow> 's RaftNode \<Rightarrow> AppendClock \<Rightarrow> AppendEntriesArgs \<Rightarrow> 's RaftNode \<times> AppendEntriesReply" where
  "append_rest E nd ck args =
     (let (nd5, consistent) = check_prev_log E nd args in
      if \<not> consistent \<or> \<not> batch_monotonic (ae_entries args) then (nd5, append_reply nd5 False)
      else
        let (nd6, newly_appended, taken) = append_batch E nd5 [] (ae_entries args) in
        if \<not> taken then (nd6, append_reply nd6 False)
        else
          let nd7 = (if newly_appended \<noteq> [] then persist_appended E nd6 newly_appended else nd6);
              nd8 = maybe_snapshot E (apply_committed (advance_follower_commit E nd7 args) (ck_sync ck))
          in (nd8, append_reply nd8 True))"

lemma handle_append_entries_halves:
  "handle_append_entries E nd ck args =
     (let nd1 = fst (verify_append_entries E nd (ck_fresh ck) (ck_replay ck) args) in
      if snd (verify_append_entries E nd (ck_fresh ck) (ck_replay ck) args) \<and> current_term nd \<le> ae_term args
      then append_rest E (append_accept E nd1 ck args) ck args
      else (nd1, append_reply nd1 False))"
  by (cases "verify_append_entries E nd (ck_fresh ck) (ck_replay ck) args")
    (use ae.keeps(3) [of E nd "ck_fresh ck" "ck_replay ck" args] in
      \<open>auto simp: handle_append_entries_def append_rest_def append_accept_def Let_def not_less split_def
        record_heartbeat_def\<close>)

lemma append_accept_keeps [simp]:
  "rn_id (append_accept E nd ck args) = rn_id nd"
  "rlog (append_accept E nd ck args) = rlog nd"
  "peers (append_accept E nd ck args) = peers nd"
  "state_machine (append_accept E nd ck args) = state_machine nd"
  "snapshot_interval (append_accept E nd ck args) = snapshot_interval nd"
  "last_snapshot_index (append_accept E nd ck args) = last_snapshot_index nd"
  "last_snapshot_term (append_accept E nd ck args) = last_snapshot_term nd"
  by (simp_all add: append_accept_def record_heartbeat_def)

lemma append_accept_role:
  assumes "current_term nd \<le> ae_term args"
  shows "current_term (append_accept E nd ck args) = ae_term args"
    "rn_state (append_accept E nd ck args) = Follower"
    "current_leader_hint (append_accept E nd ck args) = Some (ae_leader_id args)"
    "voted_for (append_accept E nd ck args) =
       (if current_term nd < ae_term args then None else voted_for nd)"
  using assms by (auto simp: append_accept_def record_heartbeat_def)

lemma append_batch_keeps [simp]:
  "rn_id (fst (append_batch E nd acc es)) = rn_id nd"
  "rn_state (fst (append_batch E nd acc es)) = rn_state nd"
  "current_term (fst (append_batch E nd acc es)) = current_term nd"
  "voted_for (fst (append_batch E nd acc es)) = voted_for nd"
  "peers (fst (append_batch E nd acc es)) = peers nd"
  "state_machine (fst (append_batch E nd acc es)) = state_machine nd"
  "snapshot_interval (fst (append_batch E nd acc es)) = snapshot_interval nd"
  "last_snapshot_index (fst (append_batch E nd acc es)) = last_snapshot_index nd"
  "last_snapshot_term (fst (append_batch E nd acc es)) = last_snapshot_term nd"
  by (induction es arbitrary: nd acc; simp add: Let_def split: option.split sum.split)+

lemma check_prev_log_keeps [simp]:
  "rn_id (fst (check_prev_log E nd args)) = rn_id nd"
  "rn_state (fst (check_prev_log E nd args)) = rn_state nd"
  "current_term (fst (check_prev_log E nd args)) = current_term nd"
  "voted_for (fst (check_prev_log E nd args)) = voted_for nd"
  "peers (fst (check_prev_log E nd args)) = peers nd"
  "state_machine (fst (check_prev_log E nd args)) = state_machine nd"
  "snapshot_interval (fst (check_prev_log E nd args)) = snapshot_interval nd"
  "last_snapshot_index (fst (check_prev_log E nd args)) = last_snapshot_index nd"
  "last_snapshot_term (fst (check_prev_log E nd args)) = last_snapshot_term nd"
  by (simp_all add: check_prev_log_def Let_def split: option.split sum.split)

lemma advance_follower_commit_keeps [simp]:
  "rn_id (advance_follower_commit E nd args) = rn_id nd"
  "rn_state (advance_follower_commit E nd args) = rn_state nd"
  "current_term (advance_follower_commit E nd args) = current_term nd"
  "voted_for (advance_follower_commit E nd args) = voted_for nd"
  "peers (advance_follower_commit E nd args) = peers nd"
  "state_machine (advance_follower_commit E nd args) = state_machine nd"
  "snapshot_interval (advance_follower_commit E nd args) = snapshot_interval nd"
  "last_snapshot_index (advance_follower_commit E nd args) = last_snapshot_index nd"
  "last_snapshot_term (advance_follower_commit E nd args) = last_snapshot_term nd"
  by (simp_all add: advance_follower_commit_def Let_def)

lemma append_rest_keeps [simp]:
  "rn_id (fst (append_rest E nd ck args)) = rn_id nd"
  "rn_state (fst (append_rest E nd ck args)) = rn_state nd"
  "current_term (fst (append_rest E nd ck args)) = current_term nd"
  "voted_for (fst (append_rest E nd ck args)) = voted_for nd"
  "snapshot_interval (fst (append_rest E nd ck args)) = snapshot_interval nd"
  by (simp_all add: append_rest_def Let_def split_def)

section \<open>The consistency check\<close>

definition prev_ok :: "'s RaftNode \<Rightarrow> AppendEntriesArgs \<Rightarrow> bool" where
  "prev_ok nd args \<longleftrightarrow>
     ae_prev_log_index args = 0 \<or>
     ae_prev_log_index args = last_snapshot_index nd \<and> ae_prev_log_term args = last_snapshot_term nd \<or>
     last_snapshot_index nd < ae_prev_log_index args \<and>
       (\<exists>e. log_get (rlog nd) (ae_prev_log_index args) = Some e \<and> le_term e = ae_prev_log_term args)"

lemma check_prev_log_ok: "snd (check_prev_log E nd args) \<longleftrightarrow> prev_ok nd args"
  by (auto simp: check_prev_log_def prev_ok_def Let_def word_gt_0 split: option.split sum.split)

lemma check_prev_log_same: "prev_ok nd args \<Longrightarrow> check_prev_log E nd args = (nd, True)"
  by (auto simp: check_prev_log_def prev_ok_def Let_def word_gt_0 split: option.split sum.split)

lemma check_prev_log_log:
  "rlog (fst (check_prev_log E nd args)) = rlog nd \<or>
   (\<exists>a. truncate_after (rlog nd) a = Inr (rlog (fst (check_prev_log E nd args))))"
  by (auto simp: check_prev_log_def Let_def split: option.split sum.split)

text \<open>
  A batch placed as a leader places it: consecutive, starting right behind the entry it
  names, and naming entry 0 only to a node without a snapshot.
\<close>

definition well_placed :: "'s RaftNode \<Rightarrow> AppendEntriesArgs \<Rightarrow> bool" where
  "well_placed nd args \<longleftrightarrow>
     consecutive (ae_entries args) \<and>
     (ae_entries args \<noteq> [] \<longrightarrow>
        unat (le_index (hd (ae_entries args))) = Suc (unat (ae_prev_log_index args))) \<and>
     (ae_prev_log_index args = 0 \<longrightarrow> last_snapshot_index nd = 0)"

lemma well_placed_fits:
  assumes "log_based (last_snapshot_index nd) (rlog nd)" and "well_placed nd args" and "prev_ok nd args"
  shows "batch_fits (last_snapshot_index nd) (rlog nd) (ae_entries args)"
proof -
  have "unat (last_snapshot_index nd) \<le> unat (ae_prev_log_index args) \<and>
      Suc (unat (ae_prev_log_index args)) \<le> log_next (rlog nd)"
    using assms(2,3) log_based_next [OF assms(1)] log_based_get [OF assms(1), of "ae_prev_log_index args"]
    by (auto simp: prev_ok_def well_placed_def word_less_nat_alt split: if_splits)
  with assms(2) show ?thesis by (auto simp: well_placed_def batch_fits_def)
qed

section \<open>What the handler does to the log\<close>

definition batch_end :: "AppendEntriesArgs \<Rightarrow> u64" where
  "batch_end args =
     (if ae_entries args = [] then ae_prev_log_index args else le_index (last (ae_entries args)))"

definition follower_commit :: "AppendEntriesArgs \<Rightarrow> RaftLog \<Rightarrow> RaftLog" where
  "follower_commit args l =
     (if ae_leader_commit args > committed l
      then log_commit l (min (ae_leader_commit args) (batch_end args)) else l)"

lemma advance_follower_commit_log:
  "rlog (advance_follower_commit E nd args) = follower_commit args (rlog nd)"
  by (simp add: advance_follower_commit_def follower_commit_def batch_end_def Let_def)

lemma append_rest_cases:
  obtains (rejected) "\<not> aer_success (snd (append_rest E nd ck args))"
      "rlog (fst (append_rest E nd ck args)) = rlog nd \<or>
       (\<exists>a. truncate_after (rlog nd) a = Inr (rlog (fst (append_rest E nd ck args)))) \<or>
       prev_ok nd args \<and> rlog (fst (append_rest E nd ck args)) = fst (merge_log (rlog nd) (ae_entries args))"
      "last_snapshot_index (fst (append_rest E nd ck args)) = last_snapshot_index nd"
      "state_machine (fst (append_rest E nd ck args)) = state_machine nd"
    | (taken) ndc where "aer_success (snd (append_rest E nd ck args))" "prev_ok nd args"
      "snd (merge_log (rlog nd) (ae_entries args))"
      "fst (append_rest E nd ck args) = maybe_snapshot E (apply_committed ndc (ck_sync ck))"
      "rlog ndc = follower_commit args (fst (merge_log (rlog nd) (ae_entries args)))"
      "last_snapshot_index ndc = last_snapshot_index nd" "state_machine ndc = state_machine nd"
proof (cases "prev_ok nd args")
  case False
  then have "append_rest E nd ck args =
      (fst (check_prev_log E nd args), append_reply (fst (check_prev_log E nd args)) False)"
    by (cases "check_prev_log E nd args")
      (use check_prev_log_ok [of E nd args] in \<open>simp add: append_rest_def\<close>)
  with check_prev_log_log [of E nd args] show ?thesis by (intro rejected) (auto simp: append_reply_def)
next
  case True
  note same = check_prev_log_same [OF True, of E]
  obtain nd6 new ok where batch: "append_batch E nd [] (ae_entries args) = (nd6, new, ok)"
    by (cases "append_batch E nd [] (ae_entries args)") auto
  note merge = append_batch_log [of E nd "[]" "ae_entries args", unfolded batch]
    and keep = append_batch_keeps [of E nd "[]" "ae_entries args", unfolded batch]
  show ?thesis
  proof (cases "batch_monotonic (ae_entries args) \<and> ok")
    case False
    then show ?thesis
      using merge keep True by (intro rejected) (auto simp: append_rest_def same batch append_reply_def)
  next
    case ok: True
    show ?thesis
      by (rule taken [of "advance_follower_commit E
            (if new \<noteq> [] then persist_appended E nd6 new else nd6) args"])
        (use ok merge keep True in
          \<open>simp_all add: append_rest_def same batch append_reply_def Let_def advance_follower_commit_log\<close>)
  qed
qed

lemma log_based_follower_commit: "log_based b l \<Longrightarrow> log_based b (follower_commit args l)"
  by (simp add: follower_commit_def log_based_commit)

lemma follower_commit_get [simp]: "log_get (follower_commit args l) i = log_get l i"
  by (simp add: follower_commit_def)

lemma follower_commit_applied [simp]: "applied (follower_commit args l) = applied l"
  by (simp add: follower_commit_def)

lemma follower_commit_mono: "committed l \<le> committed (follower_commit args l)"
  by (simp add: follower_commit_def log_commit_mono)

lemma follower_commit_bound:
  "committed (follower_commit args l) \<le> max (committed l) (min (ae_leader_commit args) (batch_end args))"
  by (auto simp: follower_commit_def log_commit_def)

lemma merge_log_node_ok:
  assumes "node_log_ok nd" and "well_placed nd args" and "prev_ok nd args"
    and "rlog nd' = follower_commit args' (fst (merge_log (rlog nd) (ae_entries args))) \<or>
      rlog nd' = fst (merge_log (rlog nd) (ae_entries args))"
    and "last_snapshot_index nd' = last_snapshot_index nd" and "state_machine nd' = state_machine nd"
  shows "node_log_ok nd'"
proof -
  note based = node_log_ok_based [OF assms(1)]
  obtain l ok where m: "merge_log (rlog nd) (ae_entries args) = (l, ok)" by fastforce
  have "log_based (last_snapshot_index nd) l \<and> committed l = committed (rlog nd) \<and> applied l = applied (rlog nd)"
    by (rule merge_log_based [OF m based well_placed_fits [OF based assms(2,3)]])
  with assms(1,4-6) show ?thesis
    by (auto simp: node_log_ok_def m log_based_follower_commit)
qed

lemma truncate_node_ok:
  assumes "node_log_ok nd" and "truncate_after (rlog nd) a = Inr (rlog nd')"
    and "last_snapshot_index nd' = last_snapshot_index nd" and "state_machine nd' = state_machine nd"
  shows "node_log_ok nd'"
  using assms log_based_truncate [OF node_log_ok_based [OF assms(1)] assms(2)]
    truncate_after_watermarks [OF assms(2)]
  by (auto simp: node_log_ok_def)

lemma append_rest_ok:
  assumes "node_log_ok nd" and "well_placed nd args"
  shows "node_log_ok (fst (append_rest E nd ck args))"
proof (cases rule: append_rest_cases [of E nd ck args])
  case rejected
  from rejected(2) show ?thesis
  proof (elim disjE exE conjE)
    assume "rlog (fst (append_rest E nd ck args)) = rlog nd"
    with rejected assms(1) show ?thesis by (simp add: node_log_ok_def)
  qed (use rejected assms truncate_node_ok merge_log_node_ok in blast)+
next
  case (taken ndc)
  then have "node_log_ok ndc" using merge_log_node_ok [OF assms] by blast
  with taken show ?thesis by (simp add: apply_committed_ok maybe_snapshot_ok)
qed

lemma finish_marks:
  assumes "node_log_ok ndc"
  shows "committed (rlog (maybe_snapshot E (apply_committed ndc m))) = committed (rlog ndc)"
    "applied (rlog ndc) \<le> applied (rlog (maybe_snapshot E (apply_committed ndc m)))"
    "last_snapshot_index ndc \<le> last_snapshot_index (maybe_snapshot E (apply_committed ndc m))"
    "last_snapshot_index (maybe_snapshot E (apply_committed ndc m)) < i \<Longrightarrow>
       log_get (rlog (maybe_snapshot E (apply_committed ndc m))) i = log_get (rlog ndc) i"
  using maybe_snapshot_marks [OF apply_committed_ok [OF assms, of m], of E]
    maybe_snapshot_get [OF apply_committed_ok [OF assms, of m], of E i] apply_committed_get [OF assms]
  by auto

section \<open>Committed entries under any batch\<close>

text \<open>
  A log that starts with \<open>pre\<close>, whose indices rise by one from \<open>b\<close>.  Reading an index that
  \<open>pre\<close> covers does not depend on what follows.
\<close>

definition starts_with :: "u64 \<Rightarrow> LogEntry list \<Rightarrow> RaftLog \<Rightarrow> bool" where
  "starts_with b pre l \<longleftrightarrow>
     consecutive pre \<and> (pre \<noteq> [] \<longrightarrow> unat (le_index (hd pre)) = Suc (unat b)) \<and> (\<exists>rest. entries l = pre @ rest)"

lemma starts_with_get:
  assumes "starts_with b pre l" and "b < i" and "unat i \<le> unat b + length pre"
  shows "log_get l i = Some (pre ! (unat i - unat b - 1))"
proof -
  obtain rest where rest: "entries l = pre @ rest" using assms(1) by (auto simp: starts_with_def)
  have bi: "unat b < unat i" using assms(2) by (simp add: word_less_nat_alt)
  then have ne: "pre \<noteq> []" using assms(3) by auto
  then have first: "unat (le_index (hd pre)) = Suc (unat b)" using assms(1) by (simp add: starts_with_def)
  then have le: "le_index (hd pre) \<le> i" using bi by (simp add: word_le_nat_alt)
  then have "unat (i - le_index (hd pre)) = unat i - unat b - 1" by (simp add: unat_minus_le first)
  moreover have "unat i - unat b - 1 < length pre" using bi assms(3) by linarith
  ultimately show ?thesis
    using ne le bi by (auto simp: log_get_def rest Let_def nth_append not_less)
qed

lemma merge_log_starts:
  "merge_log l es = (l', ok) \<Longrightarrow> entries l = pre @ rest \<Longrightarrow> \<forall>e \<in> set pre. le_index e \<le> committed l \<Longrightarrow>
   (\<exists>rest'. entries l' = pre @ rest') \<and> committed l' = committed l \<and> applied l' = applied l"
proof (induction es arbitrary: l rest)
  case (Cons e es)
  from merge_log_Cons [OF Cons.prems(1)] show ?case
  proof (elim disjE exE conjE)
    fix l1 assume m: "merges l e l1" and next_: "merge_log l1 es = (l', ok)"
    have "(\<exists>rest1. entries l1 = pre @ rest1) \<and> committed l1 = committed l \<and> applied l1 = applied l"
      using m unfolding merges_def
    proof (elim disjE exE conjE)
      fix x t assume tr: "truncate_after l (le_index e - 1) = Inr t" and l1: "l1 = log_append t e"
      have "\<forall>x \<in> set pre. le_index x \<le> le_index e - 1"
        using Cons.prems(3) truncate_after_Inr(1) [OF tr] by (meson order_trans)
      then have "entries t = pre @ takeWhile (\<lambda>x. le_index x \<le> le_index e - 1) rest"
        using truncate_after_Inr(3) [OF tr] Cons.prems(2) by (simp add: takeWhile_append2)
      then show ?thesis using l1 truncate_after_watermarks [OF tr] by simp
    qed (use Cons.prems(2) in auto)
    then show ?thesis using Cons.IH [OF next_] Cons.prems(3) by auto
  qed (use Cons.prems in auto)
qed auto

text \<open>The entries of a node's log up to its commit index.\<close>

definition committed_prefix :: "RaftLog \<Rightarrow> LogEntry list" where
  "committed_prefix l = takeWhile (\<lambda>e. le_index e \<le> committed l) (entries l)"

lemma committed_prefix_starts:
  assumes "log_based b l"
  shows "starts_with b (committed_prefix l) l" "\<forall>e \<in> set (committed_prefix l). le_index e \<le> committed l"
    "unat b + length (committed_prefix l) = unat (committed l)"
proof -
  note bc = log_based_committed [OF assms]
  have con: "consecutive (entries l)" using assms by auto
  have tr: "truncate_after l (committed l) = Inr (l\<lparr>entries := committed_prefix l\<rparr>)"
    using assms by (auto simp: truncate_after_def committed_prefix_def take_partition_point log_based_def log_wf_def)
  have based: "log_based b (l\<lparr>entries := committed_prefix l\<rparr>)" using log_based_truncate [OF assms tr] .
  have split: "entries l = committed_prefix l @ dropWhile (\<lambda>e. le_index e \<le> committed l) (entries l)"
    by (simp add: committed_prefix_def)
  show "starts_with b (committed_prefix l) l"
    using based split unfolding starts_with_def by (auto simp: log_based_def log_wf_def)
  show "\<forall>e \<in> set (committed_prefix l). le_index e \<le> committed l"
    by (auto simp: committed_prefix_def dest: set_takeWhileD)
  have "log_next (l\<lparr>entries := committed_prefix l\<rparr>) = Suc (unat (committed l))"
  proof (rule log_next_truncate [OF assms tr])
    show "unat (committed l) < log_next l"
      using assms by (auto simp: log_based_def log_wf_def log_next_def last_index_def word_le_nat_alt)
  qed
  then show "unat b + length (committed_prefix l) = unat (committed l)"
    using log_based_next [OF based] by simp
qed

text \<open>Compacting up to an index that \<open>pre\<close> covers drops exactly the beginning of \<open>pre\<close>.\<close>

lemma starts_with_discard:
  assumes "starts_with b pre l" and "b \<le> u"
  shows "starts_with u (drop (unat u - unat b) pre) (discard_through l u)"
proof -
  obtain rest where rest: "entries l = pre @ rest" and con: "consecutive pre"
    using assms(1) by (auto simp: starts_with_def)
  have at: "unat (le_index (pre ! k)) = Suc (unat b + k)" if "k < length pre" for k
  proof -
    have "pre \<noteq> []" using that by auto
    then show ?thesis using consecutive_nth [OF con that] assms(1) by (simp add: starts_with_def)
  qed
  let ?n = "unat u - unat b"
  have bu: "unat b \<le> unat u" using assms(2) by (simp add: word_le_nat_alt)
  have low: "filter (\<lambda>e. u < le_index e) (take ?n pre) = []"
    using at bu by (auto simp: filter_empty_conv in_set_conv_nth word_less_nat_alt)
  have high: "filter (\<lambda>e. u < le_index e) (drop ?n pre) = drop ?n pre"
    using at bu by (auto simp: filter_id_conv in_set_conv_nth word_less_nat_alt)
  have "filter (\<lambda>e. u < le_index e) pre = drop ?n pre"
    using low high by (metis append_Nil append_take_drop_id filter_append)
  then have "entries (discard_through l u) = drop ?n pre @ filter (\<lambda>e. u < le_index e) rest"
    by (simp add: rest)
  moreover have "consecutive (drop ?n pre)" using con by (metis append_take_drop_id consecutive_append_right)
  moreover have "unat (le_index (hd (drop ?n pre))) = Suc (unat u)" if "drop ?n pre \<noteq> []"
    using that at [of ?n] bu by (simp add: hd_drop_conv_nth)
  ultimately show ?thesis by (auto simp: starts_with_def)
qed

text \<open>Applying and compacting, on a log of which only the committed beginning is known.\<close>

lemma apply_committed_any:
  assumes "applied (rlog nd) \<le> committed (rlog nd)"
  shows "\<exists>a. rlog (apply_committed nd m) = (rlog nd)\<lparr>applied := a\<rparr> \<and> applied (rlog nd) \<le> a \<and> a \<le> committed (rlog nd)"
proof (cases "state_machine nd")
  case None
  then have "rlog (apply_committed nd m) = (rlog nd)\<lparr>applied := applied (rlog nd)\<rparr>" by (simp add: apply_committed_def)
  with assms show ?thesis by blast
next
  case (Some sm)
  obtain sm' log' saw failed where loop: "apply_loop sm (rlog nd) False = (sm', log', saw, failed)"
    by (cases "apply_loop sm (rlog nd) False") auto
  from apply_loop_marks [OF loop assms] show ?thesis by (simp add: apply_committed_def Some loop Let_def)
qed

lemma finish_any:
  assumes "applied (rlog nd) \<le> committed (rlog nd)" and "last_snapshot_index nd \<le> applied (rlog nd)"
    and "starts_with (last_snapshot_index nd) pre (rlog nd)"
  shows "committed (rlog (maybe_snapshot E (apply_committed nd m))) = committed (rlog nd) \<and>
    applied (rlog nd) \<le> applied (rlog (maybe_snapshot E (apply_committed nd m))) \<and>
    last_snapshot_index nd \<le> last_snapshot_index (maybe_snapshot E (apply_committed nd m)) \<and>
    (\<forall>i. last_snapshot_index (maybe_snapshot E (apply_committed nd m)) < i \<and>
       unat i \<le> unat (last_snapshot_index nd) + length pre \<longrightarrow>
       log_get (rlog (maybe_snapshot E (apply_committed nd m))) i = log_get (rlog nd) i)"
proof -
  let ?nd = "apply_committed nd m" and ?b = "last_snapshot_index nd"
  obtain a where a: "rlog ?nd = (rlog nd)\<lparr>applied := a\<rparr>" "applied (rlog nd) \<le> a" "a \<le> committed (rlog nd)"
    using apply_committed_any [OF assms(1), of m] by blast
  have ba: "?b \<le> a" using assms(2) a(2) by simp
  have st: "starts_with ?b pre (rlog ?nd)" using assms(3) by (simp add: starts_with_def a(1))
  have same: "log_get (rlog ?nd) i = log_get (rlog nd) i" for i by (simp add: a(1) log_get_def Let_def)
  from maybe_snapshot_log [of E ?nd] show ?thesis
  proof (elim disjE conjE)
    assume "rlog (maybe_snapshot E ?nd) = rlog ?nd" "last_snapshot_index (maybe_snapshot E ?nd) = last_snapshot_index ?nd"
    then show ?thesis using a same by simp
  next
    assume r: "rlog (maybe_snapshot E ?nd) = discard_through (rlog ?nd) (applied (rlog ?nd))"
      "last_snapshot_index (maybe_snapshot E ?nd) = applied (rlog ?nd)"
    have "log_get (discard_through (rlog ?nd) a) i = log_get (rlog nd) i"
      if i: "a < i" "unat i \<le> unat ?b + length pre" for i
    proof -
      have n: "unat ?b \<le> unat a" "unat a < unat i" using ba i(1) by (simp_all add: word_le_nat_alt word_less_nat_alt)
      have "log_get (discard_through (rlog ?nd) a) i =
          Some (drop (unat a - unat ?b) pre ! (unat i - unat a - 1))"
        using i n by (intro starts_with_get [OF starts_with_discard [OF st ba]]) auto
      also have "\<dots> = Some (pre ! (unat i - unat ?b - 1))" using i n by simp
      also have "\<dots> = log_get (rlog nd) i"
        using i n by (intro starts_with_get [OF assms(3), symmetric]) (auto simp: word_less_nat_alt)
      finally show ?thesis .
    qed
    then show ?thesis using a ba r by (simp add: discard_through_watermarks max_def)
  qed
qed

lemma append_rest_any:
  assumes ok: "node_log_ok nd"
  shows "committed (rlog nd) \<le> committed (rlog (fst (append_rest E nd ck args))) \<and>
    applied (rlog nd) \<le> applied (rlog (fst (append_rest E nd ck args))) \<and>
    last_snapshot_index nd \<le> last_snapshot_index (fst (append_rest E nd ck args)) \<and>
    committed (rlog (fst (append_rest E nd ck args))) \<le>
      max (committed (rlog nd)) (min (ae_leader_commit args) (batch_end args)) \<and>
    (\<forall>i. last_snapshot_index (fst (append_rest E nd ck args)) < i \<and> i \<le> committed (rlog nd) \<longrightarrow>
       log_get (rlog (fst (append_rest E nd ck args))) i = log_get (rlog nd) i)"
proof -
  let ?b = "last_snapshot_index nd" and ?pre = "committed_prefix (rlog nd)"
  note based = node_log_ok_based [OF ok]
  note pre = committed_prefix_starts [OF based]
  obtain lm okm where m: "merge_log (rlog nd) (ae_entries args) = (lm, okm)" by fastforce
  obtain rest where "entries (rlog nd) = ?pre @ rest" using pre(1) by (auto simp: starts_with_def)
  from merge_log_starts [OF m this pre(2)]
  have lm: "starts_with ?b ?pre lm" "committed lm = committed (rlog nd)" "applied lm = applied (rlog nd)"
    using pre(1) by (auto simp: starts_with_def)
  have get: "log_get lm i = log_get (rlog nd) i" if "?b < i" "i \<le> committed (rlog nd)" for i
    using that pre(3) starts_with_get [OF lm(1) that(1)] starts_with_get [OF pre(1) that(1)]
    by (simp add: word_le_nat_alt)
  have marks: "?b \<le> applied (rlog nd)" "applied (rlog nd) \<le> committed (rlog nd)"
    using based by (auto simp: log_based_def log_wf_def)
  show ?thesis
  proof (cases rule: append_rest_cases [of E nd ck args])
    case rejected
    from rejected(2) show ?thesis
    proof (elim disjE exE conjE)
      fix a assume tr: "truncate_after (rlog nd) a = Inr (rlog (fst (append_rest E nd ck args)))"
      have "i \<le> a" if "i \<le> committed (rlog nd)" for i using truncate_after_Inr(1) [OF tr] that by simp
      then show ?thesis
        using log_get_truncate [OF log_based_wf [OF based] tr] truncate_after_watermarks [OF tr] rejected(3) by simp
    qed (use rejected(3) get m lm in auto)
  next
    case (taken ndc)
    have l: "rlog ndc = follower_commit args lm" using taken(5) m by simp
    have st: "starts_with (last_snapshot_index ndc) ?pre (rlog ndc)"
      using lm(1) taken(6) by (simp add: l starts_with_def follower_commit_def log_commit_def)
    have ac: "applied (rlog ndc) \<le> committed (rlog ndc)" "last_snapshot_index ndc \<le> applied (rlog ndc)"
      using marks lm taken(6) follower_commit_mono [of lm args] by (simp_all add: l)
    note fin = finish_any [OF ac st, of E "ck_sync ck"]
    have "log_get (rlog (fst (append_rest E nd ck args))) i = log_get (rlog nd) i"
      if "last_snapshot_index (fst (append_rest E nd ck args)) < i" "i \<le> committed (rlog nd)" for i
    proof -
      have "?b < i" using fin that(1) taken(4,6) by (metis le_less_trans)
      then show ?thesis using fin that get pre(3) taken(4,6) by (simp add: l word_le_nat_alt)
    qed
    then show ?thesis
      using fin taken(4,6) lm follower_commit_mono [of lm args] follower_commit_bound [of args lm] by (simp add: l)
  qed
qed

section \<open>Agreement with the leader\<close>

text \<open>
  Two logs match when entries of one index and term have the same past in both.
\<close>

definition log_matching :: "RaftLog \<Rightarrow> RaftLog \<Rightarrow> bool" where
  "log_matching l m \<longleftrightarrow>
     (\<forall>i x y. log_get l i = Some x \<longrightarrow> log_get m i = Some y \<longrightarrow> le_term x = le_term y \<longrightarrow>
        (\<forall>j x' y'. j \<le> i \<longrightarrow> log_get l j = Some x' \<longrightarrow> log_get m j = Some y' \<longrightarrow> x' = y'))"

definition agree :: "RaftLog \<Rightarrow> RaftLog \<Rightarrow> bool" where
  "agree l m \<longleftrightarrow> (\<forall>i x y. log_get l i = Some x \<longrightarrow> log_get m i = Some y \<longrightarrow> x = y)"

lemma agree_matching: "agree l m \<Longrightarrow> log_matching l m"
  by (auto simp: agree_def log_matching_def)

lemma log_matching_sub:
  "log_matching l m \<Longrightarrow> (\<And>i x. log_get m' i = Some x \<Longrightarrow> log_get m i = Some x) \<Longrightarrow> log_matching l m'"
  unfolding log_matching_def by meson

lemma agree_sub:
  "agree l m \<Longrightarrow> (\<And>i x. log_get m' i = Some x \<Longrightarrow> log_get m i = Some x) \<Longrightarrow> agree l m'"
  unfolding agree_def by meson

text \<open>
  The message a leader with log \<open>l\<close>, compacted up to \<open>b\<close>, builds for the index after
  \<open>p\<close>: the entry before, with its term if the leader still has it, and the whole rest.
\<close>

definition sent_from :: "u64 \<Rightarrow> RaftLog \<Rightarrow> AppendEntriesArgs \<Rightarrow> bool" where
  "sent_from b l args \<longleftrightarrow>
     log_based b l \<and> b \<le> ae_prev_log_index args \<and>
     unat (ae_prev_log_index args) < log_next l \<and>
     ae_entries args = filter (\<lambda>e. ae_prev_log_index args < le_index e) (entries l) \<and>
     (\<forall>e. log_get l (ae_prev_log_index args) = Some e \<longrightarrow> ae_prev_log_term args = le_term e)"

lemma sent_from_entry:
  assumes "sent_from b l args"
  shows "e \<in> set (ae_entries args) \<longleftrightarrow>
    ae_prev_log_index args < le_index e \<and> log_get l (le_index e) = Some e"
  using assms log_get_iff [of l "le_index e" e] by (auto simp: sent_from_def dest: log_based_wf)

lemma sent_from_placed:
  assumes "sent_from b l args" and "ae_prev_log_index args = 0 \<longrightarrow> last_snapshot_index nd = 0"
  shows "well_placed nd args"
proof -
  have based: "log_based b l" and bp: "b \<le> ae_prev_log_index args"
    and es: "ae_entries args = filter (\<lambda>e. ae_prev_log_index args < le_index e) (entries l)"
    using assms(1) by (auto simp: sent_from_def)
  have "log_based (ae_prev_log_index args) (discard_through l (ae_prev_log_index args))"
    by (rule log_based_discard [OF based bp])
  moreover have "consecutive (ae_entries args)"
    using based es by (auto intro!: consecutive_filter_greater)
  ultimately show ?thesis using assms(2) es by (simp add: well_placed_def log_based_def)
qed

lemma merge_log_agree:
  assumes ok: "node_log_ok nd" and sent: "sent_from b l args" and placed: "well_placed nd args"
    and prev: "prev_ok nd args" and match: "log_matching l (rlog nd)"
    and m: "merge_log (rlog nd) (ae_entries args) = (l', True)"
  shows "agree l l'" "e \<in> set (ae_entries args) \<Longrightarrow> log_get l' (le_index e) = Some e"
proof -
  note based = node_log_ok_based [OF ok]
  note fits = well_placed_fits [OF based placed prev]
  have bl: "log_based b l" using sent by (simp add: sent_from_def)
  show same: "log_get l' (le_index e) = Some e" if e: "e \<in> set (ae_entries args)" for e
  proof -
    obtain z where z: "log_get l' (le_index e) = Some z" "le_term z = le_term e"
      "z = e \<or> log_get (rlog nd) (le_index e) = Some z"
      using merge_log_contains [OF m based fits e] by blast
    moreover have "log_get l (le_index e) = Some e" using e sent_from_entry [OF sent] by blast
    ultimately show ?thesis using match unfolding log_matching_def by (metis order_refl)
  qed
  have "x = y" if x: "log_get l i = Some x" and y: "log_get l' i = Some y" for i x y
  proof (cases "ae_prev_log_index args < i")
    case True
    have ix: "le_index x = i" using log_get_index [OF log_based_wf [OF bl] x] .
    then have "x \<in> set (ae_entries args)" using x True sent_from_entry [OF sent] by simp
    from same [OF this] y ix show ?thesis by simp
  next
    case False
    have "ae_entries args = [] \<or> i < le_index (hd (ae_entries args))"
      using False placed by (auto simp: well_placed_def word_less_nat_alt)
    then have y': "log_get (rlog nd) i = Some y" using merge_log_below [OF m based fits, of i] y by auto
    have bi: "unat b < unat i" using x log_based_get [OF bl, of i] by (auto split: if_splits)
    then obtain p where p: "log_get l (ae_prev_log_index args) = Some p"
      using False sent log_based_get [OF bl, of "ae_prev_log_index args"] log_based_next [OF bl]
      by (auto simp: sent_from_def word_less_nat_alt)
    then have pt: "ae_prev_log_term args = le_term p" using sent by (simp add: sent_from_def)
    have "last_snapshot_index nd < i"
      using y' log_based_get [OF based, of i] by (auto simp: word_less_nat_alt split: if_splits)
    then have "\<exists>q. log_get (rlog nd) (ae_prev_log_index args) = Some q \<and> le_term q = le_term p"
      using prev False bi pt by (auto simp: prev_ok_def word_less_nat_alt)
    with match p x y' False show ?thesis unfolding log_matching_def by (metis not_less)
  qed
  then show "agree l l'" by (auto simp: agree_def)
qed

text \<open>A refused batch leaves the log as it was.\<close>

lemma merge_log_on_top:
  "consecutive es \<Longrightarrow> log_based b l \<Longrightarrow> (es \<noteq> [] \<Longrightarrow> unat (le_index (hd es)) = log_next l) \<Longrightarrow>
   snd (merge_log l es)"
proof (induction es arbitrary: l)
  case (Cons e es)
  then have top: "unat (le_index e) = log_next l" by simp
  then have "log_get l (le_index e) = None"
    using log_based_get [OF Cons.prems(2), of "le_index e"] log_based_next [OF Cons.prems(2)] by auto
  moreover have "snd (merge_log (log_append l e) es)"
  proof (rule Cons.IH)
    show "consecutive es" using Cons.prems(1) by (rule consecutive_ConsD)
    show "log_based b (log_append l e)" using Cons.prems(2) top by (rule log_based_append)
    show "unat (le_index (hd es)) = log_next (log_append l e)" if "es \<noteq> []"
      using that Cons.prems(1) by (cases es) (auto simp: log_next_def last_index_def)
  qed
  ultimately show ?case by simp
qed simp

lemma merge_log_refused:
  "merge_log l es = (l', False) \<Longrightarrow> log_based b l \<Longrightarrow> batch_fits b l es \<Longrightarrow> l' = l"
proof (induction es arbitrary: l)
  case (Cons e es)
  from merge_log_Cons [OF Cons.prems(1)] show ?case
  proof (elim disjE exE conjE)
    fix l1 assume m: "merges l e l1" and rest: "merge_log l1 es = (l', False)"
    note fits = batch_fits_step [OF Cons.prems(3,2) m]
    from merges_outcome [OF Cons.prems(2) fits(2,3) m] show ?thesis
    proof cases
      case (1 t)
      have "snd (merge_log l1 es)"
      proof (rule merge_log_on_top)
        show "consecutive es" using fits(1) by (simp add: batch_fits_def)
        show "log_based b l1" using merges_spec(1) [OF Cons.prems(2) fits(2,3) m] by simp
        show "unat (le_index (hd es)) = log_next l1" if "es \<noteq> []"
          using that 1(1) Cons.prems(3)
          by (cases es) (auto simp: log_next_def last_index_def batch_fits_def)
      qed
      with rest show ?thesis by simp
    next
      case (2 x)
      with rest Cons.IH [OF _ Cons.prems(2)] fits(1) show ?thesis by auto
    qed
  qed simp
qed simp

section \<open>Properties\<close>

text \<open>
  C2: committed entries survive.  On a node whose log rises by one from its snapshot and whose state
  machine is at the applied index, whatever batch an append message carries, misplaced ones
  included: the commit, applied and snapshot indices never fall, the commit index does not pass
  the leader's commit index nor the end of the batch, and every entry that was committed is
  still there unchanged unless it is covered by the node's snapshot.  When the batch is placed
  the way leaders place batches, the node's log also keeps its form.
\<close>

theorem append_entries_keeps_committed:
  assumes "node_log_ok nd"
  shows "let nd' = fst (handle_append_entries E nd ck args) in
    committed (rlog nd) \<le> committed (rlog nd') \<and> applied (rlog nd) \<le> applied (rlog nd') \<and>
    last_snapshot_index nd \<le> last_snapshot_index nd' \<and>
    committed (rlog nd') \<le> max (committed (rlog nd)) (min (ae_leader_commit args) (batch_end args)) \<and>
    (\<forall>i. last_snapshot_index nd' < i \<and> i \<le> committed (rlog nd) \<longrightarrow>
       log_get (rlog nd') i = log_get (rlog nd) i) \<and>
    (well_placed nd args \<longrightarrow> node_log_ok nd')"
proof -
  let ?nd1 = "fst (verify_append_entries E nd (ck_fresh ck) (ck_replay ck) args)"
  let ?nd2 = "append_accept E ?nd1 ck args"
  have ok: "node_log_ok ?nd1" "node_log_ok ?nd2"
    using assms by (simp_all add: node_log_ok_def)
  have "well_placed ?nd2 args \<longleftrightarrow> well_placed nd args" by (simp add: well_placed_def)
  then show ?thesis
    using ok append_rest_ok [OF ok(2), of args E ck] append_rest_any [OF ok(2), of E ck args]
    by (simp add: handle_append_entries_halves Let_def)
qed

lemma append_rest_matching:
  assumes ok: "node_log_ok nd" and sent: "sent_from b l args"
    and zero: "ae_prev_log_index args = 0 \<longrightarrow> last_snapshot_index nd = 0"
    and match: "log_matching l (rlog nd)"
  shows "log_matching l (rlog (fst (append_rest E nd ck args)))"
    "aer_success (snd (append_rest E nd ck args)) \<Longrightarrow>
       agree l (rlog (fst (append_rest E nd ck args))) \<and>
       (\<forall>e \<in> set (ae_entries args). last_snapshot_index (fst (append_rest E nd ck args)) < le_index e \<longrightarrow>
          log_get (rlog (fst (append_rest E nd ck args))) (le_index e) = Some e)"
proof -
  let ?l' = "rlog (fst (append_rest E nd ck args))"
  note placed = sent_from_placed [OF sent zero]
  note based = node_log_ok_based [OF ok]
  have "log_matching l ?l' \<and> (aer_success (snd (append_rest E nd ck args)) \<longrightarrow>
      agree l ?l' \<and> (\<forall>e \<in> set (ae_entries args).
        last_snapshot_index (fst (append_rest E nd ck args)) < le_index e \<longrightarrow>
        log_get ?l' (le_index e) = Some e))"
  proof (cases rule: append_rest_cases [of E nd ck args])
    case rejected
    have sub: "log_get (rlog nd) i = Some x" if "truncate_after (rlog nd) a = Inr ?l'" "log_get ?l' i = Some x"
      for a i x
      using that log_get_truncate [OF log_based_wf [OF based] that(1), of i] by (simp split: if_splits)
    have merged: "log_matching l ?l'"
      if prev: "prev_ok nd args" and l': "?l' = fst (merge_log (rlog nd) (ae_entries args))"
    proof (cases "snd (merge_log (rlog nd) (ae_entries args))")
      case True
      then have "merge_log (rlog nd) (ae_entries args) = (?l', True)" using l' by (simp add: prod_eq_iff)
      from merge_log_agree(1) [OF ok sent placed prev match this] show ?thesis by (rule agree_matching)
    next
      case False
      then have "merge_log (rlog nd) (ae_entries args) = (?l', False)" using l' by (simp add: prod_eq_iff)
      from merge_log_refused [OF this based well_placed_fits [OF based placed prev]] match
      show ?thesis by simp
    qed
    from rejected(2) have "log_matching l ?l'"
      using match merged log_matching_sub [OF match] sub by metis
    with rejected(1) show ?thesis by simp
  next
    case (taken ndc)
    obtain m where m: "merge_log (rlog nd) (ae_entries args) = (m, True)"
      using taken(3) by (metis eq_snd_iff)
    note agr = merge_log_agree [OF ok sent placed taken(2) match m]
    have okc: "node_log_ok ndc" using taken by (intro merge_log_node_ok [OF ok placed]) auto
    have sub: "log_get m i = Some x" if x: "log_get ?l' i = Some x" for i x
    proof -
      have "node_log_ok (fst (append_rest E nd ck args))" using append_rest_ok [OF ok placed] .
      from log_based_get [OF node_log_ok_based [OF this], of i] x
      have "last_snapshot_index (maybe_snapshot E (apply_committed ndc (ck_sync ck))) < i"
        by (auto simp: taken(4) word_less_nat_alt split: if_splits)
      from finish_marks(4) [OF okc this] x show ?thesis by (simp add: taken(4,5) m)
    qed
    have "agree l ?l'" using agree_sub [OF agr(1)] sub by blast
    then show ?thesis
      using agr(2) finish_marks(4) [OF okc, of E "ck_sync ck"] agree_matching
      by (auto simp: taken(4,5) m)
  qed
  then show "log_matching l ?l'" "aer_success (snd (append_rest E nd ck args)) \<Longrightarrow>
       agree l ?l' \<and> (\<forall>e \<in> set (ae_entries args).
         last_snapshot_index (fst (append_rest E nd ck args)) < le_index e \<longrightarrow>
         log_get ?l' (le_index e) = Some e)"
    by blast+
qed

text \<open>A message signed with the node's secret, in time and not seen before, is accepted.\<close>

definition signed_append :: "'s Env \<Rightarrow> bytes \<Rightarrow> AppendEntriesArgs \<Rightarrow> AppendEntriesArgs" where
  "signed_append E secret args =
     args\<lparr>ae_hmac := Some (compute_append_entries_hmac (hmac_sha256 E) secret args)\<rparr>"

lemma signed_append_fields [simp]:
  "ae_term (signed_append E k args) = ae_term args"
  "ae_leader_id (signed_append E k args) = ae_leader_id args"
  "ae_prev_log_index (signed_append E k args) = ae_prev_log_index args"
  "ae_prev_log_term (signed_append E k args) = ae_prev_log_term args"
  "ae_entries (signed_append E k args) = ae_entries args"
  "ae_leader_commit (signed_append E k args) = ae_leader_commit args"
  "ae_timestamp_ms (signed_append E k args) = ae_timestamp_ms args"
  by (simp_all add: signed_append_def)

lemma signed_append_accepted:
  assumes "cluster_secret nd = Some secret" and "ae_timestamp_ms args = tf" and "replay_cache nd = replay_cache_new"
    and "\<not> frame_too_big (length (ae_leader_id args)) (ae_entries args)" and "\<And>tag. ct_eq E tag tag"
  shows "snd (verify_append_entries E nd tf tr (signed_append E secret args))"
  using assms
  by (simp add: verify_append_entries_def verify_hmac_def Let_def signed_append_def
      check_message_freshness_def compute_append_entries_hmac_def append_entries_mac_def
      check_and_insert_result replay_cache_new_def split_def)

definition example_append :: AppendEntriesArgs where
  "example_append = signed_append example_env [7]
     \<lparr>ae_term = 1, ae_leader_id = ''b'', ae_prev_log_index = 1, ae_prev_log_term = 1,
      ae_entries = [example_entry 1 2], ae_leader_commit = 2, ae_timestamp_ms = 5, ae_hmac = None\<rparr>"

definition example_follower :: "InMemoryStorage RaftNode" where
  "example_follower = example_node
     \<lparr>rlog := \<lparr>entries = [example_entry 1 1], committed = 1, applied = 0\<rparr>, cluster_secret := Some [7]\<rparr>"

definition example_clock :: AppendClock where
  "example_clock = \<lparr>ck_fresh = 5, ck_replay = 5, ck_now = 5, ck_heartbeat = 5, ck_sync = 5\<rparr>"

lemma example_follower_ok: "node_log_ok example_follower"
  by (simp add: node_log_ok_def example_follower_def example_node_def log_based_def log_wf_def
      example_entry_def node_new_def with_vote_rate_limiter_config_def sm_new_def)

lemma example_follower_fields:
  "rlog example_follower = \<lparr>entries = [example_entry 1 1], committed = 1, applied = 0\<rparr>"
  "last_snapshot_index example_follower = 0" "current_term example_follower = 1"
  "cluster_secret example_follower = Some [7]" "replay_cache example_follower = replay_cache_new"
  by (simp_all add: example_follower_def example_node_def node_new_def with_vote_rate_limiter_config_def)

lemma example_append_placed: "well_placed nd example_append"
  by (simp add: well_placed_def example_append_def example_entry_def)

theorem append_entries_keeps_committed_witness:
  "node_log_ok (fst (handle_append_entries example_env example_follower example_clock example_append)) \<and>
   committed (rlog example_follower) = 1"
  using append_entries_keeps_committed [OF example_follower_ok, of example_env example_clock example_append] example_append_placed [of example_follower]
  by (simp add: Let_def example_follower_fields)

text \<open>
  C6: log matching.  Let a leader send the rest of its log behind some index to a
  follower whose log matches the leader's (entries of one index and term have the same
  past in both).  Afterwards the logs still match, whether the follower accepted or
  refused; and when it accepted, the two logs agree wherever both have an entry, and the
  follower holds every entry of the message that its own snapshot does not cover.
\<close>

theorem append_entries_log_matching:
  assumes "node_log_ok nd" and "sent_from b l args"
    and "ae_prev_log_index args = 0 \<longrightarrow> last_snapshot_index nd = 0"
    and "log_matching l (rlog nd)"
  shows "let (nd', reply) = handle_append_entries E nd ck args in
    log_matching l (rlog nd') \<and>
    (aer_success reply \<longrightarrow>
       agree l (rlog nd') \<and>
       (\<forall>e \<in> set (ae_entries args). last_snapshot_index nd' < le_index e \<longrightarrow>
          log_get (rlog nd') (le_index e) = Some e))"
proof -
  let ?nd1 = "fst (verify_append_entries E nd (ck_fresh ck) (ck_replay ck) args)"
  let ?nd2 = "append_accept E ?nd1 ck args"
  have "node_log_ok ?nd2" "ae_prev_log_index args = 0 \<longrightarrow> last_snapshot_index ?nd2 = 0"
    "log_matching l (rlog ?nd2)"
    using assms(1,3,4) by (simp_all add: node_log_ok_def)
  from append_rest_matching [OF this(1) assms(2) this(2,3), of E ck] assms(4) show ?thesis
    by (auto simp: handle_append_entries_halves Let_def append_reply_def split: prod.split)
qed

definition example_leader_log :: RaftLog where
  "example_leader_log = \<lparr>entries = [example_entry 1 1, example_entry 1 2], committed = 2, applied = 2\<rparr>"

lemma example_sent: "sent_from 0 example_leader_log example_append"
  by (simp add: sent_from_def example_leader_log_def example_append_def log_based_def log_wf_def
      example_entry_def log_next_def last_index_def log_get_def word_less_nat_alt)

lemma example_logs_match: "log_matching example_leader_log (rlog example_follower)"
  by (intro agree_matching)
    (auto simp: agree_def example_follower_fields example_leader_log_def log_get_def Let_def
      split: if_splits)

theorem append_entries_log_matching_witness:
  "log_matching example_leader_log
    (rlog (fst (handle_append_entries example_env example_follower example_clock example_append)))"
  using append_entries_log_matching [OF example_follower_ok example_sent _ example_logs_match,
      of example_env example_clock]
  by (simp add: example_follower_fields split_def Let_def)

text \<open>
  the first entry of a batch is not checked against the index it follows.  A fresh
  follower that is sent one entry with any index, naming index 0 as the one before,
  accepts it, holds a log with a hole below it, and commits up to it when the leader's
  commit index allows.
\<close>

theorem append_entries_gap_accepted:
  assumes "snd (verify_append_entries E nd (ck_fresh ck) (ck_replay ck) args)"
    and "current_term nd \<le> ae_term args" and "ae_prev_log_index args = 0" and "ae_entries args = [e]"
    and "rlog nd = log_new" and "state_machine nd = None" and "1 < le_index e"
    and "le_index e \<le> ae_leader_commit args"
  shows "let (nd', reply) = handle_append_entries E nd ck args in
    aer_success reply \<and> entries (rlog nd') = [e] \<and> committed (rlog nd') = le_index e \<and>
    log_get (rlog nd') 1 = None"
proof -
  let ?nd = "append_accept E (fst (verify_append_entries E nd (ck_fresh ck) (ck_replay ck) args)) ck args"
  have prev: "prev_ok ?nd args" using assms(3) by (simp add: prev_ok_def)
  have log: "rlog ?nd = log_new" "state_machine ?nd = None" using assms(5,6) by simp_all
  have pos: "0 < le_index e" using assms(7) by (simp add: word_less_nat_alt)
  have merged: "merge_log log_new [e] = (log_append log_new e, True)"
    by (simp add: log_new_def log_get_def)
  have commit: "follower_commit args (log_append log_new e) =
      \<lparr>entries = [e], committed = le_index e, applied = 0\<rparr>"
    using assms(4,8) pos
    by (simp add: follower_commit_def batch_end_def log_commit_def log_append_def log_new_def last_index_def)
      (auto simp: word_less_nat_alt word_le_nat_alt)
  have "aer_success (snd (append_rest E ?nd ck args)) \<and>
      rlog (fst (append_rest E ?nd ck args)) = follower_commit args (log_append log_new e)"
  proof (cases rule: append_rest_cases [of E ?nd ck args])
    case rejected
    have "batch_monotonic (ae_entries args)" using assms(4) by simp
    moreover have "snd (snd (append_batch E ?nd [] (ae_entries args)))"
      by (simp only: append_batch_log(2) log assms(4) merged snd_conv)
    ultimately have "aer_success (snd (append_rest E ?nd ck args))"
      by (simp del: append_batch.simps
          add: append_rest_def check_prev_log_same [OF prev] append_reply_def Let_def split_def)
    with rejected show ?thesis by simp
  next
    case (taken ndc)
    then have "state_machine ndc = None" using log by simp
    moreover have "rlog ndc = follower_commit args (log_append log_new e)"
      by (simp only: taken(5) log assms(4) merged fst_conv)
    ultimately show ?thesis
      using taken(1,4) by (simp add: apply_committed_def maybe_snapshot_def Let_def)
  qed
  then show ?thesis
    using assms(1,2,7) commit
    by (auto simp: handle_append_entries_halves Let_def log_get_def split: prod.split)
qed

definition gap_append :: AppendEntriesArgs where
  "gap_append = signed_append example_env [7]
     \<lparr>ae_term = 1, ae_leader_id = ''b'', ae_prev_log_index = 0, ae_prev_log_term = 0,
      ae_entries = [example_entry 1 5], ae_leader_commit = 5, ae_timestamp_ms = 5, ae_hmac = None\<rparr>"

definition fresh_follower :: "InMemoryStorage RaftNode" where
  "fresh_follower = set_cluster_secret (node_new ''a'' [''b'', ''c''] 150 0) [7]"

lemma gap_append_verifies: "snd (verify_append_entries example_env fresh_follower 5 5 gap_append)"
  unfolding gap_append_def
  by (rule signed_append_accepted)
    (simp_all add: fresh_follower_def set_cluster_secret_def node_new_def
      with_vote_rate_limiter_config_def example_entry_def MAX_WIRE_FRAME_BYTES_def push_lp_def len_u32_be_def
      be_bytes_def le_bytes_def)

theorem append_entries_gap_accepted_witness:
  "entries (rlog (fst (handle_append_entries example_env fresh_follower example_clock gap_append))) =
     [example_entry 1 5] \<and>
   committed (rlog (fst (handle_append_entries example_env fresh_follower example_clock gap_append))) = 5"
  using append_entries_gap_accepted [of example_env fresh_follower example_clock gap_append "example_entry 1 5"]
    gap_append_verifies
  by (simp add: example_clock_def gap_append_def fresh_follower_def set_cluster_secret_def node_new_def
      with_vote_rate_limiter_config_def example_entry_def split_def Let_def)

end
