(* ===== verification/Raft_Snapshot.thy ===== *)
theory Raft_Snapshot
  imports Raft_Auth Raft_Apply
begin

text \<open>
  Snapshot transfer of \<open>RaftNode\<close>: building an \<open>InstallSnapshot\<close> message and
  installing one, with the guards on committed state, the reassembly of chunks and the
  persist-before-apply order.  \<open>tf\<close> and \<open>tr\<close> are the verification's clock readings,
  \<open>ms\<close> the monotonic reading of the peer synchronisation.
\<close>

section \<open>Operations\<close>

definition prepare_install_snapshot :: "'s Env \<Rightarrow> 's RaftNode \<Rightarrow> u64 \<Rightarrow> InstallSnapshotArgs option" where
  "prepare_install_snapshot E nd now =
     (case state_machine nd of
        None \<Rightarrow> None
      | Some sm \<Rightarrow>
          let snap = sm_snapshot sm in
          case sm_to_vec E snap of
            None \<Rightarrow> None
          | Some data \<Rightarrow>
              let idx = max (last_snapshot_index nd) (ss_last_applied snap);
                  trm = (if idx = last_snapshot_index nd then last_snapshot_term nd
                         else case log_get (rlog nd) idx of Some e \<Rightarrow> le_term e
                              | None \<Rightarrow> last_snapshot_term nd);
                  args = \<lparr>is_term = current_term nd, is_leader_id = rn_id nd,
                    is_last_included_index = idx, is_last_included_term = trm, is_data = data,
                    is_timestamp_ms = now, is_hmac = None, is_offset = 0,
                    is_total_size = word_of_nat (length data), is_last_chunk = True\<rparr>
              in Some (case cluster_secret nd of
                   None \<Rightarrow> args
                 | Some secret \<Rightarrow> args\<lparr>is_hmac :=
                     Some (compute_install_snapshot_hmac (hmac_sha256 E) secret args)\<rparr>))"

definition snapshot_reply :: "Term \<Rightarrow> InstallSnapshotReply" where
  "snapshot_reply trm = \<lparr>isr_term = trm, isr_timestamp_ms = 0, isr_hmac = None\<rparr>"

definition count_forged_snapshot :: "'s RaftNode \<Rightarrow> 's RaftNode" where
  "count_forged_snapshot nd = nd\<lparr>forged_snapshot_rejects := forged_snapshot_rejects nd + 1\<rparr>"

text \<open>
  The guard on committed state.  \<open>Some\<close> the node to return with, or \<open>None\<close> to go on.
\<close>

definition committed_guard :: "'s RaftNode \<Rightarrow> InstallSnapshotArgs \<Rightarrow> 's RaftNode option" where
  "committed_guard nd args =
     (if is_last_included_index args < committed (rlog nd) then
        if is_last_included_index args = last_snapshot_index nd then
          if is_last_included_term args \<noteq> last_snapshot_term nd then Some (count_forged_snapshot nd)
          else Some (count_forged_snapshot nd)
        else
          (case log_get (rlog nd) (is_last_included_index args) of
             Some local \<Rightarrow>
               if le_term local \<noteq> is_last_included_term args then Some (count_forged_snapshot nd)
               else Some nd
           | None \<Rightarrow> Some (count_forged_snapshot nd))
      else None)"

text \<open>
  Reassembly: the node and the whole snapshot, or \<open>None\<close> when the call ends here.  The
  lengths are added as numbers; the source's saturating \<open>u64\<close> sum exceeds the limit in
  the same cases.
\<close>

definition assemble_snapshot ::
  "'s RaftNode \<Rightarrow> InstallSnapshotArgs \<Rightarrow> 's RaftNode \<times> bytes option" where
  "assemble_snapshot nd args =
     (if is_offset args = 0 \<and> is_last_chunk args then (nd, Some (is_data args))
      else
        let key = is_leader_id args;
            buf = (case snapshot_chunk_buffers nd key of
                Some b \<Rightarrow> b
              | None \<Rightarrow> \<lparr>cb_data = [], cb_total_size = is_total_size args,
                  cb_last_included_index = is_last_included_index args,
                  cb_last_included_term = is_last_included_term args\<rparr>);
            drop_buffer = (\<lambda>nd. nd\<lparr>snapshot_chunk_buffers := (snapshot_chunk_buffers nd)(key := None)\<rparr>)
        in if cb_last_included_index buf \<noteq> is_last_included_index args
              \<or> cb_last_included_term buf \<noteq> is_last_included_term args
              \<or> (is_total_size args \<noteq> 0 \<and> cb_total_size buf \<noteq> 0
                  \<and> cb_total_size buf \<noteq> is_total_size args)
           then (drop_buffer (count_forged_snapshot nd), None)
           else if length (cb_data buf) + length (is_data args) > unat MAX_INSTALL_SNAPSHOT_BYTES
           then (drop_buffer (count_forged_snapshot nd), None)
           else
             let data = cb_data buf @ is_data args in
             if \<not> is_last_chunk args then
               (nd\<lparr>snapshot_chunk_buffers :=
                  (snapshot_chunk_buffers nd)(key \<mapsto> buf\<lparr>cb_data := data\<rparr>)\<rparr>, None)
             else (drop_buffer nd, Some data))"

text \<open>Persist, parse, restore and compact.\<close>

definition install_snapshot_data ::
  "'s Env \<Rightarrow> 's RaftNode \<Rightarrow> InstallSnapshotArgs \<Rightarrow> bytes \<Rightarrow> u64 \<Rightarrow> 's RaftNode" where
  "install_snapshot_data E nd args full_data ms =
     (let parsed = sm_from_slice E full_data;
          preview_voters = (case parsed of Some s \<Rightarrow> ss_voters s | None \<Rightarrow> []);
          (nd1, saved) =
            (case storage nd of
               None \<Rightarrow> (nd, True)
             | Some st \<Rightarrow>
                 (case save_snapshot (store_ops E) st
                        \<lparr>ps_last_index = is_last_included_index args,
                         ps_last_term = is_last_included_term args,
                         ps_voters = preview_voters, ps_data = full_data\<rparr> of
                    (st', err) \<Rightarrow> (nd\<lparr>storage := Some st'\<rparr>, err = None)))
      in if \<not> saved then nd1
         else case parsed of
           None \<Rightarrow> count_forged_snapshot nd1
         | Some snap \<Rightarrow>
             let nd2 = (case state_machine nd1 of
                     Some sm \<Rightarrow> nd1\<lparr>state_machine := Some (restore_from_snapshot sm snap)\<rparr>
                   | None \<Rightarrow> nd1);
                 nd3 = nd2\<lparr>rlog := discard_through (rlog nd2) (is_last_included_index args),
                           last_snapshot_index := is_last_included_index args,
                           last_snapshot_term := is_last_included_term args\<rparr>;
                 nd4 = sync_peers_from_voters nd3 (ss_voters snap) ms
             in (case storage nd4 of
                   None \<Rightarrow> nd4
                 | Some st \<Rightarrow> nd4\<lparr>storage := Some
                     (fst (truncate_log_after (store_ops E) st (is_last_included_index args)))\<rparr>))"

definition handle_install_snapshot ::
  "'s Env \<Rightarrow> 's RaftNode \<Rightarrow> u64 \<Rightarrow> u64 \<Rightarrow> u64 \<Rightarrow> InstallSnapshotArgs \<Rightarrow>
   's RaftNode \<times> InstallSnapshotReply" where
  "handle_install_snapshot E nd tf tr ms args =
     (let (nd1, ok) = verify_install_snapshot E nd tf tr args in
      if \<not> ok then (count_forged_snapshot nd1, snapshot_reply 0)
      else if is_term args < current_term nd1 then
        (count_forged_snapshot nd1, snapshot_reply (current_term nd1))
      else
        let nd2 = (if is_term args > current_term nd1 then become_follower E nd1 (is_term args)
                   else nd1)
        in if (case current_leader_hint nd2 of Some known \<Rightarrow> known \<noteq> is_leader_id args | None \<Rightarrow> False)
           then (count_forged_snapshot nd2, snapshot_reply (current_term nd2))
           else
             case committed_guard nd2 args of
               Some nd3 \<Rightarrow> (nd3, snapshot_reply (current_term nd3))
             | None \<Rightarrow>
                 (case assemble_snapshot nd2 args of
                    (nd3, None) \<Rightarrow> (nd3, snapshot_reply (current_term nd3))
                  | (nd3, Some full_data) \<Rightarrow>
                      let nd4 = install_snapshot_data E nd3 args full_data ms
                      in (nd4, snapshot_reply (current_term nd4))))"

section \<open>What the parts leave alone\<close>

lemma count_forged_keeps [simp]:
  "rn_id (count_forged_snapshot nd) = rn_id nd"
  "rn_state (count_forged_snapshot nd) = rn_state nd"
  "current_term (count_forged_snapshot nd) = current_term nd"
  "voted_for (count_forged_snapshot nd) = voted_for nd"
  "rlog (count_forged_snapshot nd) = rlog nd"
  "storage (count_forged_snapshot nd) = storage nd"
  "state_machine (count_forged_snapshot nd) = state_machine nd"
  "last_snapshot_index (count_forged_snapshot nd) = last_snapshot_index nd"
  "last_snapshot_term (count_forged_snapshot nd) = last_snapshot_term nd"
  "snapshot_chunk_buffers (count_forged_snapshot nd) = snapshot_chunk_buffers nd"
  by (simp_all add: count_forged_snapshot_def)

lemma committed_guard_refuses:
  "committed_guard nd args = None \<longleftrightarrow> committed (rlog nd) \<le> is_last_included_index args"
  by (auto simp: committed_guard_def not_less split: option.split)

lemma committed_guard_result:
  "committed_guard nd args = Some nd' \<Longrightarrow> nd' = nd \<or> nd' = count_forged_snapshot nd"
  by (auto simp: committed_guard_def split: if_splits option.splits)

lemma assemble_keeps [simp]:
  "rn_id (fst (assemble_snapshot nd args)) = rn_id nd"
  "rn_state (fst (assemble_snapshot nd args)) = rn_state nd"
  "current_term (fst (assemble_snapshot nd args)) = current_term nd"
  "voted_for (fst (assemble_snapshot nd args)) = voted_for nd"
  "rlog (fst (assemble_snapshot nd args)) = rlog nd"
  "storage (fst (assemble_snapshot nd args)) = storage nd"
  "state_machine (fst (assemble_snapshot nd args)) = state_machine nd"
  "last_snapshot_index (fst (assemble_snapshot nd args)) = last_snapshot_index nd"
  "last_snapshot_term (fst (assemble_snapshot nd args)) = last_snapshot_term nd"
  by (simp_all add: assemble_snapshot_def Let_def)

lemma install_keeps [simp]:
  "rn_id (install_snapshot_data E nd args d ms) = rn_id nd"
  "rn_state (install_snapshot_data E nd args d ms) = rn_state nd"
  "current_term (install_snapshot_data E nd args d ms) = current_term nd"
  "voted_for (install_snapshot_data E nd args d ms) = voted_for nd"
  by (cases "sm_from_slice E d"; cases "storage nd"; cases "state_machine nd";
      simp add: install_snapshot_data_def Let_def split_def)+

text \<open>Installing either changes neither log nor machine, or does all of it.\<close>

lemma install_cases:
  obtains (refused) "rlog (install_snapshot_data E nd args d ms) = rlog nd"
      "state_machine (install_snapshot_data E nd args d ms) = state_machine nd"
      "last_snapshot_index (install_snapshot_data E nd args d ms) = last_snapshot_index nd"
  | (installed) snap where "sm_from_slice E d = Some snap"
      "rlog (install_snapshot_data E nd args d ms) = discard_through (rlog nd) (is_last_included_index args)"
      "state_machine (install_snapshot_data E nd args d ms) =
        map_option (\<lambda>sm. restore_from_snapshot sm snap) (state_machine nd)"
      "last_snapshot_index (install_snapshot_data E nd args d ms) = is_last_included_index args"
      "last_snapshot_term (install_snapshot_data E nd args d ms) = is_last_included_term args"
proof (cases "\<exists>snap. sm_from_slice E d = Some snap \<and>
    (storage nd = None \<or> snd (save_snapshot (store_ops E) (the (storage nd))
       \<lparr>ps_last_index = is_last_included_index args, ps_last_term = is_last_included_term args,
        ps_voters = ss_voters snap, ps_data = d\<rparr>) = None)")
  case True
  then obtain snap where parsed: "sm_from_slice E d = Some snap"
    and saved: "storage nd = None \<or> snd (save_snapshot (store_ops E) (the (storage nd))
       \<lparr>ps_last_index = is_last_included_index args, ps_last_term = is_last_included_term args,
        ps_voters = ss_voters snap, ps_data = d\<rparr>) = None" by blast
  show ?thesis
    by (rule installed [OF parsed])
      (use saved parsed in \<open>cases "storage nd"; cases "state_machine nd";
        simp add: install_snapshot_data_def Let_def split_def\<close>)+
next
  case False
  show ?thesis
    by (rule refused)
      (use False in \<open>cases "sm_from_slice E d"; cases "storage nd";
        simp add: install_snapshot_data_def Let_def split_def\<close>)+
qed

section \<open>The handler\<close>

text \<open>The node once the term of the message is taken.\<close>

definition snapshot_accept :: "'s Env \<Rightarrow> 's RaftNode \<Rightarrow> InstallSnapshotArgs \<Rightarrow> 's RaftNode" where
  "snapshot_accept E nd args =
     (if is_term args > current_term nd then become_follower E nd (is_term args) else nd)"

lemma snapshot_accept_keeps [simp]:
  "rn_id (snapshot_accept E nd args) = rn_id nd"
  "rlog (snapshot_accept E nd args) = rlog nd"
  "state_machine (snapshot_accept E nd args) = state_machine nd"
  "last_snapshot_index (snapshot_accept E nd args) = last_snapshot_index nd"
  "last_snapshot_term (snapshot_accept E nd args) = last_snapshot_term nd"
  "snapshot_chunk_buffers (snapshot_accept E nd args) = snapshot_chunk_buffers nd"
  by (simp_all add: snapshot_accept_def)

lemma handle_install_snapshot_cases:
  fixes E nd tf tr args
  defines "nd1 \<equiv> fst (verify_install_snapshot E nd tf tr args)"
  obtains (unverified) "\<not> snd (verify_install_snapshot E nd tf tr args) \<or> is_term args < current_term nd"
      "fst (handle_install_snapshot E nd tf tr ms args) = count_forged_snapshot nd1"
  | (refused) "snd (verify_install_snapshot E nd tf tr args)" "current_term nd \<le> is_term args"
      "fst (handle_install_snapshot E nd tf tr ms args) = snapshot_accept E nd1 args \<or>
       fst (handle_install_snapshot E nd tf tr ms args) = count_forged_snapshot (snapshot_accept E nd1 args)"
  | (partial) "snd (verify_install_snapshot E nd tf tr args)" "current_term nd \<le> is_term args"
      "committed (rlog nd) \<le> is_last_included_index args"
      "snd (assemble_snapshot (snapshot_accept E nd1 args) args) = None"
      "fst (handle_install_snapshot E nd tf tr ms args) = fst (assemble_snapshot (snapshot_accept E nd1 args) args)"
  | (complete) d where "snd (verify_install_snapshot E nd tf tr args)" "current_term nd \<le> is_term args"
      "committed (rlog nd) \<le> is_last_included_index args"
      "snd (assemble_snapshot (snapshot_accept E nd1 args) args) = Some d"
      "fst (handle_install_snapshot E nd tf tr ms args) =
        install_snapshot_data E (fst (assemble_snapshot (snapshot_accept E nd1 args) args)) args d ms"
proof -
  obtain n ok where v: "verify_install_snapshot E nd tf tr args = (n, ok)" by fastforce
  have n: "nd1 = n" "current_term n = current_term nd" "rlog n = rlog nd"
    using isn.keeps [of E nd tf tr args] by (simp_all add: nd1_def v)
  let ?nd2 = "snapshot_accept E n args"
  obtain n3 r where a: "assemble_snapshot ?nd2 args = (n3, r)" by fastforce
  note run = handle_install_snapshot_def [of E nd tf tr ms args, unfolded v Let_def prod.case,
      folded snapshot_accept_def]
  consider "\<not> ok \<or> is_term args < current_term nd"
    | "ok" "\<not> is_term args < current_term nd"
      "case current_leader_hint ?nd2 of Some known \<Rightarrow> known \<noteq> is_leader_id args | None \<Rightarrow> False"
    | "ok" "\<not> is_term args < current_term nd"
      "\<not> (case current_leader_hint ?nd2 of Some known \<Rightarrow> known \<noteq> is_leader_id args | None \<Rightarrow> False)" by blast
  then show thesis
  proof cases
    case 1
    then show ?thesis using unverified by (cases ok) (simp_all add: run n v)
  next
    case 2
    then show ?thesis using refused by (simp add: run n v not_less)
  next
    case 3
    show ?thesis
    proof (cases "committed_guard ?nd2 args")
      case None
      then have "committed (rlog nd) \<le> is_last_included_index args"
        using n by (simp add: committed_guard_refuses)
      with 3 None partial complete a show ?thesis
        by (cases r) (simp_all add: run n v not_less)
    next
      case (Some g)
      then have "g = ?nd2 \<or> g = count_forged_snapshot ?nd2" by (rule committed_guard_result)
      with 3 Some refused show ?thesis by (simp add: run n v not_less)
    qed
  qed
qed

lemma install_ok:
  assumes "log_based (last_snapshot_index nd) (rlog nd)"
    and "committed (rlog nd) \<le> is_last_included_index args"
  shows "log_based (last_snapshot_index (install_snapshot_data E nd args d ms))
      (rlog (install_snapshot_data E nd args d ms)) \<and>
    committed (rlog nd) \<le> committed (rlog (install_snapshot_data E nd args d ms)) \<and>
    applied (rlog nd) \<le> applied (rlog (install_snapshot_data E nd args d ms)) \<and>
    last_snapshot_index nd \<le> last_snapshot_index (install_snapshot_data E nd args d ms) \<and>
    (\<forall>i. last_snapshot_index (install_snapshot_data E nd args d ms) < i \<longrightarrow>
       log_get (rlog (install_snapshot_data E nd args d ms)) i = log_get (rlog nd) i)"
proof (cases rule: install_cases [of E nd args d ms])
  case refused
  then show ?thesis using assms(1) by simp
next
  case (installed snap)
  have "last_snapshot_index nd \<le> is_last_included_index args"
    using log_based_committed [OF assms(1)] assms(2) by simp
  with installed assms(1) log_based_discard [OF assms(1), of "is_last_included_index args"]
    log_get_discard [OF log_based_wf [OF assms(1)], of "is_last_included_index args"]
  show ?thesis by (simp add: discard_through_watermarks)
qed

section \<open>Properties\<close>

text \<open>The snapshot bytes a call completes, if it completes any.\<close>

definition assembled :: "'s Env \<Rightarrow> 's RaftNode \<Rightarrow> u64 \<Rightarrow> u64 \<Rightarrow> InstallSnapshotArgs \<Rightarrow> bytes option" where
  "assembled E nd tf tr args =
     snd (assemble_snapshot (snapshot_accept E (fst (verify_install_snapshot E nd tf tr args)) args) args)"

text \<open>
  C13: a snapshot never rolls a node back.  Whatever InstallSnapshot message arrives, the
  log stays well formed above the node's snapshot, the commit, applied and snapshot
  indices never fall, and entries above the snapshot are kept as they are.  A snapshot
  that ends below the commit index changes neither log nor state machine nor snapshot
  position.  And if the bytes of a snapshot describe the state at the index it claims,
  the state machine is afterwards still exactly at the applied index.
\<close>

theorem install_snapshot_never_rolls_back:
  assumes "node_log_ok nd"
  shows "let nd' = fst (handle_install_snapshot E nd tf tr ms args) in
    log_based (last_snapshot_index nd') (rlog nd') \<and>
    committed (rlog nd) \<le> committed (rlog nd') \<and> applied (rlog nd) \<le> applied (rlog nd') \<and>
    last_snapshot_index nd \<le> last_snapshot_index nd' \<and>
    (\<forall>i. last_snapshot_index nd' < i \<longrightarrow> log_get (rlog nd') i = log_get (rlog nd) i) \<and>
    (is_last_included_index args < committed (rlog nd) \<longrightarrow>
       rlog nd' = rlog nd \<and> state_machine nd' = state_machine nd \<and>
       last_snapshot_index nd' = last_snapshot_index nd) \<and>
    ((\<forall>d snap. assembled E nd tf tr args = Some d \<longrightarrow> sm_from_slice E d = Some snap \<longrightarrow>
         ss_last_applied snap = is_last_included_index args) \<longrightarrow> node_log_ok nd')"
proof -
  let ?nd2 = "snapshot_accept E (fst (verify_install_snapshot E nd tf tr args)) args"
  let ?nd3 = "fst (assemble_snapshot ?nd2 args)"
  have based: "log_based (last_snapshot_index nd) (rlog nd)" using assms by (rule node_log_ok_based)
  show ?thesis
  proof (cases rule: handle_install_snapshot_cases [where E = E and nd = nd and tf = tf and tr = tr
        and ms = ms and args = args])
    case (complete d)
    have ge: "\<not> is_last_included_index args < committed (rlog nd)" using complete(3) by simp
    have inst: "log_based (last_snapshot_index (install_snapshot_data E ?nd3 args d ms))
        (rlog (install_snapshot_data E ?nd3 args d ms)) \<and>
      committed (rlog nd) \<le> committed (rlog (install_snapshot_data E ?nd3 args d ms)) \<and>
      applied (rlog nd) \<le> applied (rlog (install_snapshot_data E ?nd3 args d ms)) \<and>
      last_snapshot_index nd \<le> last_snapshot_index (install_snapshot_data E ?nd3 args d ms) \<and>
      (\<forall>i. last_snapshot_index (install_snapshot_data E ?nd3 args d ms) < i \<longrightarrow>
         log_get (rlog (install_snapshot_data E ?nd3 args d ms)) i = log_get (rlog nd) i)"
      using install_ok [of ?nd3 args E d ms] based complete(3) by simp
    have "node_log_ok (install_snapshot_data E ?nd3 args d ms)"
      if honest: "\<forall>d snap. assembled E nd tf tr args = Some d \<longrightarrow> sm_from_slice E d = Some snap \<longrightarrow>
         ss_last_applied snap = is_last_included_index args"
    proof (cases rule: install_cases [of E ?nd3 args d ms])
      case refused
      then show ?thesis using assms by (simp add: node_log_ok_def)
    next
      case (installed snap)
      have "applied (rlog nd) \<le> is_last_included_index args"
        using based complete(3) by (auto simp: log_based_def log_wf_def)
      then have "applied (rlog (install_snapshot_data E ?nd3 args d ms)) = is_last_included_index args"
        by (simp add: installed(2) discard_through_watermarks)
      with inst installed honest complete(4) show ?thesis
        by (auto simp: node_log_ok_def restore_from_snapshot_def assembled_def)
    qed
    with inst ge complete(5) show ?thesis by (simp add: Let_def)
  next
    case unverified
    then show ?thesis using assms based by (simp add: node_log_ok_def Let_def)
  next
    case refused
    then show ?thesis using assms based by (auto simp: node_log_ok_def Let_def)
  next
    case partial
    then show ?thesis using assms based by (simp add: node_log_ok_def Let_def)
  qed
qed

definition signed_snapshot :: "'s Env \<Rightarrow> bytes \<Rightarrow> InstallSnapshotArgs \<Rightarrow> InstallSnapshotArgs" where
  "signed_snapshot E secret args =
     args\<lparr>is_hmac := Some (compute_install_snapshot_hmac (hmac_sha256 E) secret args)\<rparr>"

definition example_snapshot :: InstallSnapshotArgs where
  "example_snapshot = signed_snapshot example_env [7]
     \<lparr>is_term = 1, is_leader_id = ''b'', is_last_included_index = 3, is_last_included_term = 1,
      is_data = [0, 0, 0, 0, 0, 0, 0, 3], is_timestamp_ms = 5, is_hmac = None, is_offset = 0,
      is_total_size = 8, is_last_chunk = True\<rparr>"

lemma example_node_secret_ok: "node_log_ok (example_node\<lparr>cluster_secret := Some [7]\<rparr>)"
  using example_node_ok by (simp add: node_log_ok_def)

theorem install_snapshot_never_rolls_back_witness:
  "node_log_ok (example_node\<lparr>cluster_secret := Some [7]\<rparr>) \<and>
   log_based (last_snapshot_index (fst (handle_install_snapshot example_env
       (example_node\<lparr>cluster_secret := Some [7]\<rparr>) 5 5 0 example_snapshot)))
     (rlog (fst (handle_install_snapshot example_env
       (example_node\<lparr>cluster_secret := Some [7]\<rparr>) 5 5 0 example_snapshot)))"
  using install_snapshot_never_rolls_back [OF example_node_secret_ok, of example_env 5 5 0 example_snapshot]
    example_node_secret_ok
  by (simp add: Let_def)

section \<open>Reassembly\<close>

definition buffers_bounded :: "'s RaftNode \<Rightarrow> bool" where
  "buffers_bounded nd \<longleftrightarrow>
     (\<forall>l b. snapshot_chunk_buffers nd l = Some b \<longrightarrow> length (cb_data b) \<le> unat MAX_INSTALL_SNAPSHOT_BYTES)"

text \<open>Feeding the chunks that are not last.\<close>

definition feed_chunks :: "'s RaftNode \<Rightarrow> InstallSnapshotArgs list \<Rightarrow> 's RaftNode" where
  "feed_chunks nd cs = fold (\<lambda>c nd. fst (assemble_snapshot nd c)) cs nd"

definition chunk_of :: "InstallSnapshotArgs \<Rightarrow> InstallSnapshotArgs \<Rightarrow> bool" where
  "chunk_of d c \<longleftrightarrow>
     is_leader_id c = is_leader_id d \<and> is_last_included_index c = is_last_included_index d \<and>
     is_last_included_term c = is_last_included_term d \<and> is_total_size c = is_total_size d"

definition chunk_buffer :: "InstallSnapshotArgs \<Rightarrow> bytes \<Rightarrow> SnapshotChunkBuffer" where
  "chunk_buffer c data =
     \<lparr>cb_data = data, cb_total_size = is_total_size c, cb_last_included_index = is_last_included_index c,
      cb_last_included_term = is_last_included_term c\<rparr>"

definition put_buffer :: "'s RaftNode \<Rightarrow> string \<Rightarrow> SnapshotChunkBuffer option \<Rightarrow> 's RaftNode" where
  "put_buffer nd l b = nd\<lparr>snapshot_chunk_buffers := (snapshot_chunk_buffers nd)(l := b)\<rparr>"

lemma put_buffer_get [simp]: "snapshot_chunk_buffers (put_buffer nd l b) = (snapshot_chunk_buffers nd)(l := b)"
  by (simp add: put_buffer_def)

lemma put_buffer_twice [simp]: "put_buffer (put_buffer nd l b) l b' = put_buffer nd l b'"
  by (simp add: put_buffer_def)

lemma put_buffer_same: "snapshot_chunk_buffers nd l = b \<Longrightarrow> put_buffer nd l b = nd"
  by (simp add: put_buffer_def fun_upd_idem)

lemma assemble_next:
  assumes "chunk_of d c" and "\<not> is_last_chunk c"
    and "snapshot_chunk_buffers nd (is_leader_id d) = Some (chunk_buffer d data) \<or>
      snapshot_chunk_buffers nd (is_leader_id d) = None \<and> data = []"
    and "length data + length (is_data c) \<le> unat MAX_INSTALL_SNAPSHOT_BYTES"
  shows "assemble_snapshot nd c =
    (put_buffer nd (is_leader_id d) (Some (chunk_buffer d (data @ is_data c))), None)"
  using assms by (auto simp: put_buffer_def assemble_snapshot_def chunk_of_def chunk_buffer_def Let_def)

lemma assemble_last:
  assumes "chunk_of d c" and "is_last_chunk c"
    and "snapshot_chunk_buffers nd (is_leader_id d) = Some (chunk_buffer d data)" and "is_offset c \<noteq> 0"
    and "length data + length (is_data c) \<le> unat MAX_INSTALL_SNAPSHOT_BYTES"
  shows "assemble_snapshot nd c = (put_buffer nd (is_leader_id d) None, Some (data @ is_data c))"
  using assms by (auto simp: put_buffer_def assemble_snapshot_def chunk_of_def chunk_buffer_def Let_def)

lemma feed_chunks_buffer:
  "\<forall>c \<in> set cs. chunk_of d c \<and> \<not> is_last_chunk c \<Longrightarrow>
   snapshot_chunk_buffers nd (is_leader_id d) = Some (chunk_buffer d data) \<or>
     snapshot_chunk_buffers nd (is_leader_id d) = None \<and> data = [] \<Longrightarrow>
   length data + length (concat (map is_data cs)) \<le> unat MAX_INSTALL_SNAPSHOT_BYTES \<Longrightarrow> cs \<noteq> [] \<Longrightarrow>
   feed_chunks nd cs =
     put_buffer nd (is_leader_id d) (Some (chunk_buffer d (data @ concat (map is_data cs))))"
proof (induction cs arbitrary: nd data)
  case (Cons c cs)
  let ?nd = "put_buffer nd (is_leader_id d) (Some (chunk_buffer d (data @ is_data c)))"
  have step: "feed_chunks nd (c # cs) = feed_chunks ?nd cs"
    using assemble_next [of d c nd data] Cons.prems by (simp add: feed_chunks_def)
  show ?case
  proof (cases "cs = []")
    case True
    with step show ?thesis by (simp add: feed_chunks_def)
  next
    case False
    have "feed_chunks ?nd cs = put_buffer ?nd (is_leader_id d)
        (Some (chunk_buffer d ((data @ is_data c) @ concat (map is_data cs))))"
      by (rule Cons.IH) (use Cons.prems False in auto)
    with step show ?thesis by simp
  qed
qed simp

text \<open>
  chunks come together again.  When no transfer from a leader is under way and it
  sends a snapshot in pieces that together respect the size limit, every piece but the
  last only fills the buffer, and the last one yields the pieces joined in the order of
  their arrival and leaves no buffer behind; the offsets they carry play no role.
\<close>

theorem snapshot_chunks_reassemble:
  assumes "snapshot_chunk_buffers nd (is_leader_id c) = None" and "cs \<noteq> []"
    and "\<forall>b \<in> set cs. chunk_of c b \<and> \<not> is_last_chunk b" and "is_last_chunk c" and "is_offset c \<noteq> 0"
    and "length (concat (map is_data cs)) + length (is_data c) \<le> unat MAX_INSTALL_SNAPSHOT_BYTES"
  shows "assemble_snapshot (feed_chunks nd cs) c = (nd, Some (concat (map is_data cs) @ is_data c))"
proof -
  have "feed_chunks nd cs =
      put_buffer nd (is_leader_id c) (Some (chunk_buffer c (concat (map is_data cs))))"
    using feed_chunks_buffer [of cs c nd "[]"] assms by simp
  moreover have "assemble_snapshot (feed_chunks nd cs) c =
      (put_buffer (feed_chunks nd cs) (is_leader_id c) None, Some (concat (map is_data cs) @ is_data c))"
    by (rule assemble_last) (use assms calculation in \<open>auto simp: chunk_of_def\<close>)
  ultimately show ?thesis using put_buffer_same [OF assms(1)] by simp
qed

theorem snapshot_chunks_reassemble_witness:
  "snd (assemble_snapshot (feed_chunks example_node
     [example_snapshot\<lparr>is_data := [1, 2], is_last_chunk := False\<rparr>])
     (example_snapshot\<lparr>is_data := [3], is_offset := 2\<rparr>)) = Some [1, 2, 3]"
  using snapshot_chunks_reassemble [of example_node "example_snapshot\<lparr>is_data := [3], is_offset := 2\<rparr>"
      "[example_snapshot\<lparr>is_data := [1, 2], is_last_chunk := False\<rparr>]"]
  by (simp add: example_node_def node_new_def with_vote_rate_limiter_config_def chunk_of_def
      example_snapshot_def signed_snapshot_def MAX_INSTALL_SNAPSHOT_BYTES_def)

text \<open>
  reassembly is bounded.  No message makes the buffer of a leader grow beyond the
  snapshot size limit.
\<close>

theorem snapshot_buffers_bounded:
  assumes "buffers_bounded nd"
  shows "buffers_bounded (fst (handle_install_snapshot E nd tf tr ms args))"
proof -
  have asm: "buffers_bounded (fst (assemble_snapshot n args))" if "buffers_bounded n" for n :: "'a RaftNode"
    using that
    by (auto simp: buffers_bounded_def assemble_snapshot_def Let_def not_less split: option.split)
  have inst: "snapshot_chunk_buffers (install_snapshot_data E n args d ms) = snapshot_chunk_buffers n" for n d
    by (cases "sm_from_slice E d"; cases "storage n"; cases "state_machine n";
        simp add: install_snapshot_data_def Let_def split_def)
  have start: "buffers_bounded (snapshot_accept E (fst (verify_install_snapshot E nd tf tr args)) args)"
    using assms by (simp add: buffers_bounded_def)
  show ?thesis
    by (cases rule: handle_install_snapshot_cases [where E = E and nd = nd and tf = tf and tr = tr
          and ms = ms and args = args])
      (use assms start asm [OF start] in \<open>auto simp: buffers_bounded_def inst\<close>)
qed

theorem snapshot_buffers_bounded_witness:
  "buffers_bounded (fst (handle_install_snapshot example_env example_node 5 5 0 example_snapshot))"
  by (rule snapshot_buffers_bounded)
    (simp add: buffers_bounded_def example_node_def node_new_def with_vote_rate_limiter_config_def)

section \<open>A whole transfer\<close>

lemma handle_install_snapshot_whole:
  assumes "snd (verify_install_snapshot E nd tf tr args)" and "current_term nd \<le> is_term args"
    and "current_term nd < is_term args \<or> current_leader_hint nd \<in> {None, Some (is_leader_id args)}"
    and "committed (rlog nd) \<le> is_last_included_index args" and "is_offset args = 0" and "is_last_chunk args"
  shows "fst (handle_install_snapshot E nd tf tr ms args) =
    install_snapshot_data E (snapshot_accept E (fst (verify_install_snapshot E nd tf tr args)) args) args
      (is_data args) ms"
proof -
  obtain n where v: "verify_install_snapshot E nd tf tr args = (n, True)"
    using assms(1) by (metis eq_snd_iff)
  have n: "current_term n = current_term nd" "rlog n = rlog nd" "current_leader_hint n = current_leader_hint nd"
    using isn.keeps [of E nd tf tr args] by (simp_all add: v)
  let ?nd2 = "snapshot_accept E n args"
  have "current_leader_hint (become_follower E n t) = None" if "current_term n < t" for t
    using that by (simp add: become_follower_def Let_def)
  then have hint: "(case current_leader_hint ?nd2 of Some known \<Rightarrow> known \<noteq> is_leader_id args | None \<Rightarrow> False) = False"
    using assms(3) n by (auto simp: snapshot_accept_def)
  have guard: "committed_guard ?nd2 args = None" using assms(4) n by (simp add: committed_guard_refuses)
  have asm: "assemble_snapshot ?nd2 args = (?nd2, Some (is_data args))"
    using assms(5,6) by (simp add: assemble_snapshot_def)
  show ?thesis
    using assms(2)
    by (simp only: handle_install_snapshot_def v Let_def prod.case fst_conv snapshot_accept_def [symmetric]
        hint guard asm option.case) (simp add: n not_less)
qed

lemma install_whole:
  assumes "sm_from_slice E d = Some snap" and "state_machine nd = Some sm"
    and "\<And>st p. storage nd = Some st \<Longrightarrow> snd (save_snapshot (store_ops E) st p) = None"
  shows "state_machine (install_snapshot_data E nd args d ms) = Some (restore_from_snapshot sm snap)"
    "rlog (install_snapshot_data E nd args d ms) = discard_through (rlog nd) (is_last_included_index args)"
    "last_snapshot_index (install_snapshot_data E nd args d ms) = is_last_included_index args"
  by (cases "storage nd"; use assms in \<open>simp add: install_snapshot_data_def Let_def split_def\<close>)+

lemma prepare_install_snapshot_fields:
  assumes "prepare_install_snapshot E nd now = Some args" and "state_machine nd = Some sm"
    and "node_log_ok nd"
  shows "sm_to_vec E (sm_snapshot sm) = Some (is_data args)" "is_last_included_index args = applied (rlog nd)"
    "is_offset args = 0" "is_last_chunk args" "is_leader_id args = rn_id nd" "is_term args = current_term nd"
proof -
  have at: "sm_last_applied sm = applied (rlog nd)" "last_snapshot_index nd \<le> applied (rlog nd)"
    using assms(2,3) by (auto simp: node_log_ok_def log_based_def)
  obtain d where d: "sm_to_vec E (sm_snapshot sm) = Some d"
    using assms(1,2) by (auto simp: prepare_install_snapshot_def Let_def split: option.splits)
  have "max (last_snapshot_index nd) (ss_last_applied (sm_snapshot sm)) = applied (rlog nd)"
    using at by (simp add: sm_snapshot_def max_def)
  then show "sm_to_vec E (sm_snapshot sm) = Some (is_data args)" "is_last_included_index args = applied (rlog nd)"
    "is_offset args = 0" "is_last_chunk args" "is_leader_id args = rn_id nd" "is_term args = current_term nd"
    using assms(1,2) d
    by (cases "cluster_secret nd"; auto simp: prepare_install_snapshot_def Let_def)+
qed

text \<open>
  C14: a snapshot transfer makes the follower's machine the leader's.  A leader packs its
  state machine into a message; a follower that verifies it, is not in a later term,
  takes the sender for its leader, has not committed further and can store the snapshot,
  ends with exactly the leader's state machine, its log compacted at the leader's applied
  index and its invariant intact.  Serialisation is assumed to read back what it wrote.
\<close>

theorem snapshot_transfer:
  assumes "prepare_install_snapshot E ldr now = Some args"
    and "node_log_ok ldr" and "state_machine ldr = Some sm" and "finite (sm_voters sm)"
    and serde: "\<And>s d. sm_to_vec E s = Some d \<Longrightarrow> sm_from_slice E d = Some s"
    and "node_log_ok nd" and "state_machine nd = Some old"
    and "snd (verify_install_snapshot E nd tf tr args)" and "current_term nd \<le> current_term ldr"
    and "current_term nd < current_term ldr \<or> current_leader_hint nd \<in> {None, Some (rn_id ldr)}"
    and "committed (rlog nd) \<le> applied (rlog ldr)"
    and store: "\<And>st p. snd (save_snapshot (store_ops E) st p) = None"
  shows "let nd' = fst (handle_install_snapshot E nd tf tr ms args) in
    state_machine nd' = Some sm \<and> last_snapshot_index nd' = applied (rlog ldr) \<and>
    applied (rlog nd') = applied (rlog ldr) \<and> node_log_ok nd'"
proof -
  note args = prepare_install_snapshot_fields [OF assms(1,3,2)]
  let ?nd2 = "snapshot_accept E (fst (verify_install_snapshot E nd tf tr args)) args"
  have run: "fst (handle_install_snapshot E nd tf tr ms args) =
      install_snapshot_data E ?nd2 args (is_data args) ms"
    by (rule handle_install_snapshot_whole) (use assms args in auto)
  have "state_machine ?nd2 = Some old" using assms(7) by simp
  note inst = install_whole [OF serde [OF args(1)] this store, where args = args and ms = ms]
  have based: "log_based (last_snapshot_index nd) (rlog nd)" using assms(6) by (rule node_log_ok_based)
  have "applied (rlog nd) \<le> applied (rlog ldr)"
    using based assms(11) by (auto simp: log_based_def log_wf_def)
  moreover have "sm_last_applied sm = applied (rlog ldr)" using assms(2,3) by (simp add: node_log_ok_def)
  moreover have "log_based (applied (rlog ldr)) (discard_through (rlog nd) (applied (rlog ldr)))"
    using log_based_discard [OF based] log_based_committed [OF based] assms(11) by simp
  ultimately show ?thesis
    using inst assms(4)
    by (simp add: run Let_def args restore_snapshot_id node_log_ok_def discard_through_watermarks)
qed

lemma prepare_install_snapshot_tag:
  assumes "prepare_install_snapshot E nd now = Some args" and "cluster_secret nd = Some secret"
  shows "is_hmac args = Some (compute_install_snapshot_hmac (hmac_sha256 E) secret args)"
    "is_timestamp_ms args = now" "is_total_size args = word_of_nat (length (is_data args))"
  using assms
  by (auto simp: prepare_install_snapshot_def Let_def compute_install_snapshot_hmac_def
      install_snapshot_mac_def split: option.splits)

lemma prepare_install_snapshot_verifies:
  assumes "prepare_install_snapshot E ldr now = Some args" and "cluster_secret ldr = Some secret"
    and "cluster_secret nd = Some secret" and "replay_cache nd = replay_cache_new"
    and "check_message_freshness tf now (max_message_age_ms nd) (max_future_skew_ms nd)"
    and "length (is_data args) \<le> unat MAX_INSTALL_SNAPSHOT_BYTES" and "\<And>tag. ct_eq E tag tag"
  shows "snd (verify_install_snapshot E nd tf tr args)"
proof -
  have "unat (word_of_nat (length (is_data args)) :: u64) = length (is_data args)"
    using assms(6) by (simp add: unat_of_nat take_bit_eq_mod MAX_INSTALL_SNAPSHOT_BYTES_def)
  then have "\<not> MAX_INSTALL_SNAPSHOT_BYTES < is_total_size args"
    using assms(6) prepare_install_snapshot_tag(3) [OF assms(1,2)] by (simp add: word_less_nat_alt)
  with assms prepare_install_snapshot_tag [OF assms(1,2)] show ?thesis
    by (simp add: verify_install_snapshot_def verify_hmac_def Let_def split_def check_and_insert_result
        replay_cache_new_def)
qed

definition packed_machine :: ClusterStateMachine where
  "packed_machine = \<lparr>sm_last_applied = 1, sm_voters = {''a'', ''b''}, sm_keys = [''k'' \<mapsto> [1]]\<rparr>"

definition packing_env :: "InMemoryStorage Env" where
  "packing_env = example_env
     \<lparr>sm_to_vec := (\<lambda>s. if s = sm_snapshot packed_machine then Some [1] else None),
      sm_from_slice := (\<lambda>d. if d = [1] then Some (sm_snapshot packed_machine) else None)\<rparr>"

definition packing_leader :: "InMemoryStorage RaftNode" where
  "packing_leader = (node_new ''b'' [''a''] 150 0)
     \<lparr>current_term := 1, rn_state := Leader, cluster_secret := Some [7],
      rlog := \<lparr>entries = [example_entry 1 1], committed = 1, applied = 1\<rparr>,
      state_machine := Some packed_machine\<rparr>"

definition empty_follower :: "InMemoryStorage RaftNode" where
  "empty_follower = (node_new ''a'' [''b''] 150 0)
     \<lparr>cluster_secret := Some [7], state_machine := Some (sm_new [])\<rparr>"

lemma packing_env_simps:
  "sm_to_vec packing_env (sm_snapshot packed_machine) = Some [1]"
  "sm_to_vec packing_env s = Some d \<Longrightarrow> sm_from_slice packing_env d = Some s"
  "store_ops packing_env = in_memory" "ct_eq packing_env tag tag"
  by (auto simp: packing_env_def split: if_splits)

lemma packing_leader_fields:
  "node_log_ok packing_leader" "state_machine packing_leader = Some packed_machine"
  "cluster_secret packing_leader = Some [7]" "current_term packing_leader = 1"
  "applied (rlog packing_leader) = 1"
  by (simp_all add: packing_leader_def node_log_ok_def log_based_def log_wf_def example_entry_def
      packed_machine_def node_new_def with_vote_rate_limiter_config_def)

lemma empty_follower_fields:
  "node_log_ok empty_follower" "state_machine empty_follower = Some (sm_new [])"
  "cluster_secret empty_follower = Some [7]" "current_term empty_follower = 0"
  "replay_cache empty_follower = replay_cache_new" "committed (rlog empty_follower) = 0"
  by (simp_all add: empty_follower_def node_log_ok_def log_based_new sm_new_def
      node_new_def with_vote_rate_limiter_config_def log_new_def) (simp add: log_based_def log_wf_def)

lemma packing_prepares:
  "\<exists>args. prepare_install_snapshot packing_env packing_leader 5 = Some args"
  by (simp add: prepare_install_snapshot_def packing_leader_fields packing_env_simps Let_def)

theorem snapshot_transfer_witness:
  "\<exists>args. prepare_install_snapshot packing_env packing_leader 5 = Some args \<and>
     state_machine (fst (handle_install_snapshot packing_env empty_follower 5 5 0 args)) = Some packed_machine"
proof -
  obtain args where prep: "prepare_install_snapshot packing_env packing_leader 5 = Some args"
    using packing_prepares by blast
  have "is_data args = [1]"
    using prepare_install_snapshot_fields(1) [OF prep packing_leader_fields(2,1)]
    by (simp add: packing_env_simps(1))
  then have "snd (verify_install_snapshot packing_env empty_follower 5 5 args)"
    by (intro prepare_install_snapshot_verifies [OF prep packing_leader_fields(3)])
      (simp_all add: empty_follower_fields check_message_freshness_def MAX_INSTALL_SNAPSHOT_BYTES_def
        packing_env_simps)
  moreover have "snd (save_snapshot (store_ops packing_env) st p) = None" for st p
    by (simp add: packing_env_simps in_memory_defs)
  ultimately show ?thesis
    using snapshot_transfer [OF prep packing_leader_fields(1,2) _ packing_env_simps(2) empty_follower_fields(1,2),
        of 5 5 0] prep
    by (auto simp: packing_leader_fields empty_follower_fields Let_def packed_machine_def)
qed

lemma become_follower_stored: "storage nd \<noteq> None \<Longrightarrow> storage (become_follower E nd t) \<noteq> None"
  by (auto simp: become_follower_def persist_hard_state_def Let_def)

text \<open>
  a snapshot that cannot be read is stored all the same.  The snapshot is persisted
  before it is parsed.  When its bytes do not parse, the running node keeps its log and
  its snapshot position, but a restart from the storage it leaves behind takes the
  unreadable snapshot's position: the entries up to it are gone and the state machine is
  not restored.
\<close>

theorem unreadable_snapshot_takes_effect_on_restart:
  assumes "snd (verify_install_snapshot E nd tf tr args)" and "current_term nd \<le> is_term args"
    and "current_term nd < is_term args \<or> current_leader_hint nd \<in> {None, Some (is_leader_id args)}"
    and "committed (rlog nd) \<le> is_last_included_index args" and "is_offset args = 0" and "is_last_chunk args"
    and "sm_from_slice E (is_data args) = None" and "store_ops E = in_memory" and "storage nd = Some st"
  shows "let nd' = fst (handle_install_snapshot E nd tf tr ms args) in
    rlog nd' = rlog nd \<and> last_snapshot_index nd' = last_snapshot_index nd \<and>
    (\<exists>st'. storage nd' = Some st' \<and>
       (let (booted, err) = attach_storage E boot st' m in
          err = None \<and> last_snapshot_index booted = is_last_included_index args \<and>
          state_machine booted = state_machine boot \<and>
          (\<forall>e \<in> set (entries (rlog booted)). is_last_included_index args < le_index e)))"
proof -
  let ?nd2 = "snapshot_accept E (fst (verify_install_snapshot E nd tf tr args)) args"
  have run: "fst (handle_install_snapshot E nd tf tr ms args) =
      install_snapshot_data E ?nd2 args (is_data args) ms"
    by (rule handle_install_snapshot_whole) (use assms in auto)
  have "storage ?nd2 \<noteq> None"
    using assms(9) become_follower_stored [of "fst (verify_install_snapshot E nd tf tr args)" E "is_term args"]
    by (simp add: snapshot_accept_def)
  then obtain st2 where st2: "storage ?nd2 = Some st2" by blast
  let ?st' = "st2\<lparr>im_snapshot := Some \<lparr>ps_last_index = is_last_included_index args,
    ps_last_term = is_last_included_term args, ps_voters = [], ps_data = is_data args\<rparr>\<rparr>"
  have inst: "install_snapshot_data E ?nd2 args (is_data args) ms =
      count_forged_snapshot (?nd2\<lparr>storage := Some ?st'\<rparr>)"
    using assms(7,8) st2 by (simp add: install_snapshot_data_def Let_def in_memory_defs)
  have "attach_storage E boot ?st' m =
      (let nd2 = boot\<lparr>current_term := hs_current_term (im_hard st2), voted_for := hs_voted_for (im_hard st2),
             rlog := fold (\<lambda>e l. log_append l e) (im_log st2) (rlog boot)\<rparr>
       in (nd2\<lparr>last_snapshot_index := is_last_included_index args,
               last_snapshot_term := is_last_included_term args,
               rlog := discard_through (rlog nd2) (is_last_included_index args), storage := Some ?st'\<rparr>, None))"
    using assms(7,8) by (simp add: attach_storage_def in_memory_defs Let_def split: option.split)
  then show ?thesis by (simp add: run inst Let_def)
qed

definition unreadable_snapshot :: InstallSnapshotArgs where
  "unreadable_snapshot = signed_snapshot example_env [7]
     \<lparr>is_term = 1, is_leader_id = ''b'', is_last_included_index = 3, is_last_included_term = 1,
      is_data = [], is_timestamp_ms = 5, is_hmac = None, is_offset = 0,
      is_total_size = 0, is_last_chunk = True\<rparr>"

definition storing_follower :: "InMemoryStorage RaftNode" where
  "storing_follower = empty_follower\<lparr>storage := Some in_memory_new\<rparr>"

lemma unreadable_verifies: "snd (verify_install_snapshot example_env storing_follower 5 5 unreadable_snapshot)"
  by (simp add: verify_install_snapshot_def unreadable_snapshot_def signed_snapshot_def storing_follower_def
      empty_follower_fields check_message_freshness_def verify_hmac_def check_and_insert_result
      replay_cache_new_def Let_def split_def compute_install_snapshot_hmac_def install_snapshot_mac_def
      MAX_INSTALL_SNAPSHOT_BYTES_def)

theorem unreadable_snapshot_takes_effect_on_restart_witness:
  "\<exists>st'. storage (fst (handle_install_snapshot example_env storing_follower 5 5 0 unreadable_snapshot)) = Some st' \<and>
     last_snapshot_index (fst (attach_storage example_env empty_follower st' 0)) = 3"
  using unreadable_snapshot_takes_effect_on_restart [OF unreadable_verifies, of in_memory_new 0 empty_follower 0]
  by (auto simp: unreadable_snapshot_def signed_snapshot_def storing_follower_def empty_follower_fields
      example_env_def Let_def)

end
