(* ===== verification/Raft_Leader.thy ===== *)
theory Raft_Leader
  imports Raft_Append
begin

text \<open>
  The leader's side of \<open>RaftNode\<close>: submitting commands, quorum-gated membership
  changes, building AppendEntries messages for the peers, processing their replies and
  advancing the commit index.  Clock readings are \<open>now\<close> (wall), \<open>now_mono\<close>
  (monotonic) and \<open>t_fresh\<close> (reply verification); \<open>draw\<close> is the random step of the
  back-off and \<open>ms\<close> the monotonic reading of a peer synchronisation.
\<close>

section \<open>Commit index\<close>

definition advance_commit_index :: "'s RaftNode \<Rightarrow> 's RaftNode" where
  "advance_commit_index nd =
     (let current_commit = committed (rlog nd);
          match_indices =
            sort (map (\<lambda>p. case match_index nd p of Some i \<Rightarrow> i | None \<Rightarrow> 0) (peers nd)
                  @ [last_index (rlog nd)]);
          majority_idx = length match_indices div 2;
          new_commit = match_indices ! majority_idx
      in if new_commit > current_commit then
           (case log_get (rlog nd) new_commit of
              Some entry \<Rightarrow>
                if le_term entry = current_term nd then nd\<lparr>rlog := log_commit (rlog nd) new_commit\<rparr>
                else nd
            | None \<Rightarrow>
                if new_commit \<le> last_snapshot_index nd \<and> last_snapshot_term nd = current_term nd
                then nd\<lparr>rlog := log_commit (rlog nd) new_commit\<rparr>
                else nd)
         else nd)"

definition submit_command :: "'s Env \<Rightarrow> 's RaftNode \<Rightarrow> u64 \<Rightarrow> RaftCommand \<Rightarrow> 's RaftNode \<times> u64 option" where
  "submit_command E nd ms command =
     (if \<not> is_leader nd then (nd, None)
      else
        let index = last_index (rlog nd) + 1;
            entry = \<lparr>le_term = current_term nd, le_index = index, le_command = command\<rparr>;
            nd1 = persist_appended E (nd\<lparr>rlog := log_append (rlog nd) entry\<rparr>) [entry];
            nd2 = (if peers nd1 = [] then apply_committed (advance_commit_index nd1) ms else nd1)
        in (nd2, Some index))"

section \<open>Membership changes\<close>

text \<open>
  The scan for an uncommitted membership entry, over \<open>(committed + 1)..=last_index\<close>.
  The range is empty when the start exceeds the end.
\<close>

definition uncommitted_config_change :: "RaftLog \<Rightarrow> bool" where
  "uncommitted_config_change l =
     list_ex (\<lambda>i. case log_get l (word_of_nat i) of Some e \<Rightarrow> is_config_change e | None \<Rightarrow> False)
       [unat (committed l + 1)..<Suc (unat (last_index l))]"

definition propose_config_change ::
  "'s RaftNode \<Rightarrow> u64 \<Rightarrow> string \<Rightarrow> string \<Rightarrow> MembershipAction \<Rightarrow>
   's RaftNode \<times> ConfigChangeProposal option" where
  "propose_config_change nd now proposal_id node_id action =
     (if \<not> is_leader nd then (nd, None)
      else if cluster_secret nd = None then (nd, None)
      else if dom (pending_config_changes nd) \<noteq> {} then (nd, None)
      else if uncommitted_config_change (rlog nd) then (nd, None)
      else
        let proposal = \<lparr>cp_proposal_id = proposal_id, cp_node_id = node_id, cp_action = action,
                        cp_timestamp_ms = now\<rparr>
        in (nd\<lparr>pending_config_changes := (pending_config_changes nd)(proposal_id \<mapsto>
                 \<lparr>pc_proposal = proposal, pc_approvers = {rn_id nd}\<rparr>)\<rparr>, Some proposal))"

definition record_config_change_approval ::
  "'s Env \<Rightarrow> 's RaftNode \<Rightarrow> u64 \<Rightarrow> ConfigChangeApproval \<Rightarrow> 's RaftNode \<times> bool" where
  "record_config_change_approval E nd t_fresh approval =
     (case cluster_secret nd of
        None \<Rightarrow> (nd, False)
      | Some secret \<Rightarrow>
          (case pending_config_changes nd (ca_proposal_id approval) of
             None \<Rightarrow> (nd, False)
           | Some pending \<Rightarrow>
               if \<not> check_message_freshness t_fresh (ca_timestamp_ms approval)
                     (max_message_age_ms nd) (max_future_skew_ms nd) then (nd, False)
               else if \<not> (case state_machine nd of
                     Some sm \<Rightarrow> ca_approver_id approval \<in> set (voters_list sm)
                   | None \<Rightarrow> ca_approver_id approval = rn_id nd
                       \<or> ca_approver_id approval \<in> set (peers nd)) then (nd, False)
               else
                 let prop = pc_proposal pending;
                     expected = compute_config_change_approval_hmac (hmac_sha256 E) secret
                       (cp_proposal_id prop) (cp_node_id prop) (cp_action prop)
                       (ca_approver_id approval) (ca_timestamp_ms approval)
                 in if \<not> verify_hmac E (ca_hmac approval) expected then (nd, False)
                    else (nd\<lparr>pending_config_changes := (pending_config_changes nd)
                            (ca_proposal_id approval \<mapsto> pending\<lparr>pc_approvers :=
                               insert (ca_approver_id approval) (pc_approvers pending)\<rparr>)\<rparr>, True)))"

definition commit_config_change_proposal ::
  "'s Env \<Rightarrow> 's RaftNode \<Rightarrow> u64 \<Rightarrow> string \<Rightarrow> 's RaftNode \<times> u64 option" where
  "commit_config_change_proposal E nd ms proposal_id =
     (if \<not> is_leader nd then (nd, None)
      else case pending_config_changes nd proposal_id of
        None \<Rightarrow> (nd, None)
      | Some pending \<Rightarrow>
          if card (pc_approvers pending) < quorum_size nd then (nd, None)
          else
            let prop = pc_proposal pending in
            case submit_command E nd ms (ConfigChange (cp_node_id prop) (cp_action prop)) of
              (nd1, None) \<Rightarrow> (nd1, None)
            | (nd1, Some idx) \<Rightarrow>
                (nd1\<lparr>pending_config_changes := (pending_config_changes nd1)(proposal_id := None)\<rparr>,
                 Some idx))"

definition config_change_approvals :: "'s RaftNode \<Rightarrow> string \<Rightarrow> nat" where
  "config_change_approvals nd proposal_id =
     (case pending_config_changes nd proposal_id of Some p \<Rightarrow> card (pc_approvers p) | None \<Rightarrow> 0)"

section \<open>Sending entries\<close>

record PreparedAppendEntries =
  pa_term :: Term
  pa_leader_id :: string
  pa_prev_log_index :: u64
  pa_prev_log_term :: Term
  pa_entries :: "LogEntry list"
  pa_leader_commit :: u64
  pa_timestamp_ms :: u64
  pa_hmac :: "bytes option"

definition into_args :: "PreparedAppendEntries \<Rightarrow> AppendEntriesArgs" where
  "into_args p =
     \<lparr>ae_term = pa_term p, ae_leader_id = pa_leader_id p, ae_prev_log_index = pa_prev_log_index p,
      ae_prev_log_term = pa_prev_log_term p, ae_entries = pa_entries p,
      ae_leader_commit = pa_leader_commit p, ae_timestamp_ms = pa_timestamp_ms p,
      ae_hmac = pa_hmac p\<rparr>"

definition prepare_append_entries_shared ::
  "'s Env \<Rightarrow> 's RaftNode \<Rightarrow> u64 \<Rightarrow> u64 \<Rightarrow> string \<Rightarrow> u64 \<Rightarrow> LogEntry list \<Rightarrow> bool \<Rightarrow>
   's RaftNode \<times> PreparedAppendEntries option" where
  "prepare_append_entries_shared E nd now now_mono peer_id base_next_idx shared round_has_config_change =
     (if rn_state nd \<noteq> Leader then (nd, None)
      else case next_index nd peer_id of
        None \<Rightarrow> (nd, None)
      | Some next_idx \<Rightarrow>
          let prev_log_index = saturating_sub next_idx 1;
              prev_log_term =
                (if prev_log_index = 0 then 0
                 else if prev_log_index = last_snapshot_index nd then last_snapshot_term nd
                 else case log_get (rlog nd) prev_log_index of Some e \<Rightarrow> le_term e | None \<Rightarrow> 0);
              es = (if next_idx \<ge> base_next_idx then
                      let offset = unat (next_idx - base_next_idx) in
                      if offset = 0 then shared
                      else if offset \<ge> length shared then []
                      else drop offset shared
                    else entries_slice_from (rlog nd) next_idx);
              has_config_change = (round_has_config_change \<and> list_ex is_config_change es);
              gated = (has_config_change \<and> min_config_change_interval_ms nd > 0)
          in if gated \<and> (case last_config_change_at nd peer_id of
                  Some lst \<Rightarrow> saturating_sub now_mono lst < min_config_change_interval_ms nd
                | None \<Rightarrow> False)
             then (nd, None)
             else
               let nd1 = (if gated then nd\<lparr>last_config_change_at :=
                           (last_config_change_at nd)(peer_id \<mapsto> now_mono)\<rparr> else nd);
                   tag = map_option (\<lambda>secret.
                     compute_append_entries_hmac_shared (hmac_sha256 E) secret (current_term nd1)
                       (rn_id nd1) prev_log_index prev_log_term es (committed (rlog nd1)) now)
                     (cluster_secret nd1)
               in (nd1, Some \<lparr>pa_term = current_term nd1, pa_leader_id = rn_id nd1,
                     pa_prev_log_index = prev_log_index, pa_prev_log_term = prev_log_term,
                     pa_entries = es, pa_leader_commit = committed (rlog nd1),
                     pa_timestamp_ms = now, pa_hmac = tag\<rparr>))"

definition prepare_append_entries ::
  "'s Env \<Rightarrow> 's RaftNode \<Rightarrow> u64 \<Rightarrow> u64 \<Rightarrow> string \<Rightarrow> 's RaftNode \<times> AppendEntriesArgs option" where
  "prepare_append_entries E nd now now_mono peer_id =
     (if rn_state nd \<noteq> Leader then (nd, None)
      else case next_index nd peer_id of
        None \<Rightarrow> (nd, None)
      | Some next_idx \<Rightarrow>
          let shared = entries_slice_from (rlog nd) next_idx;
              (nd1, prepared) = prepare_append_entries_shared E nd now now_mono peer_id next_idx shared
                (list_ex is_config_change shared)
          in (nd1, map_option into_args prepared))"

text \<open>
  One round to all peers.  \<open>clk i\<close> is the pair of wall and monotonic readings taken for
  the \<open>i\<close>-th peer.
\<close>

fun replicate_loop ::
  "'s Env \<Rightarrow> 's RaftNode \<Rightarrow> (nat \<Rightarrow> u64 \<times> u64) \<Rightarrow> nat \<Rightarrow> u64 \<Rightarrow> LogEntry list \<Rightarrow> bool \<Rightarrow> string list \<Rightarrow>
   's RaftNode \<times> (string \<times> PreparedAppendEntries) list" where
  "replicate_loop E nd clk i base shared has [] = (nd, [])"
| "replicate_loop E nd clk i base shared has (peer # ps) =
     (case prepare_append_entries_shared E nd (fst (clk i)) (snd (clk i)) peer base shared has of
        (nd1, prepared) \<Rightarrow>
          (case replicate_loop E nd1 clk (Suc i) base shared has ps of
             (nd2, msgs) \<Rightarrow>
               (nd2, (case prepared of Some p \<Rightarrow> (peer, p) # msgs | None \<Rightarrow> msgs))))"

definition min_next_index :: "(string \<rightharpoonup> u64) \<Rightarrow> string list \<Rightarrow> u64 option" where
  "min_next_index ni ps =
     fold (\<lambda>p acc. case ni p of
         Some n \<Rightarrow> Some (case acc of None \<Rightarrow> n | Some cur \<Rightarrow> min cur n)
       | None \<Rightarrow> acc) ps None"

definition replicate_to_all_prepared ::
  "'s Env \<Rightarrow> 's RaftNode \<Rightarrow> (nat \<Rightarrow> u64 \<times> u64) \<Rightarrow> 's RaftNode \<times> (string \<times> PreparedAppendEntries) list" where
  "replicate_to_all_prepared E nd clk =
     (if rn_state nd \<noteq> Leader then (nd, [])
      else
        let base = (case min_next_index (next_index nd) (peers nd) of
                      Some n \<Rightarrow> n
                    | None \<Rightarrow> saturating_add (last_index (rlog nd)) 1);
            shared = entries_slice_from (rlog nd) base
        in replicate_loop E nd clk 0 base shared (list_ex is_config_change shared) (peers nd))"

definition replicate_to_all ::
  "'s Env \<Rightarrow> 's RaftNode \<Rightarrow> (nat \<Rightarrow> u64 \<times> u64) \<Rightarrow> 's RaftNode \<times> (string \<times> AppendEntriesArgs) list" where
  "replicate_to_all E nd clk =
     (let (nd1, msgs) = replicate_to_all_prepared E nd clk
      in (nd1, map (\<lambda>(peer, p). (peer, into_args p)) msgs))"

section \<open>Replies\<close>

text \<open>The production build verifies every reply.\<close>

definition handle_append_entries_reply ::
  "'s Env \<Rightarrow> 's RaftNode \<Rightarrow> u64 \<Rightarrow> u64 \<Rightarrow> u64 \<Rightarrow> string \<Rightarrow> AppendEntriesReply \<Rightarrow> nat \<Rightarrow> 's RaftNode" where
  "handle_append_entries_reply E nd t_fresh draw ms peer_id reply entries_sent =
     (let (nd1, ok) = verify_append_entries_reply E nd t_fresh reply in
      if \<not> ok then nd1\<lparr>forged_reply_rejects := forged_reply_rejects nd1 + 1\<rparr>
      else if aer_term reply > current_term nd1 then become_follower E nd1 (aer_term reply)
      else if aer_success reply then
        let nd2 = (case next_index nd1 peer_id of
                Some ni \<Rightarrow>
                  let new_match = saturating_add (saturating_sub ni 1) (word_of_nat entries_sent)
                  in nd1\<lparr>next_index := (next_index nd1)(peer_id \<mapsto> saturating_add new_match 1),
                         match_index := (match_index nd1)(peer_id \<mapsto> new_match)\<rparr>
              | None \<Rightarrow> nd1);
            prev_commit = committed (rlog nd2);
            nd3 = advance_commit_index nd2;
            nd4 = (if committed (rlog nd3) > prev_commit
                   then sync_committed_state_best_effort E nd3 else nd3)
        in maybe_snapshot E (apply_committed nd4 ms)
      else
        (case next_index nd1 peer_id of
           Some ni \<Rightarrow>
             if ni > 1 then
               let step = (if ni > 4 then draw else 1)
               in nd1\<lparr>next_index := (next_index nd1)(peer_id \<mapsto> max (saturating_sub ni step) 1)\<rparr>
             else nd1
         | None \<Rightarrow> nd1))"

section \<open>Counting replicas\<close>

text \<open>
  In a sorted list, the elements not below the one at position \<open>k\<close> are at least those
  from \<open>k\<close> on.
\<close>

lemma sorted_upper_count:
  assumes "sorted xs" and "k < length xs"
  shows "length xs - k \<le> length (filter (\<lambda>x. xs ! k \<le> x) xs)"
proof -
  have "filter (\<lambda>x. xs ! k \<le> x) (drop k xs) = drop k xs"
    using assms by (auto simp: filter_id_conv in_set_conv_nth intro!: sorted_nth_mono)
  moreover have "length (filter (\<lambda>x. xs ! k \<le> x) xs) =
      length (filter (\<lambda>x. xs ! k \<le> x) (take k xs)) + length (filter (\<lambda>x. xs ! k \<le> x) (drop k xs))"
    by (metis append_take_drop_id filter_append length_append)
  ultimately show ?thesis by simp
qed

definition replica_index :: "'s RaftNode \<Rightarrow> string \<Rightarrow> u64" where
  "replica_index nd p = (case match_index nd p of Some i \<Rightarrow> i | None \<Rightarrow> 0)"

text \<open>How many nodes of the cluster, the leader included, are known to reach an index.\<close>

definition replicas_at :: "'s RaftNode \<Rightarrow> u64 \<Rightarrow> nat" where
  "replicas_at nd i =
     length (filter (\<lambda>p. i \<le> replica_index nd p) (peers nd)) + (if i \<le> last_index (rlog nd) then 1 else 0)"

lemma advance_commit_index_cases:
  obtains "advance_commit_index nd = nd"
  | i where "advance_commit_index nd = nd\<lparr>rlog := log_commit (rlog nd) i\<rparr>" "committed (rlog nd) < i"
    "(length (peers nd) + 1) - (length (peers nd) + 1) div 2 \<le> replicas_at nd i"
    "(\<exists>e. log_get (rlog nd) i = Some e \<and> le_term e = current_term nd) \<or>
     log_get (rlog nd) i = None \<and> i \<le> last_snapshot_index nd \<and> last_snapshot_term nd = current_term nd"
proof -
  define ms where "ms = map (replica_index nd) (peers nd) @ [last_index (rlog nd)]"
  define i where "i = sort ms ! (length ms div 2)"
  have ms': "map (\<lambda>p. case match_index nd p of Some i \<Rightarrow> i | None \<Rightarrow> 0) (peers nd) @ [last_index (rlog nd)] = ms"
    by (simp add: ms_def replica_index_def)
  have i': "sort ms ! (length (sort ms) div 2) = i" by (simp add: i_def)
  have adv: "advance_commit_index nd =
      (if committed (rlog nd) < i then
         (case log_get (rlog nd) i of
            Some entry \<Rightarrow>
              if le_term entry = current_term nd then nd\<lparr>rlog := log_commit (rlog nd) i\<rparr> else nd
          | None \<Rightarrow>
              if i \<le> last_snapshot_index nd \<and> last_snapshot_term nd = current_term nd
              then nd\<lparr>rlog := log_commit (rlog nd) i\<rparr> else nd)
       else nd)"
    by (simp only: advance_commit_index_def Let_def ms' i')
  have "length (sort ms) - length ms div 2 \<le> length (filter (\<lambda>x. i \<le> x) (sort ms))"
    unfolding i_def by (rule sorted_upper_count) (auto simp: ms_def)
  also have "length (filter (\<lambda>x. i \<le> x) (sort ms)) = length (filter (\<lambda>x. i \<le> x) ms)"
    by (metis filter_sort length_sort)
  finally have "(length (peers nd) + 1) - (length (peers nd) + 1) div 2 \<le> replicas_at nd i"
    by (auto simp: replicas_at_def ms_def filter_map o_def split: if_splits)
  with that adv show ?thesis by (auto split: option.splits if_splits)
qed

lemma advance_commit_index_keeps [simp]:
  "rn_id (advance_commit_index nd) = rn_id nd"
  "rn_state (advance_commit_index nd) = rn_state nd"
  "current_term (advance_commit_index nd) = current_term nd"
  "voted_for (advance_commit_index nd) = voted_for nd"
  "peers (advance_commit_index nd) = peers nd"
  "match_index (advance_commit_index nd) = match_index nd"
  "next_index (advance_commit_index nd) = next_index nd"
  "storage (advance_commit_index nd) = storage nd"
  "state_machine (advance_commit_index nd) = state_machine nd"
  "snapshot_interval (advance_commit_index nd) = snapshot_interval nd"
  "last_snapshot_index (advance_commit_index nd) = last_snapshot_index nd"
  "last_snapshot_term (advance_commit_index nd) = last_snapshot_term nd"
  "pending_config_changes (advance_commit_index nd) = pending_config_changes nd"
  by (cases rule: advance_commit_index_cases [of nd], simp, simp)+

lemma advance_commit_index_log:
  "\<exists>i. rlog (advance_commit_index nd) = log_commit (rlog nd) i"
proof (cases rule: advance_commit_index_cases [of nd])
  case 1
  then have "rlog (advance_commit_index nd) = log_commit (rlog nd) (committed (rlog nd))"
    by (simp add: log_commit_def)
  then show ?thesis ..
qed auto

lemma advance_commit_index_ok: "node_log_ok nd \<Longrightarrow> node_log_ok (advance_commit_index nd)"
  using advance_commit_index_log [of nd] by (auto simp: node_log_ok_def log_based_commit)

lemma advance_commit_index_get [simp]: "log_get (rlog (advance_commit_index nd)) i = log_get (rlog nd) i"
  using advance_commit_index_log [of nd] by auto

section \<open>The leader's own log\<close>

text \<open>Entries above the snapshot are never changed or removed.\<close>

definition log_grows :: "'s RaftNode \<Rightarrow> 's RaftNode \<Rightarrow> bool" where
  "log_grows nd nd' \<longleftrightarrow>
     last_snapshot_index nd \<le> last_snapshot_index nd' \<and>
     committed (rlog nd) \<le> committed (rlog nd') \<and>
     (\<forall>i e. log_get (rlog nd) i = Some e \<longrightarrow> last_snapshot_index nd' < i \<longrightarrow> log_get (rlog nd') i = Some e)"

lemma log_grows_refl [simp]: "log_grows nd nd"
  by (simp add: log_grows_def)

lemma log_grows_trans: "log_grows a b \<Longrightarrow> log_grows b c \<Longrightarrow> log_grows a c"
  unfolding log_grows_def by (meson order.trans order.strict_trans1)

lemma log_grows_same:
  "rlog nd' = rlog nd \<Longrightarrow> last_snapshot_index nd' = last_snapshot_index nd \<Longrightarrow> log_grows nd nd'"
  by (simp add: log_grows_def)

lemma log_grows_advance: "log_grows nd (advance_commit_index nd)"
  using advance_commit_index_log [of nd] log_commit_mono by (auto simp: log_grows_def)

lemma log_grows_apply: "node_log_ok nd \<Longrightarrow> log_grows nd (apply_committed nd m)"
  by (simp add: log_grows_def apply_committed_get)

lemma log_grows_finish: "node_log_ok nd \<Longrightarrow> log_grows nd (maybe_snapshot E (apply_committed nd m))"
  using finish_marks [of nd E m] by (simp add: log_grows_def)

text \<open>The position a leader gives to its next entry is the next one of its log.\<close>

definition can_submit :: "'s RaftNode \<Rightarrow> bool" where
  "can_submit nd \<longleftrightarrow>
     last_index (rlog nd) \<noteq> u64_max \<and> (entries (rlog nd) \<noteq> [] \<or> last_snapshot_index nd = 0)"

lemma submit_position:
  assumes "node_log_ok nd" and "can_submit nd"
  shows "unat (last_index (rlog nd) + 1) = log_next (rlog nd)"
  using assms unat_plus_one [of "last_index (rlog nd)"]
  by (auto simp: can_submit_def log_next_def node_log_ok_def log_based_def last_index_def)

lemma submit_log:
  fixes c :: RaftCommand and E :: "'s Env" and nd :: "'s RaftNode"
  assumes ok: "node_log_ok nd" and can: "can_submit nd"
  defines "e \<equiv> \<lparr>le_term = current_term nd, le_index = last_index (rlog nd) + 1, le_command = c\<rparr>"
  defines "nd1 \<equiv> persist_appended E (nd\<lparr>rlog := log_append (rlog nd) e\<rparr>) [e]"
  shows "node_log_ok nd1" "log_grows nd nd1" "log_get (rlog nd1) (le_index e) = Some e"
proof -
  note based = node_log_ok_based [OF ok]
  have top: "unat (le_index e) = log_next (rlog nd)" using submit_position [OF ok can] by (simp add: e_def)
  show "node_log_ok nd1"
    using ok log_based_append [OF based top] by (simp add: nd1_def node_log_ok_def)
  show "log_get (rlog nd1) (le_index e) = Some e"
    using log_get_append [OF log_based_wf [OF based] top] by (simp add: nd1_def)
  have "log_get (rlog nd) (le_index e) = None"
    using log_based_get [OF based, of "le_index e"] log_based_next [OF based] top by simp
  then show "log_grows nd nd1"
    using log_get_append [OF log_based_wf [OF based] top] by (auto simp: log_grows_def nd1_def)
qed

lemma submit_command_effect:
  assumes "node_log_ok nd" and "can_submit nd" and "is_leader nd"
  shows "\<exists>nd'. submit_command E nd ms c = (nd', Some (last_index (rlog nd) + 1)) \<and>
    node_log_ok nd' \<and> log_grows nd nd' \<and>
    log_get (rlog nd') (last_index (rlog nd) + 1) =
      Some \<lparr>le_term = current_term nd, le_index = last_index (rlog nd) + 1, le_command = c\<rparr>"
proof -
  let ?e = "\<lparr>le_term = current_term nd, le_index = last_index (rlog nd) + 1, le_command = c\<rparr>"
  let ?nd1 = "persist_appended E (nd\<lparr>rlog := log_append (rlog nd) ?e\<rparr>) [?e]"
  let ?nd2 = "apply_committed (advance_commit_index ?nd1) ms"
  note sub = submit_log [OF assms(1,2), where c = c and E = E]
  have adv: "node_log_ok (advance_commit_index ?nd1)" using sub(1) by (rule advance_commit_index_ok)
  have "log_grows nd ?nd2"
    using log_grows_trans [OF sub(2) log_grows_trans [OF log_grows_advance log_grows_apply [OF adv]]] .
  moreover have "log_get (rlog ?nd2) (last_index (rlog nd) + 1) = Some ?e"
    using sub(3) by (simp add: apply_committed_get(1) [OF adv])
  ultimately show ?thesis
    using sub assms(3) apply_committed_ok [OF adv, of ms] by (simp add: submit_command_def Let_def)
qed

section \<open>Properties of the commit rule\<close>

text \<open>
  C3: the commit rule in a cluster with an odd number of nodes, that is with an even
  number of peers.  When the commit index moves, it moves up to an index that a strict
  majority of the nodes, the leader included, are recorded to have reached, and whose
  entry is of the leader's own term (or which lies in a snapshot of that term).  With an
  even number of nodes the rule does not ask for a majority: half of the nodes are enough,
  as \<open>two_node_leader_commits_alone\<close> below shows, although the comments of the code speak
  of a majority throughout.
\<close>

theorem commit_has_replicas:
  assumes "advance_commit_index nd \<noteq> nd" and "even (length (peers nd))"
  shows "\<exists>i. rlog (advance_commit_index nd) = log_commit (rlog nd) i \<and> committed (rlog nd) < i \<and>
    quorum_size nd \<le> replicas_at nd i \<and> length (peers nd) + 1 < 2 * replicas_at nd i \<and>
    ((\<exists>e. log_get (rlog nd) i = Some e \<and> le_term e = current_term nd) \<or>
     i \<le> last_snapshot_index nd \<and> last_snapshot_term nd = current_term nd)"
proof (cases rule: advance_commit_index_cases [of nd])
  case 1
  with assms show ?thesis by simp
next
  case (2 i)
  have "quorum_size nd = (length (peers nd) + 1) - (length (peers nd) + 1) div 2"
    "length (peers nd) + 1 < 2 * quorum_size nd"
    using assms(2) by (auto simp: quorum_size_def elim!: evenE)
  with 2 show ?thesis by (intro exI [of _ i]) auto
qed

text \<open>
  two nodes commit without a quorum.  In a cluster of two the position picked from the
  sorted indices is the larger one: a leader commits its last entry as soon as the rule
  runs, although its only peer is known to have nothing and a quorum is two nodes.
\<close>

theorem two_node_leader_commits_alone:
  assumes "peers nd = [p]" and "match_index nd p = Some 0" and "log_wf (rlog nd)"
    and "committed (rlog nd) < last_index (rlog nd)" and "last_term (rlog nd) = current_term nd"
  shows "quorum_size nd = 2 \<and> replicas_at nd (last_index (rlog nd)) = 1 \<and>
    committed (rlog (advance_commit_index nd)) = last_index (rlog nd)"
proof -
  have ne: "entries (rlog nd) \<noteq> []" using assms(4) by (auto simp: last_index_def)
  have get: "log_get (rlog nd) (last_index (rlog nd)) = Some (last (entries (rlog nd)))"
    using assms(3) ne by (rule log_get_last)
  have "le_term (last (entries (rlog nd))) = current_term nd"
    using assms(5) ne by (simp add: last_term_def)
  moreover have "0 < last_index (rlog nd)" using assms(4) by (simp add: word_less_nat_alt)
  ultimately show ?thesis
    using assms(1,2,4) get
    by (simp add: quorum_size_def replicas_at_def replica_index_def advance_commit_index_def
        insort_key_def log_commit_def)
qed

definition example_leader :: "InMemoryStorage RaftNode" where
  "example_leader = (node_new ''a'' [''b'', ''c''] 150 0)
     \<lparr>rn_state := Leader, current_term := 1, cluster_secret := Some [7],
      rlog := \<lparr>entries = [example_entry 1 1, example_entry 1 2], committed = 0, applied = 0\<rparr>,
      next_index := [''b'' \<mapsto> 3, ''c'' \<mapsto> 3], match_index := [''b'' \<mapsto> 2, ''c'' \<mapsto> 0]\<rparr>"

lemma example_leader_fields:
  "rlog example_leader = \<lparr>entries = [example_entry 1 1, example_entry 1 2], committed = 0, applied = 0\<rparr>"
  "peers example_leader = [''b'', ''c'']" "current_term example_leader = 1"
  "match_index example_leader = [''b'' \<mapsto> 2, ''c'' \<mapsto> 0]" "next_index example_leader = [''b'' \<mapsto> 3, ''c'' \<mapsto> 3]"
  "last_snapshot_index example_leader = 0" "rn_state example_leader = Leader"
  "cluster_secret example_leader = Some [7]" "state_machine example_leader = None"
  "pending_config_changes example_leader = Map.empty" "rn_id example_leader = ''a''"
  "max_message_age_ms example_leader = 30000" "max_future_skew_ms example_leader = MAX_FUTURE_SKEW_MS"
  by (simp_all add: example_leader_def node_new_def with_vote_rate_limiter_config_def Let_def)

lemma example_leader_commits: "committed (rlog (advance_commit_index example_leader)) = 2"
  by (simp add: advance_commit_index_def example_leader_fields last_index_def example_entry_def
      log_get_def log_commit_def word_less_nat_alt word_le_nat_alt)

theorem commit_has_replicas_witness:
  "\<exists>i. rlog (advance_commit_index example_leader) = log_commit (rlog example_leader) i \<and>
    committed (rlog example_leader) < i \<and> 2 \<le> replicas_at example_leader i"
proof -
  have "advance_commit_index example_leader \<noteq> example_leader"
    using example_leader_commits by (auto simp: example_leader_fields)
  from commit_has_replicas [OF this] show ?thesis
    by (auto simp: example_leader_fields quorum_size_def)
qed

theorem two_node_leader_commits_alone_witness:
  "committed (rlog (advance_commit_index
     (example_leader\<lparr>peers := [''b''], match_index := [''b'' \<mapsto> 0]\<rparr>))) = 2"
  using two_node_leader_commits_alone
    [of "example_leader\<lparr>peers := [''b''], match_index := [''b'' \<mapsto> 0]\<rparr>" "''b''"]
  by (simp add: example_leader_fields log_wf_def last_index_def last_term_def example_entry_def)

text \<open>
  submitting.  A leader that is not out of positions and whose log is not compacted
  to nothing answers a command with the next index of its log, holds the entry there in
  its own term, and changes none of its other entries.  Nobody but a leader accepts a
  command.
\<close>

theorem submit_command_appends:
  assumes "node_log_ok nd" and "can_submit nd"
  shows "if is_leader nd then
      \<exists>nd'. submit_command E nd ms c = (nd', Some (last_index (rlog nd) + 1)) \<and>
        unat (last_index (rlog nd) + 1) = log_next (rlog nd) \<and>
        node_log_ok nd' \<and> log_grows nd nd' \<and>
        log_get (rlog nd') (last_index (rlog nd) + 1) =
          Some \<lparr>le_term = current_term nd, le_index = last_index (rlog nd) + 1, le_command = c\<rparr>
    else submit_command E nd ms c = (nd, None)"
  using submit_command_effect [OF assms, of E ms c] submit_position [OF assms]
  by (auto simp: submit_command_def)

lemma example_leader_ok: "node_log_ok example_leader" "can_submit example_leader"
  by (simp_all add: node_log_ok_def example_leader_fields log_based_def log_wf_def example_entry_def
      can_submit_def last_index_def)

theorem submit_command_appends_witness:
  "snd (submit_command example_env example_leader 0 Noop) = Some 3"
  using submit_command_appends [OF example_leader_ok, of example_env 0 Noop]
  by (auto simp: is_leader_def example_leader_fields last_index_def example_entry_def)

text \<open>
  a log compacted to nothing forgets its position.  When a snapshot covers the whole
  log, a leader gives the next command index 1 again, an index that is already committed,
  so the caller cannot tell the command from a committed one; the log then no longer
  starts above the snapshot.
\<close>

theorem compacted_log_reuses_index:
  assumes "node_log_ok nd" and "is_leader nd" and "entries (rlog nd) = []"
    and "0 < last_snapshot_index nd" and "peers nd \<noteq> []"
  shows "\<exists>nd'. submit_command E nd ms c = (nd', Some 1) \<and> 1 \<le> committed (rlog nd') \<and>
    entries (rlog nd') = [\<lparr>le_term = current_term nd, le_index = 1, le_command = c\<rparr>] \<and>
    \<not> node_log_ok nd'"
proof -
  have "committed (rlog nd) = last_snapshot_index nd"
    using assms(1,3) by (simp add: node_log_ok_def log_based_def)
  then have "1 \<le> committed (rlog nd)" using assms(4) by (simp add: word_less_nat_alt word_le_nat_alt)
  moreover have "0 < unat (last_snapshot_index nd)" using assms(4) by (simp add: word_less_nat_alt)
  ultimately show ?thesis
    using assms(2-5)
    by (auto simp: submit_command_def last_index_def Let_def node_log_ok_def log_based_def)
qed

theorem compacted_log_reuses_index_witness:
  "snd (submit_command example_env (example_leader
     \<lparr>rlog := \<lparr>entries = [], committed = 7, applied = 7\<rparr>, last_snapshot_index := 7\<rparr>) 0 Noop) = Some 1"
  using compacted_log_reuses_index [of "example_leader
     \<lparr>rlog := \<lparr>entries = [], committed = 7, applied = 7\<rparr>, last_snapshot_index := 7\<rparr>" example_env 0 Noop]
  by (auto simp: example_leader_fields node_log_ok_def log_based_def log_wf_def is_leader_def)

section \<open>Messages to followers\<close>

lemma unat_pred_index:
  "0 < i \<Longrightarrow> unat (saturating_sub i 1) = unat i - 1" for i :: u64
  by (simp add: saturating_sub_def word_less_nat_alt word_le_nat_alt unat_sub)

lemma entries_slice_after:
  assumes "log_wf l" and "0 < n"
  shows "entries_slice_from l n = filter (\<lambda>e. saturating_sub n 1 < le_index e) (entries l)"
proof -
  have "n \<le> le_index e \<longleftrightarrow> saturating_sub n 1 < le_index e" for e :: LogEntry
    using unat_pred_index [OF assms(2)] assms(2) by (auto simp: word_le_nat_alt word_less_nat_alt)
  then show ?thesis by (simp only: entries_slice_from_filter [OF assms(1), of n])
qed

text \<open>The message for a peer whose next index is \<open>n\<close>, and the membership gate before it.\<close>

definition message_for :: "'s Env \<Rightarrow> 's RaftNode \<Rightarrow> u64 \<Rightarrow> u64 \<Rightarrow> LogEntry list \<Rightarrow> PreparedAppendEntries" where
  "message_for E nd now n es =
     (let prev = saturating_sub n 1;
          pterm = (if prev = 0 then 0
                   else if prev = last_snapshot_index nd then last_snapshot_term nd
                   else case log_get (rlog nd) prev of Some e \<Rightarrow> le_term e | None \<Rightarrow> 0)
      in \<lparr>pa_term = current_term nd, pa_leader_id = rn_id nd, pa_prev_log_index = prev,
          pa_prev_log_term = pterm, pa_entries = es, pa_leader_commit = committed (rlog nd),
          pa_timestamp_ms = now,
          pa_hmac = map_option (\<lambda>k. compute_append_entries_hmac_shared (hmac_sha256 E) k (current_term nd)
            (rn_id nd) prev pterm es (committed (rlog nd)) now) (cluster_secret nd)\<rparr>)"

definition send_gate ::
  "'s RaftNode \<Rightarrow> u64 \<Rightarrow> string \<Rightarrow> LogEntry list \<Rightarrow> PreparedAppendEntries \<Rightarrow>
   's RaftNode \<times> PreparedAppendEntries option" where
  "send_gate nd now_mono p es msg =
     (if list_ex is_config_change es \<and> min_config_change_interval_ms nd > 0 then
        if (case last_config_change_at nd p of
              Some lst \<Rightarrow> saturating_sub now_mono lst < min_config_change_interval_ms nd | None \<Rightarrow> False)
        then (nd, None)
        else (nd\<lparr>last_config_change_at := (last_config_change_at nd)(p \<mapsto> now_mono)\<rparr>, Some msg)
      else (nd, Some msg))"

lemma prepare_shared_eq:
  assumes "rn_state nd = Leader" and "next_index nd p = Some n"
    and "es = (if n \<ge> base then drop (unat (n - base)) shared else entries_slice_from (rlog nd) n)"
    and "list_ex is_config_change es \<Longrightarrow> has"
  shows "prepare_append_entries_shared E nd now nm p base shared has =
    send_gate nd nm p es (message_for E nd now n es)"
proof -
  have "(if n \<ge> base then
        let offset = unat (n - base) in
        if offset = 0 then shared else if offset \<ge> length shared then [] else drop offset shared
      else entries_slice_from (rlog nd) n) = es"
    using assms(3) by (simp add: Let_def)
  note es = this [unfolded Let_def]
  have has: "(has \<and> list_ex is_config_change es) = list_ex is_config_change es" using assms(4) by auto
  show ?thesis
  proof (cases "list_ex is_config_change es \<and> min_config_change_interval_ms nd > 0")
    case gated: True
    show ?thesis
    proof (cases "case last_config_change_at nd p of
        Some lst \<Rightarrow> saturating_sub nm lst < min_config_change_interval_ms nd | None \<Rightarrow> False")
      case True
      with gated has show ?thesis
        by (simp only: prepare_append_entries_shared_def assms(1,2) option.case Let_def es send_gate_def) simp
    next
      case False
      with gated has show ?thesis
        by (simp only: prepare_append_entries_shared_def assms(1,2) option.case Let_def es send_gate_def message_for_def) simp
    qed
  next
    case False
    with has show ?thesis
      by (simp only: prepare_append_entries_shared_def assms(1,2) option.case Let_def es send_gate_def message_for_def) simp
  qed
qed

lemma prepare_append_entries_eq:
  assumes "rn_state nd = Leader" and "next_index nd p = Some n"
  shows "prepare_append_entries E nd now nm p =
    (let es = entries_slice_from (rlog nd) n;
         (nd', msg) = send_gate nd nm p es (message_for E nd now n es)
     in (nd', map_option into_args msg))"
proof -
  have "prepare_append_entries_shared E nd now nm p n (entries_slice_from (rlog nd) n)
      (list_ex is_config_change (entries_slice_from (rlog nd) n)) =
    send_gate nd nm p (entries_slice_from (rlog nd) n)
      (message_for E nd now n (entries_slice_from (rlog nd) n))"
    by (rule prepare_shared_eq [OF assms]) simp_all
  then show ?thesis by (simp add: prepare_append_entries_def assms Let_def)
qed

lemma entries_slice_drop:
  assumes based: "log_based b l" and m: "b < m"
  shows "entries_slice_from l m = drop (unat m - Suc (unat b)) (entries l)"
proof -
  let ?k = "unat m - Suc (unat b)"
  have idx: "unat (le_index (entries l ! j)) = Suc (unat b + j)" if "j < length (entries l)" for j
    using log_based_nth [OF based that] .
  have "filter (\<lambda>e. m \<le> le_index e) (take ?k (entries l)) = []"
    using idx m by (auto simp: filter_empty_conv in_set_conv_nth word_le_nat_alt word_less_nat_alt)
  moreover have "filter (\<lambda>e. m \<le> le_index e) (drop ?k (entries l)) = drop ?k (entries l)"
    using idx m by (auto simp: filter_id_conv in_set_conv_nth word_le_nat_alt word_less_nat_alt)
  moreover have "filter (\<lambda>e. m \<le> le_index e) (entries l) =
      filter (\<lambda>e. m \<le> le_index e) (take ?k (entries l)) @ filter (\<lambda>e. m \<le> le_index e) (drop ?k (entries l))"
    by (metis append_take_drop_id filter_append)
  ultimately show ?thesis using entries_slice_from_filter [OF log_based_wf [OF based], of m] by simp
qed

lemma entries_slice_nested:
  assumes "log_based b l" and "b < base" and "base \<le> n"
  shows "drop (unat (n - base)) (entries_slice_from l base) = entries_slice_from l n"
proof -
  have "b < n" using assms(2,3) by simp
  then show ?thesis
    using entries_slice_drop [OF assms(1,2)] entries_slice_drop [OF assms(1), of n] assms(2,3)
    by (simp add: unat_sub word_less_nat_alt word_le_nat_alt)
qed

text \<open>The base of a round is the smallest next index.\<close>

lemma min_next_index_fold:
  "fold (\<lambda>p acc. case ni p of
         Some n \<Rightarrow> Some (case acc of None \<Rightarrow> n | Some cur \<Rightarrow> min cur n)
       | None \<Rightarrow> acc) ps acc = Some m \<longleftrightarrow>
     (let ns = (case acc of Some c \<Rightarrow> {c} | None \<Rightarrow> {}) \<union> {n. \<exists>p \<in> set ps. ni p = Some n}
      in m \<in> ns \<and> (\<forall>n \<in> ns. m \<le> (n :: u64)))"
proof (induction ps arbitrary: acc)
  case Nil
  then show ?case by (auto split: option.splits)
next
  case (Cons p ps)
  show ?case
    unfolding fold_simps(2) o_apply Cons.IH
    by (cases "ni p"; cases acc) (auto simp: Let_def min_def)
qed

lemma min_next_index_Some:
  "min_next_index ni ps = Some m \<longleftrightarrow>
     (\<exists>p \<in> set ps. ni p = Some m) \<and> (\<forall>p \<in> set ps. \<forall>n. ni p = Some n \<longrightarrow> m \<le> n)"
  unfolding min_next_index_def min_next_index_fold by (auto simp: Let_def)

lemma min_next_index_None: "min_next_index ni ps = None \<Longrightarrow> p \<in> set ps \<Longrightarrow> ni p = None"
proof (rule ccontr)
  assume none: "min_next_index ni ps = None" and p: "p \<in> set ps" "ni p \<noteq> None"
  let ?ns = "{n. \<exists>p \<in> set ps. ni p = Some n}"
  have "?ns = (\<lambda>p. the (ni p)) ` {p \<in> set ps. ni p \<noteq> None}" by force
  then have "finite ?ns" by simp
  moreover have "?ns \<noteq> {}" using p by auto
  ultimately have "Min ?ns \<in> ?ns" "\<forall>n \<in> ?ns. Min ?ns \<le> n" by (rule Min_in, simp)
  then have "min_next_index ni ps = Some (Min ?ns)" unfolding min_next_index_Some by blast
  with none show False by simp
qed

lemma send_gate_keeps [simp]:
  "rlog (fst (send_gate nd nm p es msg)) = rlog nd"
  "rn_state (fst (send_gate nd nm p es msg)) = rn_state nd"
  "rn_id (fst (send_gate nd nm p es msg)) = rn_id nd"
  "current_term (fst (send_gate nd nm p es msg)) = current_term nd"
  "voted_for (fst (send_gate nd nm p es msg)) = voted_for nd"
  "peers (fst (send_gate nd nm p es msg)) = peers nd"
  "storage (fst (send_gate nd nm p es msg)) = storage nd"
  "state_machine (fst (send_gate nd nm p es msg)) = state_machine nd"
  "next_index (fst (send_gate nd nm p es msg)) = next_index nd"
  "match_index (fst (send_gate nd nm p es msg)) = match_index nd"
  "last_snapshot_index (fst (send_gate nd nm p es msg)) = last_snapshot_index nd"
  "last_snapshot_term (fst (send_gate nd nm p es msg)) = last_snapshot_term nd"
  "pending_config_changes (fst (send_gate nd nm p es msg)) = pending_config_changes nd"
  by (simp_all add: send_gate_def)

text \<open>One message after the other, each built for its peer alone.\<close>

fun prepare_each ::
  "'s Env \<Rightarrow> 's RaftNode \<Rightarrow> (nat \<Rightarrow> u64 \<times> u64) \<Rightarrow> nat \<Rightarrow> string list \<Rightarrow>
   's RaftNode \<times> (string \<times> AppendEntriesArgs) list" where
  "prepare_each E nd clk i [] = (nd, [])"
| "prepare_each E nd clk i (p # ps) =
     (let (nd1, msg) = prepare_append_entries E nd (fst (clk i)) (snd (clk i)) p;
          (nd2, msgs) = prepare_each E nd1 clk (Suc i) ps
      in (nd2, (case msg of Some m \<Rightarrow> (p, m) # msgs | None \<Rightarrow> msgs)))"

lemma shared_step:
  assumes "rn_state nd = Leader" and "log_based (last_snapshot_index nd) (rlog nd)"
    and "last_snapshot_index nd < base" and "\<And>n. next_index nd p = Some n \<Longrightarrow> base \<le> n"
  shows "prepare_append_entries E nd now nm p =
    (let (nd1, msg) = prepare_append_entries_shared E nd now nm p base
           (entries_slice_from (rlog nd) base)
           (list_ex is_config_change (entries_slice_from (rlog nd) base))
     in (nd1, map_option into_args msg))"
proof (cases "next_index nd p")
  case None
  then show ?thesis
    by (simp add: prepare_append_entries_def prepare_append_entries_shared_def assms(1))
next
  case (Some n)
  let ?es = "entries_slice_from (rlog nd) n"
  have drop: "drop (unat (n - base)) (entries_slice_from (rlog nd) base) = ?es"
    using assms(2,3) assms(4) [OF Some] by (rule entries_slice_nested)
  have "set ?es \<subseteq> set (entries_slice_from (rlog nd) base)"
    unfolding drop [symmetric] by (rule set_drop_subset)
  then have "prepare_append_entries_shared E nd now nm p base (entries_slice_from (rlog nd) base)
      (list_ex is_config_change (entries_slice_from (rlog nd) base)) =
    send_gate nd nm p ?es (message_for E nd now n ?es)"
    using assms(4) [OF Some] drop
    by (intro prepare_shared_eq [OF assms(1) Some]) (auto simp: list_ex_iff)
  then show ?thesis by (simp add: prepare_append_entries_eq [OF assms(1) Some] Let_def)
qed

lemma prepare_shared_keeps:
  assumes "prepare_append_entries_shared E nd now nm p base shared has = (nd1, msg)"
    and "rn_state nd = Leader"
  shows "rlog nd1 = rlog nd" "rn_state nd1 = Leader" "next_index nd1 = next_index nd"
    "last_snapshot_index nd1 = last_snapshot_index nd"
  using assms
  by (auto simp: prepare_append_entries_shared_def Let_def split: option.splits if_splits)

lemma replicate_loop_each:
  assumes "rn_state nd = Leader" and "log_based (last_snapshot_index nd) (rlog nd)"
    and "last_snapshot_index nd < base"
    and "\<And>p n. p \<in> set ps \<Longrightarrow> next_index nd p = Some n \<Longrightarrow> base \<le> n"
    and "shared = entries_slice_from (rlog nd) base"
  shows "(let (nd', msgs) = replicate_loop E nd clk i base shared (list_ex is_config_change shared) ps
          in (nd', map (\<lambda>(peer, p). (peer, into_args p)) msgs)) = prepare_each E nd clk i ps"
  using assms
proof (induction ps arbitrary: nd i)
  case (Cons p ps)
  obtain nd1 msg where step: "prepare_append_entries_shared E nd (fst (clk i)) (snd (clk i)) p base shared
      (list_ex is_config_change shared) = (nd1, msg)" by fastforce
  note keep = prepare_shared_keeps [OF step Cons.prems(1)]
  have "(let (nd', msgs) = replicate_loop E nd1 clk (Suc i) base shared (list_ex is_config_change shared) ps
      in (nd', map (\<lambda>(peer, p). (peer, into_args p)) msgs)) = prepare_each E nd1 clk (Suc i) ps"
    by (rule Cons.IH) (use Cons.prems keep in auto)
  moreover have "prepare_append_entries E nd (fst (clk i)) (snd (clk i)) p = (nd1, map_option into_args msg)"
    using shared_step [OF Cons.prems(1-3), of p E "fst (clk i)" "snd (clk i)"] Cons.prems(4) [of p] step
    by (simp add: Cons.prems(5))
  moreover obtain nd2 msgs where "replicate_loop E nd1 clk (Suc i) base shared
      (list_ex is_config_change shared) ps = (nd2, msgs)" by fastforce
  ultimately show ?case
    by (cases msg) (auto simp: step dest!: sym [of _ "prepare_each E nd1 clk (Suc i) ps"])
qed simp

text \<open>
  C15: the shared-slice round is the plain one, as long as no peer's next index lies in
  the part of the log the leader has compacted.  Then one round of \<open>replicate_to_all\<close>,
  which cuts every message from one shared slice of the log, gives the same node and the
  same messages as preparing each peer's message on its own.  With a peer that lags
  behind the snapshot the slice does not start where the offsets assume, and the other
  peers get different messages (\<open>lagging_peer_shifts_batches\<close> below).
\<close>

theorem replicate_round_matches_single_messages:
  assumes "node_log_ok nd" and "rn_state nd = Leader"
    and "\<And>p n. p \<in> set (peers nd) \<Longrightarrow> next_index nd p = Some n \<Longrightarrow> last_snapshot_index nd < n"
  shows "replicate_to_all E nd clk = prepare_each E nd clk 0 (peers nd)"
proof -
  note based = node_log_ok_based [OF assms(1)]
  define base where "base = (case min_next_index (next_index nd) (peers nd) of
      Some n \<Rightarrow> n | None \<Rightarrow> saturating_add (last_index (rlog nd)) 1)"
  show ?thesis
  proof (cases "min_next_index (next_index nd) (peers nd)")
    case (Some m)
    then have "base = m" by (simp add: base_def)
    with Some have "last_snapshot_index nd < base"
      "\<And>p n. p \<in> set (peers nd) \<Longrightarrow> next_index nd p = Some n \<Longrightarrow> base \<le> n"
      using assms(3) by (auto simp: min_next_index_Some)
    from replicate_loop_each [OF assms(2) based this refl] show ?thesis
      using assms(2) by (simp add: replicate_to_all_def replicate_to_all_prepared_def Let_def base_def)
  next
    case None
    have "replicate_loop E nd clk i base shared has ps = (nd, []) \<and> prepare_each E nd clk i ps = (nd, [])"
      if "set ps \<subseteq> set (peers nd)" for i shared has ps
      using that
      by (induction ps arbitrary: i)
        (auto simp: prepare_append_entries_shared_def prepare_append_entries_def assms(2)
          min_next_index_None [OF None])
    then show ?thesis
      using assms(2) by (simp add: replicate_to_all_def replicate_to_all_prepared_def Let_def base_def)
  qed
qed

theorem replicate_round_matches_single_messages_witness:
  "replicate_to_all example_env example_leader (\<lambda>_. (5, 5)) =
     prepare_each example_env example_leader (\<lambda>_. (5, 5)) 0 [''b'', ''c'']"
proof -
  have "last_snapshot_index example_leader < n"
    if "p \<in> set (peers example_leader)" "next_index example_leader p = Some n" for p n
    using that by (auto simp: example_leader_fields split: if_splits)
  from replicate_round_matches_single_messages [OF example_leader_ok(1) _ this]
  show ?thesis by (simp only: example_leader_fields)
qed

text \<open>
  one lagging peer shifts the batches of the others.  The leader has compacted up to
  index 5 and holds the entries 6, 7 and 8; one peer still waits for entry 5, the other for
  entry 7.  Prepared alone, the message for the second peer carries the entries 7 and 8
  behind position 6.  In a round of \<open>replicate_to_all\<close> it carries only entry 8 behind
  position 6, and entry 7 is skipped.
\<close>

definition compacted_leader :: "InMemoryStorage RaftNode" where
  "compacted_leader = example_leader
     \<lparr>rlog := \<lparr>entries = [example_entry 1 6, example_entry 1 7, example_entry 1 8], committed = 5, applied = 5\<rparr>,
      last_snapshot_index := 5, last_snapshot_term := 1,
      next_index := [''b'' \<mapsto> 5, ''c'' \<mapsto> 7], match_index := [''b'' \<mapsto> 0, ''c'' \<mapsto> 6]\<rparr>"

theorem lagging_peer_shifts_batches:
  "map (\<lambda>(p, a). (p, ae_prev_log_index a, map le_index (ae_entries a)))
       (snd (replicate_to_all example_env compacted_leader (\<lambda>_. (5, 5)))) =
     [(''b'', 4, [6, 7, 8]), (''c'', 6, [8])] \<and>
   map_option (\<lambda>a. (ae_prev_log_index a, map le_index (ae_entries a)))
       (snd (prepare_append_entries example_env compacted_leader 5 5 ''c'')) = Some (6, [7, 8])"
  by (simp add: replicate_to_all_def replicate_to_all_prepared_def prepare_append_entries_def
      prepare_append_entries_shared_def min_next_index_def compacted_leader_def example_leader_fields
      entries_slice_from_def example_entry_def into_args_def is_config_change_def Let_def split_def
      partition_point_def saturating_sub_def word_less_nat_alt word_le_nat_alt min_def)

section \<open>Membership changes\<close>

text \<open>At most one proposal is pending.\<close>

definition single_pending :: "'s RaftNode \<Rightarrow> bool" where
  "single_pending nd \<longleftrightarrow>
     (\<forall>p q. p \<in> dom (pending_config_changes nd) \<longrightarrow> q \<in> dom (pending_config_changes nd) \<longrightarrow> p = q)"

lemma submit_command_keeps [simp]:
  "pending_config_changes (fst (submit_command E nd ms c)) = pending_config_changes nd"
  "current_term (fst (submit_command E nd ms c)) = current_term nd"
  "voted_for (fst (submit_command E nd ms c)) = voted_for nd"
  "rn_state (fst (submit_command E nd ms c)) = rn_state nd"
  "rn_id (fst (submit_command E nd ms c)) = rn_id nd"
  by (simp_all add: submit_command_def Let_def)

text \<open>Feeding a sequence of approvals, with the clock reading of each.\<close>

definition record_approvals ::
  "'s Env \<Rightarrow> 's RaftNode \<Rightarrow> (u64 \<times> ConfigChangeApproval) list \<Rightarrow> 's RaftNode" where
  "record_approvals E nd as = fold (\<lambda>(t, a) nd. fst (record_config_change_approval E nd t a)) as nd"

text \<open>An approval of a proposal that counts: in time, by a member, with the right tag.\<close>

definition genuine_approval ::
  "'s Env \<Rightarrow> 's RaftNode \<Rightarrow> ConfigChangeProposal \<Rightarrow> u64 \<times> ConfigChangeApproval \<Rightarrow> bool" where
  "genuine_approval E nd prop ta \<longleftrightarrow>
     (case ta of (t, a) \<Rightarrow>
        check_message_freshness t (ca_timestamp_ms a) (max_message_age_ms nd) (max_future_skew_ms nd) \<and>
        (case state_machine nd of
           Some sm \<Rightarrow> ca_approver_id a \<in> set (voters_list sm)
         | None \<Rightarrow> ca_approver_id a = rn_id nd \<or> ca_approver_id a \<in> set (peers nd)) \<and>
        (\<exists>secret. cluster_secret nd = Some secret \<and>
           ct_eq E (ca_hmac a) (compute_config_change_approval_hmac (hmac_sha256 E) secret
             (cp_proposal_id prop) (cp_node_id prop) (cp_action prop) (ca_approver_id a) (ca_timestamp_ms a))))"

lemma record_approval_cases:
  obtains "record_config_change_approval E nd t a = (nd, False)"
  | pend where "pending_config_changes nd (ca_proposal_id a) = Some pend"
    "genuine_approval E nd (pc_proposal pend) (t, a)"
    "record_config_change_approval E nd t a =
      (nd\<lparr>pending_config_changes := (pending_config_changes nd)(ca_proposal_id a \<mapsto>
         pend\<lparr>pc_approvers := insert (ca_approver_id a) (pc_approvers pend)\<rparr>)\<rparr>, True)"
proof (cases "record_config_change_approval E nd t a = (nd, False)")
  case False
  then obtain secret pend where
    "cluster_secret nd = Some secret" "pending_config_changes nd (ca_proposal_id a) = Some pend"
    by (auto simp: record_config_change_approval_def split: option.splits)
  with False that(2) show ?thesis
    by (auto simp: record_config_change_approval_def genuine_approval_def verify_hmac_def Let_def
        split: if_splits option.splits)
qed (use that in blast)

lemma record_approval_keeps [simp]:
  "rn_id (fst (record_config_change_approval E nd t a)) = rn_id nd"
  "rn_state (fst (record_config_change_approval E nd t a)) = rn_state nd"
  "current_term (fst (record_config_change_approval E nd t a)) = current_term nd"
  "voted_for (fst (record_config_change_approval E nd t a)) = voted_for nd"
  "rlog (fst (record_config_change_approval E nd t a)) = rlog nd"
  "peers (fst (record_config_change_approval E nd t a)) = peers nd"
  "storage (fst (record_config_change_approval E nd t a)) = storage nd"
  "state_machine (fst (record_config_change_approval E nd t a)) = state_machine nd"
  "cluster_secret (fst (record_config_change_approval E nd t a)) = cluster_secret nd"
  "max_message_age_ms (fst (record_config_change_approval E nd t a)) = max_message_age_ms nd"
  "max_future_skew_ms (fst (record_config_change_approval E nd t a)) = max_future_skew_ms nd"
  "last_snapshot_index (fst (record_config_change_approval E nd t a)) = last_snapshot_index nd"
  by (cases rule: record_approval_cases [of E nd t a]; simp)+

lemma genuine_approval_cong:
  "genuine_approval E (fst (record_config_change_approval E nd t a)) = genuine_approval E nd"
  by (intro ext) (simp add: genuine_approval_def split: option.split)

lemma record_approval_dom:
  "dom (pending_config_changes (fst (record_config_change_approval E nd t a))) =
     dom (pending_config_changes nd)"
  by (cases rule: record_approval_cases [of E nd t a]) auto

text \<open>The approvers of a proposal are those it had and those who sent a genuine approval.\<close>

lemma record_approval_pending:
  assumes "pending_config_changes nd pid = Some pend"
  shows "pending_config_changes (fst (record_config_change_approval E nd t a)) pid =
    Some (if ca_proposal_id a = pid \<and> genuine_approval E nd (pc_proposal pend) (t, a)
          then pend\<lparr>pc_approvers := insert (ca_approver_id a) (pc_approvers pend)\<rparr> else pend)"
proof (cases "ca_proposal_id a = pid \<and> genuine_approval E nd (pc_proposal pend) (t, a)")
  case True
  then show ?thesis
    using assms
    by (auto simp: record_config_change_approval_def genuine_approval_def verify_hmac_def Let_def
        split: option.splits)
next
  case False
  then show ?thesis
    using assms by (cases rule: record_approval_cases [of E nd t a]) (auto split: if_splits)
qed

lemma record_approvals_keeps [simp]:
  "rn_state (record_approvals E nd as) = rn_state nd"
  "rlog (record_approvals E nd as) = rlog nd"
  "peers (record_approvals E nd as) = peers nd"
  "rn_id (record_approvals E nd as) = rn_id nd"
  "current_term (record_approvals E nd as) = current_term nd"
  "state_machine (record_approvals E nd as) = state_machine nd"
  "last_snapshot_index (record_approvals E nd as) = last_snapshot_index nd"
  by (induction as arbitrary: nd; simp add: record_approvals_def split_def)+

lemma record_approvals_pending:
  "pending_config_changes nd pid = Some pend \<Longrightarrow>
   \<exists>pend'. pending_config_changes (record_approvals E nd as) pid = Some pend' \<and>
     pc_proposal pend' = pc_proposal pend \<and>
     pc_approvers pend' = pc_approvers pend \<union>
       {ca_approver_id a | t a. (t, a) \<in> set as \<and> ca_proposal_id a = pid \<and>
          genuine_approval E nd (pc_proposal pend) (t, a)}"
proof (induction as arbitrary: nd pend)
  case (Cons ta as)
  obtain t a where ta: "ta = (t, a)" by fastforce
  let ?nd = "fst (record_config_change_approval E nd t a)"
  let ?pend = "if ca_proposal_id a = pid \<and> genuine_approval E nd (pc_proposal pend) (t, a)
    then pend\<lparr>pc_approvers := insert (ca_approver_id a) (pc_approvers pend)\<rparr> else pend"
  have "pending_config_changes ?nd pid = Some ?pend" by (rule record_approval_pending [OF Cons.prems])
  from Cons.IH [OF this] obtain pend' where
    "pending_config_changes (record_approvals E ?nd as) pid = Some pend'"
    "pc_proposal pend' = pc_proposal ?pend"
    "pc_approvers pend' = pc_approvers ?pend \<union>
       {ca_approver_id a | t a. (t, a) \<in> set as \<and> ca_proposal_id a = pid \<and>
          genuine_approval E nd (pc_proposal ?pend) (t, a)}"
    by (auto simp: genuine_approval_cong)
  moreover have "record_approvals E nd (ta # as) = record_approvals E ?nd as"
    by (simp add: record_approvals_def ta)
  moreover have "pc_proposal ?pend = pc_proposal pend" by simp
  ultimately show ?case by (auto simp: ta)
qed (simp add: record_approvals_def)

lemma record_approvals_dom:
  "dom (pending_config_changes (record_approvals E nd as)) = dom (pending_config_changes nd)"
  by (induction as arbitrary: nd) (auto simp: record_approvals_def split_def record_approval_dom)

lemma propose_config_change_result:
  assumes "propose_config_change nd now pid node action = (nd', Some prop)"
  shows "is_leader nd" "cluster_secret nd \<noteq> None" "dom (pending_config_changes nd) = {}"
    "\<not> uncommitted_config_change (rlog nd)"
    "prop = \<lparr>cp_proposal_id = pid, cp_node_id = node, cp_action = action, cp_timestamp_ms = now\<rparr>"
    "nd' = nd\<lparr>pending_config_changes :=
       [pid \<mapsto> \<lparr>pc_proposal = prop, pc_approvers = {rn_id nd}\<rparr>]\<rparr>"
  using assms by (auto simp: propose_config_change_def Let_def split: if_splits)

text \<open>
  C4: a membership proposal needs a quorum.  Take a proposal a leader made and any sequence
  of approvals it was then shown.  If committing the proposal succeeds, then at least
  \<open>quorum_size - 1\<close> different members other than the leader sent an approval in time and
  with the right tag for exactly this proposal: with the leader, whose own approval is
  implicit and carries no tag, a quorum.  The entry put into the log is the proposed
  change in the leader's term, and no proposal is left pending.  The property is about
  the proposal protocol: \<open>submit_command\<close> also takes a membership command, and asks for
  no approval (\<open>membership_submitted_without_approvals\<close> below).
\<close>

theorem config_change_needs_quorum:
  assumes "propose_config_change nd now pid node action = (nd1, Some prop)"
    and "node_log_ok nd" and "can_submit nd"
    and "commit_config_change_proposal E (record_approvals E nd1 as) ms pid = (nd2, Some idx)"
  shows "quorum_size nd - 1 \<le> card {ca_approver_id a | t a. (t, a) \<in> set as \<and>
      ca_proposal_id a = pid \<and> ca_approver_id a \<noteq> rn_id nd \<and> genuine_approval E nd prop (t, a)} \<and>
    idx = last_index (rlog nd) + 1 \<and>
    log_get (rlog nd2) idx =
      Some \<lparr>le_term = current_term nd, le_index = idx, le_command = ConfigChange node action\<rparr> \<and>
    node_log_ok nd2 \<and> pending_config_changes nd2 = Map.empty"
proof -
  note made = propose_config_change_result [OF assms(1)]
  let ?nd = "record_approvals E nd1 as"
  have pend1: "pending_config_changes nd1 pid = Some \<lparr>pc_proposal = prop, pc_approvers = {rn_id nd}\<rparr>"
    using made(6) by simp
  have gen: "genuine_approval E nd1 = genuine_approval E nd"
    using made(6) by (intro ext) (simp add: genuine_approval_def split: option.split)
  from record_approvals_pending [OF pend1, of E as] obtain pend where
    pend: "pending_config_changes ?nd pid = Some pend" "pc_proposal pend = prop"
    "pc_approvers pend = {rn_id nd} \<union> {ca_approver_id a | t a. (t, a) \<in> set as \<and> ca_proposal_id a = pid \<and>
       genuine_approval E nd prop (t, a)}"
    by (auto simp: gen)
  have same: "rlog ?nd = rlog nd" "peers ?nd = peers nd" "current_term ?nd = current_term nd"
    "last_snapshot_index ?nd = last_snapshot_index nd" "state_machine ?nd = state_machine nd"
    using made(6) by simp_all
  have ok: "node_log_ok ?nd" "can_submit ?nd" "quorum_size ?nd = quorum_size nd"
    using assms(2,3) same by (simp_all add: node_log_ok_def can_submit_def quorum_size_def)
  have leader: "is_leader ?nd" using made(1,6) by (simp add: is_leader_def)
  have "dom (pending_config_changes ?nd) = {pid}" using made(6) by (simp add: record_approvals_dom)
  then have "pending_config_changes ?nd x = None" if "x \<noteq> pid" for x
    using that by (metis domI singletonD not_None_eq)
  then have only: "(pending_config_changes ?nd)(pid := None) = Map.empty" by (intro ext) simp
  obtain nd3 where sub: "submit_command E ?nd ms (ConfigChange (cp_node_id prop) (cp_action prop)) =
      (nd3, Some (last_index (rlog nd) + 1))" "node_log_ok nd3"
    "log_get (rlog nd3) (last_index (rlog nd) + 1) = Some \<lparr>le_term = current_term nd,
       le_index = last_index (rlog nd) + 1, le_command = ConfigChange (cp_node_id prop) (cp_action prop)\<rparr>"
    using submit_command_effect [OF ok(1,2) leader, of E ms "ConfigChange (cp_node_id prop) (cp_action prop)"]
    unfolding same by blast
  have pend3: "pending_config_changes nd3 = pending_config_changes ?nd"
    using submit_command_keeps(1) [of E ?nd ms "ConfigChange (cp_node_id prop) (cp_action prop)"] sub(1) by simp
  have "quorum_size nd \<le> card (pc_approvers pend) \<and> idx = last_index (rlog nd) + 1 \<and>
      nd2 = nd3\<lparr>pending_config_changes := Map.empty\<rparr>"
    using assms(4) leader pend(1,2) sub(1) pend3 only
    by (auto simp: commit_config_change_proposal_def Let_def ok(3) split: if_splits)
  moreover have "card (pc_approvers pend) \<le> Suc (card {ca_approver_id a | t a. (t, a) \<in> set as \<and>
      ca_proposal_id a = pid \<and> ca_approver_id a \<noteq> rn_id nd \<and> genuine_approval E nd prop (t, a)})"
    (is "_ \<le> Suc (card ?others)")
  proof -
    have "?others \<subseteq> (\<lambda>(t, a). ca_approver_id a) ` set as" by force
    then have "finite ?others" by (rule finite_subset) simp
    moreover have "pc_approvers pend = insert (rn_id nd) ?others" unfolding pend(3) by auto
    ultimately show ?thesis by (simp add: card_insert_if)
  qed
  ultimately have "quorum_size nd - 1 \<le> card ?others \<and> idx = last_index (rlog nd) + 1 \<and>
      nd2 = nd3\<lparr>pending_config_changes := Map.empty\<rparr>"
    by linarith
  then show ?thesis using sub(2,3) made(5) by (simp add: node_log_ok_def)
qed

text \<open>
  membership without approvals.  A leader that is given a membership command through
  \<open>submit_command\<close> puts it into its log like any other command, with no proposal pending
  and no approval recorded.
\<close>

theorem membership_submitted_without_approvals:
  assumes "node_log_ok nd" and "can_submit nd" and "is_leader nd"
    and "pending_config_changes nd = Map.empty"
  shows "\<exists>nd'. submit_command E nd ms (ConfigChange node action) = (nd', Some (last_index (rlog nd) + 1)) \<and>
    pending_config_changes nd' = Map.empty \<and>
    log_get (rlog nd') (last_index (rlog nd) + 1) = Some \<lparr>le_term = current_term nd,
      le_index = last_index (rlog nd) + 1, le_command = ConfigChange node action\<rparr>"
  using submit_command_effect [OF assms(1-3), of E ms "ConfigChange node action"]
    submit_command_keeps(1) [of E nd ms "ConfigChange node action"] assms(4)
  by (metis fst_conv)

definition example_approval :: ConfigChangeApproval where
  "example_approval = \<lparr>ca_proposal_id = ''p'', ca_approver_id = ''b'', ca_timestamp_ms = 5,
     ca_hmac = compute_config_change_approval_hmac (hmac_sha256 example_env) [7] ''p'' ''d'' AddNode ''b'' 5\<rparr>"

lemma example_propose:
  "propose_config_change example_leader 5 ''p'' ''d'' AddNode =
     (example_leader\<lparr>pending_config_changes := [''p'' \<mapsto>
        \<lparr>pc_proposal = \<lparr>cp_proposal_id = ''p'', cp_node_id = ''d'', cp_action = AddNode, cp_timestamp_ms = 5\<rparr>,
         pc_approvers = {''a''}\<rparr>]\<rparr>,
      Some \<lparr>cp_proposal_id = ''p'', cp_node_id = ''d'', cp_action = AddNode, cp_timestamp_ms = 5\<rparr>)"
  by (simp add: propose_config_change_def is_leader_def example_leader_fields uncommitted_config_change_def
      last_index_def log_get_def example_entry_def is_config_change_def upt_rec Let_def)

lemma example_quorum_commits:
  "\<exists>nd2. commit_config_change_proposal example_env
     (record_approvals example_env (fst (propose_config_change example_leader 5 ''p'' ''d'' AddNode))
        [(5, example_approval)]) 0 ''p'' = (nd2, Some 3)"
  by (simp add: example_propose record_approvals_def record_config_change_approval_def example_approval_def
      example_leader_fields check_message_freshness_def verify_hmac_def commit_config_change_proposal_def
      is_leader_def quorum_size_def submit_command_def last_index_def example_entry_def Let_def)

theorem config_change_needs_quorum_witness:
  "\<exists>nd2. commit_config_change_proposal example_env
     (record_approvals example_env (fst (propose_config_change example_leader 5 ''p'' ''d'' AddNode))
        [(5, example_approval)]) 0 ''p'' = (nd2, Some 3) \<and> node_log_ok nd2 \<and>
     log_get (rlog nd2) 3 = Some \<lparr>le_term = 1, le_index = 3, le_command = ConfigChange ''d'' AddNode\<rparr>"
proof -
  obtain nd2 where c: "commit_config_change_proposal example_env
     (record_approvals example_env (fst (propose_config_change example_leader 5 ''p'' ''d'' AddNode))
        [(5, example_approval)]) 0 ''p'' = (nd2, Some 3)" using example_quorum_commits by blast
  from config_change_needs_quorum [OF example_propose example_leader_ok c [unfolded example_propose fst_conv]] c
  show ?thesis by (auto simp: example_leader_fields)
qed

section \<open>Replies\<close>

text \<open>The bookkeeping of an acknowledgement, and of a refusal.\<close>

definition acknowledge :: "'s RaftNode \<Rightarrow> string \<Rightarrow> nat \<Rightarrow> 's RaftNode" where
  "acknowledge nd p k =
     (case next_index nd p of
        Some ni \<Rightarrow>
          nd\<lparr>next_index := (next_index nd)(p \<mapsto>
               saturating_add (saturating_add (saturating_sub ni 1) (word_of_nat k)) 1),
             match_index := (match_index nd)(p \<mapsto> saturating_add (saturating_sub ni 1) (word_of_nat k))\<rparr>
      | None \<Rightarrow> nd)"

lemma acknowledge_keeps [simp]:
  "rlog (acknowledge nd p k) = rlog nd"
  "last_snapshot_index (acknowledge nd p k) = last_snapshot_index nd"
  "state_machine (acknowledge nd p k) = state_machine nd"
  "current_term (acknowledge nd p k) = current_term nd"
  "voted_for (acknowledge nd p k) = voted_for nd"
  "storage (acknowledge nd p k) = storage nd"
  "rn_state (acknowledge nd p k) = rn_state nd"
  "peers (acknowledge nd p k) = peers nd"
  "last_snapshot_term (acknowledge nd p k) = last_snapshot_term nd"
  "rn_id (acknowledge nd p k) = rn_id nd"
  by (simp_all add: acknowledge_def split: option.split)

lemma reply_cases:
  obtains (rejected) "\<not> snd (verify_append_entries_reply E nd tf reply)"
      "handle_append_entries_reply E nd tf d ms p reply k =
        (fst (verify_append_entries_reply E nd tf reply))\<lparr>forged_reply_rejects :=
          forged_reply_rejects (fst (verify_append_entries_reply E nd tf reply)) + 1\<rparr>"
  | (newer) "aer_term reply > current_term nd" "handle_append_entries_reply E nd tf d ms p reply k =
      become_follower E (fst (verify_append_entries_reply E nd tf reply)) (aer_term reply)"
  | (success) nd3 where "snd (verify_append_entries_reply E nd tf reply)" "aer_success reply"
      "aer_term reply \<le> current_term nd"
      "nd3 = advance_commit_index (acknowledge (fst (verify_append_entries_reply E nd tf reply)) p k)"
      "handle_append_entries_reply E nd tf d ms p reply k =
        maybe_snapshot E (apply_committed (if committed (rlog nd3) > committed (rlog nd)
          then sync_committed_state_best_effort E nd3 else nd3) ms)"
  | (back_off) "\<not> aer_success reply" "handle_append_entries_reply E nd tf d ms p reply k =
        fst (verify_append_entries_reply E nd tf reply) \<or>
      (\<exists>ni. handle_append_entries_reply E nd tf d ms p reply k =
        (fst (verify_append_entries_reply E nd tf reply))\<lparr>next_index := ni\<rparr>)"
proof -
  obtain nd1 ok where v: "verify_append_entries_reply E nd tf reply = (nd1, ok)" by fastforce
  have same: "current_term nd1 = current_term nd" "rlog nd1 = rlog nd"
    using aer.keeps [of E nd tf reply] by (simp_all add: v)
  have ack: "(case next_index nd1 p of
        Some ni \<Rightarrow>
          let new_match = saturating_add (saturating_sub ni 1) (word_of_nat k)
          in nd1\<lparr>next_index := (next_index nd1)(p \<mapsto> saturating_add new_match 1),
                 match_index := (match_index nd1)(p \<mapsto> new_match)\<rparr>
      | None \<Rightarrow> nd1) = acknowledge nd1 p k"
    by (simp add: acknowledge_def Let_def split: option.split)
  note run = handle_append_entries_reply_def [of E nd tf d ms p reply k,
      unfolded v Let_def prod.case ack [unfolded Let_def]]
  consider "\<not> ok" | "ok" "aer_term reply > current_term nd"
    | "ok" "\<not> aer_term reply > current_term nd" "aer_success reply"
    | "ok" "\<not> aer_term reply > current_term nd" "\<not> aer_success reply" by blast
  then show thesis
  proof cases
    case 1
    then show ?thesis using rejected by (simp add: run v)
  next
    case 2
    then show ?thesis using newer by (simp add: run v same)
  next
    case 3
    then show ?thesis using success by (simp add: run v same Let_def)
  next
    case 4
    have "handle_append_entries_reply E nd tf d ms p reply k = nd1 \<or>
        (\<exists>ni. handle_append_entries_reply E nd tf d ms p reply k = nd1\<lparr>next_index := ni\<rparr>)"
    proof (cases "next_index nd1 p")
      case (Some ni)
      then show ?thesis by (cases "1 < ni") (use 4 same in \<open>auto simp: run\<close>)
    qed (use 4 same in \<open>simp add: run\<close>)
    then show ?thesis using back_off 4(3) by (simp add: v)
  qed
qed

lemma reply_ok:
  assumes "node_log_ok nd"
  shows "node_log_ok (handle_append_entries_reply E nd tf d ms p reply k) \<and>
    log_grows nd (handle_append_entries_reply E nd tf d ms p reply k)"
proof (cases rule: reply_cases [where E = E and nd = nd and tf = tf and reply = reply and d = d
      and ms = ms and p = p and k = k])
  case (success nd3)
  let ?nd1 = "acknowledge (fst (verify_append_entries_reply E nd tf reply)) p k"
  let ?nd4 = "if committed (rlog nd3) > committed (rlog nd) then sync_committed_state_best_effort E nd3 else nd3"
  have one: "node_log_ok ?nd1" "log_grows nd ?nd1"
    using assms by (auto simp: node_log_ok_def intro!: log_grows_same)
  have three: "node_log_ok nd3" "log_grows nd nd3"
    using advance_commit_index_ok [OF one(1)] log_grows_trans [OF one(2) log_grows_advance] success(4) by simp_all
  then have four: "node_log_ok ?nd4" "log_grows nd ?nd4"
    by (auto simp: node_log_ok_def log_grows_def)
  show ?thesis
    unfolding success(5)
    using four log_grows_trans [OF four(2) log_grows_finish [OF four(1)]]
    by (simp add: apply_committed_ok maybe_snapshot_ok)
next
  case rejected
  then show ?thesis using assms by (auto simp: node_log_ok_def intro!: log_grows_same)
next
  case newer
  then show ?thesis using assms by (auto simp: node_log_ok_def intro!: log_grows_same)
next
  case back_off
  then show ?thesis using assms by (auto simp: node_log_ok_def intro!: log_grows_same)
qed

lemma replicate_loop_same:
  "rlog (fst (replicate_loop E nd clk i base shared has ps)) = rlog nd \<and>
   last_snapshot_index (fst (replicate_loop E nd clk i base shared has ps)) = last_snapshot_index nd"
proof (induction ps arbitrary: nd i)
  case (Cons p ps)
  obtain nd1 m where step: "prepare_append_entries_shared E nd (fst (clk i)) (snd (clk i)) p base shared has
      = (nd1, m)" by fastforce
  have "rlog nd1 = rlog nd" "last_snapshot_index nd1 = last_snapshot_index nd"
    using prepare_shared_keeps [OF step] step
    by (cases "rn_state nd = Leader"; auto simp: prepare_append_entries_shared_def)+
  with Cons.IH [of nd1 "Suc i"] step show ?case by (simp add: split_def)
qed simp

lemma replicate_to_all_same:
  "log_grows nd (fst (replicate_to_all E nd clk))"
  using replicate_loop_same [of E nd clk 0]
  by (intro log_grows_same) (simp_all add: replicate_to_all_def replicate_to_all_prepared_def Let_def split_def)

text \<open>
  C16: a leader only appends.  Take a node whose log rises by one from its snapshot.  Building
  the messages of a round, handling a reply, and proposing or approving a membership
  change let neither the commit index nor the snapshot position fall, and keep every entry
  of the log that lies above the snapshot position they end with, unchanged; a reply that
  commits may compact committed entries into a snapshot, no others.  The same holds of submitting
  a command and of committing a membership proposal, unless the log positions are used
  up or the log was compacted to nothing (\<open>can_submit\<close>).
\<close>

theorem leader_append_only:
  assumes "node_log_ok nd"
  shows "log_grows nd (fst (replicate_to_all E nd clk)) \<and>
    log_grows nd (handle_append_entries_reply E nd tf d ms p reply k) \<and>
    last_snapshot_index (handle_append_entries_reply E nd tf d ms p reply k)
      \<le> committed (rlog (handle_append_entries_reply E nd tf d ms p reply k)) \<and>
    log_grows nd (fst (propose_config_change nd now pid node action)) \<and>
    log_grows nd (fst (record_config_change_approval E nd tf approval)) \<and>
    (can_submit nd \<longrightarrow>
       log_grows nd (fst (submit_command E nd ms c)) \<and>
       log_grows nd (fst (commit_config_change_proposal E nd ms pid)))"
proof -
  have submit: "log_grows nd (fst (submit_command E nd ms c))" if "can_submit nd" for c
    using submit_command_effect [OF assms that, of E ms c]
    by (cases "is_leader nd") (auto simp: submit_command_def)
  have "log_grows nd (fst (commit_config_change_proposal E nd ms pid))" if can: "can_submit nd"
  proof (cases "pending_config_changes nd pid")
    case (Some pend)
    obtain nd1 r where sub: "submit_command E nd ms
        (ConfigChange (cp_node_id (pc_proposal pend)) (cp_action (pc_proposal pend))) = (nd1, r)" by fastforce
    then have "log_grows nd nd1" using submit [OF can] by (metis fst_conv)
    with Some sub show ?thesis
      by (cases r) (auto simp: commit_config_change_proposal_def log_grows_def Let_def)
  qed (simp add: commit_config_change_proposal_def)
  moreover have "log_grows nd (fst (propose_config_change nd now pid node action))"
    by (intro log_grows_same) (simp_all add: propose_config_change_def Let_def)
  moreover have "log_grows nd (fst (record_config_change_approval E nd tf approval))"
    by (intro log_grows_same) simp_all
  moreover have "last_snapshot_index nd' \<le> committed (rlog nd')" if "node_log_ok nd'" for nd'
    using node_log_ok_based [OF that] by (auto simp: log_based_def log_wf_def)
  ultimately show ?thesis
    using submit reply_ok [OF assms] replicate_to_all_same by blast
qed

theorem leader_append_only_witness:
  "log_grows example_leader (fst (submit_command example_env example_leader 0 Noop)) \<and>
   log_grows example_leader (fst (replicate_to_all example_env example_leader (\<lambda>_. (5, 5))))"
  using leader_append_only [OF example_leader_ok(1), where E = example_env and ms = 0 and c = Noop
      and clk = "\<lambda>_. (5, 5)"] example_leader_ok(2)
  by blast

text \<open>What a success reply does to a node without a state machine.\<close>

lemma reply_success_run:
  assumes "snd (verify_append_entries_reply E nd tf reply)" and "aer_success reply"
    and "aer_term reply \<le> current_term nd" and "state_machine nd = None"
    and "nd3 = advance_commit_index (acknowledge (fst (verify_append_entries_reply E nd tf reply)) p k)"
  shows "handle_append_entries_reply E nd tf d ms p reply k =
    (if committed (rlog nd3) > committed (rlog nd) then sync_committed_state_best_effort E nd3 else nd3)"
proof -
  let ?nd4 = "if committed (rlog nd3) > committed (rlog nd) then sync_committed_state_best_effort E nd3 else nd3"
  have "maybe_snapshot E (apply_committed ?nd4 ms) = ?nd4"
    using assms(4,5) by (simp add: apply_committed_def maybe_snapshot_def Let_def)
  then show ?thesis
    using assms(1-3,5) by (cases rule: reply_cases [where E = E and nd = nd and tf = tf and reply = reply
        and d = d and ms = ms and p = p and k = k]) auto
qed

lemma acknowledge_indices:
  "next_index nd' = next_index nd \<Longrightarrow> match_index nd' = match_index nd \<Longrightarrow>
   next_index (acknowledge nd' p k) = next_index (acknowledge nd p k) \<and>
   match_index (acknowledge nd' p k) = match_index (acknowledge nd p k)"
  by (simp add: acknowledge_def split: option.split)

lemma reply_success_bare:
  assumes "snd (verify_append_entries_reply E nd tf reply)" and "aer_success reply"
    and "aer_term reply \<le> current_term nd" and "state_machine nd = None"
  shows "next_index (handle_append_entries_reply E nd tf d ms p reply k) = next_index (acknowledge nd p k)"
    "match_index (handle_append_entries_reply E nd tf d ms p reply k) = match_index (acknowledge nd p k)"
    "rlog (handle_append_entries_reply E nd tf d ms p reply k) =
       rlog (advance_commit_index (acknowledge (fst (verify_append_entries_reply E nd tf reply)) p k))"
    "state_machine (handle_append_entries_reply E nd tf d ms p reply k) = None"
    "current_term (handle_append_entries_reply E nd tf d ms p reply k) = current_term nd"
    "rn_state (handle_append_entries_reply E nd tf d ms p reply k) = rn_state nd"
  unfolding reply_success_run [OF assms refl]
  using acknowledge_indices [of "fst (verify_append_entries_reply E nd tf reply)" nd p k] assms(4) by auto

text \<open>The settings that decide whether a reply verifies are not touched by a reply.\<close>

definition reply_settings :: "'s RaftNode \<Rightarrow> bytes option \<times> u64 \<times> u64 \<times> bool" where
  "reply_settings nd =
     (cluster_secret nd, max_message_age_ms nd, max_future_skew_ms nd, accept_legacy_reply_hmac_tags nd)"

lemma reply_settings_keeps:
  "reply_settings (fst (verify_append_entries_reply E nd tf reply)) = reply_settings nd"
  "reply_settings (acknowledge nd p k) = reply_settings nd"
  "reply_settings (advance_commit_index nd) = reply_settings nd"
  "reply_settings (sync_committed_state_best_effort E nd) = reply_settings nd"
  by (simp add: reply_settings_def verify_append_entries_reply_def record_legacy_reply_hmac_accept_def
      split: option.split)
    (simp add: reply_settings_def acknowledge_def split: option.split,
     cases rule: advance_commit_index_cases [of nd], simp, simp add: reply_settings_def,
     simp add: reply_settings_def sync_committed_state_best_effort_def split: option.split)

lemma verify_reply_cong:
  assumes "reply_settings nd' = reply_settings nd"
  shows "snd (verify_append_entries_reply E nd' tf reply) = snd (verify_append_entries_reply E nd tf reply)"
  using assms by (simp add: reply_settings_def verify_append_entries_reply_def split: option.split)

text \<open>
  acknowledgements are not tied to what they acknowledge.  A success reply carries no
  index, and the leader derives the peer's match index from its own next index at the
  time it handles the reply.  Handling one genuine reply twice, which the freshness
  window allows, counts its entries twice: the recorded match index passes the end of
  what was ever sent to the peer.
\<close>

theorem repeated_reply_counts_twice:
  assumes "snd (verify_append_entries_reply E nd tf reply)" and "aer_success reply"
    and "aer_term reply \<le> current_term nd" and "state_machine nd = None"
    and "next_index nd p = Some n" and "0 < n" and "unat n + 2 * k < 2 ^ 64"
  shows "let nd1 = handle_append_entries_reply E nd tf d ms p reply k;
      nd2 = handle_append_entries_reply E nd1 tf d ms p reply k
    in map_option unat (match_index nd1 p) = Some (unat n - 1 + k) \<and>
       map_option unat (match_index nd2 p) = Some (unat n - 1 + 2 * k)"
proof -
  let ?nd1 = "handle_append_entries_reply E nd tf d ms p reply k"
  note one = reply_success_bare [OF assms(1-4), where d = d and ms = ms and p = p and k = k]
  have "snd (verify_append_entries_reply E ?nd1 tf reply)"
    using assms(1) verify_reply_cong [of ?nd1 nd E tf reply]
    by (simp add: reply_success_run [OF assms(1-4) refl] reply_settings_keeps)
  then have two: "match_index (handle_append_entries_reply E ?nd1 tf d ms p reply k) =
      match_index (acknowledge ?nd1 p k)"
    using assms(2,3) one by (intro reply_success_bare(2)) simp_all
  have n0: "0 < unat n" using assms(6) by (simp add: word_less_nat_alt)
  define m where "m = saturating_add (saturating_sub n 1) (word_of_nat k :: u64)"
  have m: "unat m = unat n - 1 + k"
    using assms(7) n0 by (simp add: m_def word_nat unat_of_nat take_bit_eq_mod)
  have i1: "next_index ?nd1 p = Some (saturating_add m 1)" "match_index ?nd1 p = Some m"
    using one assms(5) by (simp_all add: acknowledge_def m_def)
  have "unat (saturating_sub (saturating_add m 1) 1) = unat m"
    using m assms(7) n0 by (simp add: word_nat)
  then have "map_option unat (match_index (acknowledge ?nd1 p k) p) = Some (unat n - 1 + 2 * k)"
    using m assms(7) n0 by (simp add: acknowledge_def i1 word_nat unat_of_nat take_bit_eq_mod)
  with i1 m two show ?thesis by (simp add: Let_def)
qed

definition example_reply :: "Term \<Rightarrow> AppendEntriesReply" where
  "example_reply trm =
     (let r = \<lparr>aer_term = trm, aer_success = True, aer_timestamp_ms = 5, aer_hmac = None\<rparr>
      in r\<lparr>aer_hmac := Some (compute_append_entries_reply_hmac (hmac_sha256 example_env) [7] r)\<rparr>)"

lemma example_reply_fields:
  "aer_term (example_reply t) = t" "aer_success (example_reply t)"
  by (simp_all add: example_reply_def Let_def)

lemma example_reply_verifies:
  "cluster_secret nd = Some [7] \<Longrightarrow> verify_append_entries_reply example_env nd 5 (example_reply t) = (nd, True)"
  by (rule aer.genuine_accepted)
    (simp_all add: example_reply_def Let_def check_message_freshness_def compute_append_entries_reply_hmac_def
      flagged_reply_mac_def)

theorem repeated_reply_counts_twice_witness:
  "let nd1 = handle_append_entries_reply example_env example_leader 5 1 0 ''b'' (example_reply 1) 1;
       nd2 = handle_append_entries_reply example_env nd1 5 1 0 ''b'' (example_reply 1) 1
   in map_option unat (match_index nd1 ''b'') = Some 3 \<and> map_option unat (match_index nd2 ''b'') = Some 4"
  using repeated_reply_counts_twice [of example_env example_leader 5 "example_reply 1" "''b''" 3 1 1 0]
  by (simp add: example_reply_verifies example_reply_fields example_leader_fields)

text \<open>
  a node that lost its leadership still commits on its own.  The reply handler does not
  look at the node's role: a follower that receives a genuine acknowledgement of an
  earlier term counts it with the match indices of its past leadership, and commits the
  last entry of its log, an entry of the new leader that nobody is known to hold.
\<close>

theorem stale_reply_commits_on_follower:
  assumes "rn_state nd = Follower" and "snd (verify_append_entries_reply E nd tf reply)"
    and "aer_success reply" and "aer_term reply < current_term nd" and "state_machine nd = None"
    and "peers nd = [p, q]" and "p \<noteq> q" and "next_index nd p = Some (last_index (rlog nd) + 1)"
    and "match_index nd q = Some 0" and "log_wf (rlog nd)" and "last_index (rlog nd) \<noteq> u64_max"
    and "committed (rlog nd) < last_index (rlog nd)" and "last_term (rlog nd) = current_term nd"
  shows "committed (rlog (handle_append_entries_reply E nd tf d ms p reply 0)) = last_index (rlog nd) \<and>
    rn_state (handle_append_entries_reply E nd tf d ms p reply 0) = Follower"
proof -
  let ?nd1 = "acknowledge (fst (verify_append_entries_reply E nd tf reply)) p 0"
  let ?l = "last_index (rlog nd)"
  have ack: "match_index ?nd1 = (match_index nd)(p \<mapsto> ?l)"
  proof -
    have "unat (?l + 1) = Suc (unat ?l)" using assms(11) by (rule unat_plus_one)
    moreover have "unat ?l < 2 ^ LENGTH(64)" by (rule unsigned_less)
    ultimately have "saturating_add (saturating_sub (?l + 1) 1) 0 = ?l"
      by (simp add: saturating_add_def saturating_sub_def word_less_nat_alt)
    then show ?thesis using assms(8) by (simp add: acknowledge_def)
  qed
  have ne: "entries (rlog nd) \<noteq> []" using assms(12) by (auto simp: last_index_def)
  have get: "log_get (rlog nd) ?l = Some (last (entries (rlog nd)))"
    using assms(10) ne by (rule log_get_last)
  have trm: "le_term (last (entries (rlog nd))) = current_term nd"
    using assms(13) ne by (simp add: last_term_def)
  have "?l \<noteq> 0" using assms(12) by auto
  then have "committed (rlog (advance_commit_index ?nd1)) = ?l"
    using assms(6,7,9,12) ack get trm
    by (simp add: advance_commit_index_def log_commit_def Let_def)
  moreover have "aer_term reply \<le> current_term nd" using assms(4) by simp
  note bare = reply_success_bare [OF assms(2,3) this assms(5), where d = d and ms = ms and p = p and k = 0]
  ultimately show ?thesis using assms(1) by (simp add: bare)
qed

definition deposed_leader :: "InMemoryStorage RaftNode" where
  "deposed_leader = example_leader\<lparr>rn_state := Follower, current_term := 2,
     rlog := \<lparr>entries = [example_entry 1 1, example_entry 2 2], committed = 0, applied = 0\<rparr>,
     match_index := [''b'' \<mapsto> 2, ''c'' \<mapsto> 0]\<rparr>"

theorem stale_reply_commits_on_follower_witness:
  "committed (rlog (handle_append_entries_reply example_env deposed_leader 5 1 0 ''b'' (example_reply 1) 0)) = 2"
  using stale_reply_commits_on_follower [of deposed_leader example_env 5 "example_reply 1" "''b''" "''c''" 1 0]
  by (simp add: example_reply_verifies example_reply_fields deposed_leader_def example_leader_fields
      log_wf_def last_index_def last_term_def example_entry_def word_less_nat_alt word_le_nat_alt)

end
