(* ===== verification/Raft_Safety.thy ===== *)
theory Raft_Safety
  imports Raft_Vote Raft_Append Raft_Snapshot Raft_Leader
begin

text \<open>
  Runs of a node: every operation of the code that changes a \<open>RaftNode\<close> as a rule of a
  step relation, restarts from storage included.  What the storage contract promises
  about the hard state is carried through every operation, which gives one vote per
  term over whole runs and, with intersecting quorums, one leader per term.
\<close>

section \<open>The hard state\<close>

definition hard_of :: "'s RaftNode \<Rightarrow> HardState" where
  "hard_of nd = \<lparr>hs_current_term = current_term nd, hs_voted_for = voted_for nd\<rparr>"

text \<open>The term never falls, and within a term a vote once given stays.\<close>

definition hard_step :: "HardState \<Rightarrow> HardState \<Rightarrow> bool" where
  "hard_step h h' \<longleftrightarrow>
     hs_current_term h \<le> hs_current_term h' \<and>
     (hs_current_term h' = hs_current_term h \<longrightarrow> hs_voted_for h = None \<or> hs_voted_for h' = hs_voted_for h)"

lemma hard_step_refl [simp]: "hard_step h h"
  by (simp add: hard_step_def)

lemma hard_step_trans: "hard_step a b \<Longrightarrow> hard_step b c \<Longrightarrow> hard_step a c"
  by (auto simp: hard_step_def)

lemma hard_of_cong: "current_term nd' = current_term nd \<Longrightarrow> voted_for nd' = voted_for nd \<Longrightarrow> hard_of nd' = hard_of nd"
  by (simp add: hard_of_def)

lemma hard_step_request_vote: "hard_step (hard_of nd) (hard_of (fst (handle_request_vote E nd tf tr args)))"
  by (auto simp: hard_step_def hard_of_def handle_request_vote_term handle_request_vote_voted_for
      handle_request_vote_granted max_def split: if_splits)

lemma hard_step_append: "hard_step (hard_of nd) (hard_of (fst (handle_append_entries E nd ck args)))"
  using append_accept_role [of "fst (verify_append_entries E nd (ck_fresh ck) (ck_replay ck) args)" args E ck]
  by (auto simp: handle_append_entries_halves hard_step_def hard_of_def Let_def)

lemma hard_step_snapshot: "hard_step (hard_of nd) (hard_of (fst (handle_install_snapshot E nd tf tr ms args)))"
proof -
  have acc: "hard_step (hard_of nd)
      (hard_of (snapshot_accept E (fst (verify_install_snapshot E nd tf tr args)) args))"
    by (auto simp: snapshot_accept_def hard_step_def hard_of_def)
  show ?thesis
    by (cases rule: handle_install_snapshot_cases [where E = E and nd = nd and tf = tf and tr = tr
          and ms = ms and args = args])
      (use acc in \<open>auto simp: hard_of_def\<close>)
qed

lemma hard_step_candidate: "hard_step (hard_of nd) (hard_of (become_candidate E nd j))"
proof (cases "current_term nd = u64_max")
  case True
  then show ?thesis by (simp add: become_candidate_def try_become_candidate_overflow)
next
  case False
  have "current_term nd < current_term nd + 1" using False checked_next_greater checked_next_Some by blast
  with try_become_candidate_ok [OF False, of E j] show ?thesis
    by (simp add: become_candidate_def hard_step_def hard_of_def)
qed

lemma hard_step_reply:
  "hard_step (hard_of nd) (hard_of (handle_append_entries_reply E nd tf d ms p reply k))"
  by (cases rule: reply_cases [where E = E and nd = nd and tf = tf and reply = reply and d = d
        and ms = ms and p = p and k = k])
    (auto simp: hard_step_def hard_of_def)

section \<open>The hard state on storage\<close>

text \<open>The hard state a node's storage holds, through a view of storages.\<close>

definition stored :: "('s \<Rightarrow> HardState) \<Rightarrow> 's RaftNode \<Rightarrow> HardState option" where
  "stored hard nd = map_option hard (storage nd)"

definition synced :: "('s \<Rightarrow> HardState) \<Rightarrow> 's RaftNode \<Rightarrow> bool" where
  "synced hard nd \<longleftrightarrow> stored hard nd = Some (hard_of nd)"

lemma stored_cong: "storage nd' = storage nd \<Longrightarrow> stored hard nd' = stored hard nd"
  by (simp add: stored_def)

lemma synced_cong: "stored hard nd' = stored hard nd \<Longrightarrow> hard_of nd' = hard_of nd \<Longrightarrow> synced hard nd' = synced hard nd"
  by (simp add: synced_def)

lemma synced_stored: "synced hard nd \<Longrightarrow> storage nd \<noteq> None"
  by (auto simp: synced_def stored_def)

context durable_storage
begin

lemma stored_writes:
  assumes "store_ops E = ops"
  shows "stored hard (persist_hard_state E nd) = map_option (\<lambda>_. hard_of nd) (storage nd)"
    "stored hard (persist_appended E nd es) = stored hard nd"
    "stored hard (persist_truncate E nd a) = stored hard nd"
    "stored hard (sync_committed_state_best_effort E nd) = stored hard nd"
  using assms
  by (simp_all add: stored_def persist_defs hard_views hard_of_def split: option.split)

lemma stored_maybe_snapshot: "store_ops E = ops \<Longrightarrow> stored hard (maybe_snapshot E nd) = stored hard nd"
  using never_fails(4)
  by (simp add: stored_def maybe_snapshot_def Let_def split_def hard_views split: option.split)

lemma stored_apply: "stored hard (apply_committed nd m) = stored hard nd"
  by (simp add: stored_def)

lemma stored_become_follower:
  "store_ops E = ops \<Longrightarrow>
   stored hard (become_follower E nd t) = map_option (\<lambda>_. hard_of (become_follower E nd t)) (storage nd)"
  by (simp add: become_follower_def Let_def stored_writes)
    (simp add: hard_of_def option.map_comp)

lemma synced_persist: "store_ops E = ops \<Longrightarrow> storage nd \<noteq> None \<Longrightarrow> synced hard (persist_hard_state E nd)"
  by (auto simp: synced_def stored_writes hard_of_def)

lemma synced_become_follower: "store_ops E = ops \<Longrightarrow> storage nd \<noteq> None \<Longrightarrow> synced hard (become_follower E nd t)"
  by (auto simp: synced_def stored_become_follower)

lemma synced_request_vote:
  assumes E: "store_ops E = ops" and s: "synced hard nd"
  shows "synced hard (fst (handle_request_vote E nd tf tr args))"
proof -
  obtain n ok where v: "verify_request_vote E nd tf tr args = (n, ok)" by fastforce
  have n: "synced hard n"
    using s rv.keeps [of E nd tf tr args] by (simp add: v synced_def stored_def hard_of_def)
  let ?n2 = "if rv_term args > current_term n then become_follower E n (rv_term args) else n"
  have n2: "synced hard ?n2" using n synced_become_follower [OF E synced_stored [OF n], of "rv_term args"] by simp
  then have "synced hard (persist_hard_state E (?n2\<lparr>voted_for := x\<rparr>))" for x
    using synced_stored [OF n2] by (intro synced_persist [OF E]) simp
  with n n2 show ?thesis by (simp add: handle_request_vote_def v Let_def)
qed

lemma stored_append_batch:
  "store_ops E = ops \<Longrightarrow> stored hard (fst (append_batch E nd acc es)) = stored hard nd"
proof (induction es arbitrary: nd acc)
  case (Cons e es)
  have "stored hard (nd\<lparr>rlog := l\<rparr>) = stored hard nd" for nd l by (simp add: stored_def)
  with Cons show ?case
    by (auto simp: Let_def stored_writes split: option.split sum.split)
qed simp

lemma stored_check_prev: "store_ops E = ops \<Longrightarrow> stored hard (fst (check_prev_log E nd args)) = stored hard nd"
proof -
  assume E: "store_ops E = ops"
  have "stored hard (nd\<lparr>rlog := l\<rparr>) = stored hard nd" for l by (simp add: stored_def)
  then show ?thesis by (simp add: check_prev_log_def Let_def stored_writes [OF E] split: option.split sum.split)
qed

lemma stored_append_rest: "store_ops E = ops \<Longrightarrow> stored hard (fst (append_rest E nd ck args)) = stored hard nd"
proof -
  assume E: "store_ops E = ops"
  have "stored hard (advance_follower_commit E n args) = stored hard n" for n
    using stored_writes(4) [OF E] by (simp add: advance_follower_commit_def Let_def) (simp add: stored_def)
  then show ?thesis
    by (simp add: append_rest_def Let_def split_def stored_maybe_snapshot [OF E] stored_apply
        stored_writes [OF E] stored_append_batch [OF E] stored_check_prev [OF E])
qed

lemma synced_append:
  assumes E: "store_ops E = ops" and s: "synced hard nd"
  shows "synced hard (fst (handle_append_entries E nd ck args))"
proof -
  let ?n = "fst (verify_append_entries E nd (ck_fresh ck) (ck_replay ck) args)"
  have n: "synced hard ?n" using s by (simp add: synced_def stored_def hard_of_def)
  have acc: "synced hard (append_accept E ?n ck args)"
    using n synced_become_follower [OF E synced_stored [OF n], of "ae_term args"]
    by (auto simp: append_accept_def record_heartbeat_def synced_def stored_def hard_of_def)
  then have "synced hard (fst (append_rest E (append_accept E ?n ck args) ck args))"
    by (simp add: synced_def stored_append_rest [OF E] hard_of_def)
  with n show ?thesis by (simp add: handle_append_entries_halves Let_def)
qed

lemma stored_install: "store_ops E = ops \<Longrightarrow> stored hard (install_snapshot_data E nd args d ms) = stored hard nd"
  using never_fails(4) hard_views
  by (cases "sm_from_slice E d"; cases "storage nd"; cases "state_machine nd")
    (simp_all add: stored_def install_snapshot_data_def Let_def split_def)

lemma synced_snapshot:
  assumes E: "store_ops E = ops" and s: "synced hard nd"
  shows "synced hard (fst (handle_install_snapshot E nd tf tr ms args))"
proof -
  let ?n = "fst (verify_install_snapshot E nd tf tr args)"
  let ?n2 = "snapshot_accept E ?n args"
  have n: "synced hard ?n" using s by (simp add: synced_def stored_def hard_of_def)
  have n2: "synced hard ?n2"
    using n synced_become_follower [OF E synced_stored [OF n]] by (simp add: snapshot_accept_def)
  have forged: "synced hard (count_forged_snapshot x) = synced hard x" for x
    by (simp add: synced_def stored_def hard_of_def)
  have asm: "synced hard (fst (assemble_snapshot ?n2 args))"
    using n2 by (simp add: synced_def stored_def hard_of_def)
  have inst: "synced hard (install_snapshot_data E x args d ms) = synced hard x" for x d
    by (simp add: synced_def stored_install [OF E] hard_of_def)
  show ?thesis
    by (cases rule: handle_install_snapshot_cases [where E = E and nd = nd and tf = tf and tr = tr
          and ms = ms and args = args])
      (use n n2 asm in \<open>auto simp: forged inst\<close>)
qed

lemma synced_candidate:
  assumes E: "store_ops E = ops" and s: "synced hard nd"
  shows "synced hard (become_candidate E nd j)"
proof (cases "checked_next (current_term nd)")
  case None
  then show ?thesis using s by (simp add: become_candidate_def try_become_candidate_def)
next
  case (Some t)
  then show ?thesis
    using synced_stored [OF s]
    by (simp add: become_candidate_def try_become_candidate_def Let_def synced_persist [OF E])
qed

lemma synced_submit:
  assumes E: "store_ops E = ops" and s: "synced hard nd"
  shows "synced hard (fst (submit_command E nd ms c))"
proof -
  have "stored hard (nd\<lparr>rlog := l\<rparr>) = stored hard nd" for l by (simp add: stored_def)
  moreover have "stored hard (advance_commit_index n) = stored hard n" for n by (simp add: stored_def)
  ultimately have "stored hard (fst (submit_command E nd ms c)) = stored hard nd"
    by (simp add: submit_command_def Let_def stored_apply stored_writes [OF E])
  with s show ?thesis by (simp add: synced_def hard_of_def)
qed

lemma synced_reply:
  assumes E: "store_ops E = ops" and s: "synced hard nd"
  shows "synced hard (handle_append_entries_reply E nd tf d ms p reply k)"
proof -
  let ?n = "fst (verify_append_entries_reply E nd tf reply)"
  have n: "synced hard ?n" using s by (simp add: synced_def stored_def hard_of_def)
  show ?thesis
  proof (cases rule: reply_cases [where E = E and nd = nd and tf = tf and reply = reply and d = d
        and ms = ms and p = p and k = k])
    case (success nd3)
    have "stored hard nd3 = stored hard nd" using success(4) by (simp add: stored_def)
    then show ?thesis
      using s success(4)
      by (simp add: success(5) synced_def stored_maybe_snapshot [OF E] stored_apply stored_writes [OF E] hard_of_def)
  next
    case newer
    then show ?thesis using synced_become_follower [OF E synced_stored [OF n]] by simp
  qed (use n in \<open>auto simp: synced_def stored_def hard_of_def\<close>)
qed

end

section \<open>Steps and runs of a node\<close>

text \<open>
  One call on a node and the votes it casts, as pairs of a term and a candidate.  A
  restart builds a node with the same identifier and attaches the storage the stopped
  node left behind.  Not a step is a direct call of \<open>become_follower\<close>: the source calls
  it only from the handlers, with a term that is not lower.
\<close>

definition self_vote :: "'s RaftNode \<Rightarrow> (Term \<times> string) list" where
  "self_vote nd = (case checked_next (current_term nd) of Some t \<Rightarrow> [(t, rn_id nd)] | None \<Rightarrow> [])"

definition granted_vote :: "RequestVoteArgs \<Rightarrow> RequestVoteReply option \<Rightarrow> (Term \<times> string) list" where
  "granted_vote args reply =
     (case reply of
        Some r \<Rightarrow> if rvr_vote_granted r then [(rv_term args, rv_candidate_id args)] else []
      | None \<Rightarrow> [])"

inductive node_step :: "'s Env \<Rightarrow> 's RaftNode \<Rightarrow> (Term \<times> string) list \<Rightarrow> 's RaftNode \<Rightarrow> bool" for E where
  vote: "handle_request_vote E nd tf tr args = (nd', reply) \<Longrightarrow>
     node_step E nd (granted_vote args (Some reply)) nd'"
| vote_rpc: "handle_request_vote_rpc E nd lim tf tr args = (nd', reply) \<Longrightarrow>
     node_step E nd (granted_vote args reply) nd'"
| append: "handle_append_entries E nd ck args = (nd', reply) \<Longrightarrow> node_step E nd [] nd'"
| snapshot: "handle_install_snapshot E nd tf tr ms args = (nd', reply) \<Longrightarrow> node_step E nd [] nd'"
| candidate: "try_become_candidate E nd j = (nd', err) \<Longrightarrow> node_step E nd (self_vote nd) nd'"
| pre_vote: "try_become_candidate_with_prevote E nd rs j = (nd', res) \<Longrightarrow>
     node_step E nd (if pre_vote_majority_reached nd rs then self_vote nd else []) nd'"
| leader: "node_step E nd [] (become_leader nd)"
| submit: "submit_command E nd ms c = (nd', res) \<Longrightarrow> node_step E nd [] nd'"
| propose: "propose_config_change nd now pid node a = (nd', res) \<Longrightarrow> node_step E nd [] nd'"
| approval: "record_config_change_approval E nd tf ap = (nd', ok) \<Longrightarrow> node_step E nd [] nd'"
| commit: "commit_config_change_proposal E nd ms pid = (nd', res) \<Longrightarrow> node_step E nd [] nd'"
| reply: "node_step E nd [] (handle_append_entries_reply E nd tf d ms p r k)"
| prepare: "prepare_append_entries E nd now mn p = (nd', msg) \<Longrightarrow> node_step E nd [] nd'"
| replicate: "replicate_to_all_prepared E nd clk = (nd', msgs) \<Longrightarrow> node_step E nd [] nd'"
| maintenance: "run_periodic_maintenance nd now = (nd', n) \<Longrightarrow> node_step E nd [] nd'"
| restart: "storage nd = Some st \<Longrightarrow> rn_id fresh = rn_id nd \<Longrightarrow>
     attach_storage E fresh st now = (nd', None) \<Longrightarrow> node_step E nd [] nd'"

inductive node_run :: "'s Env \<Rightarrow> 's RaftNode \<Rightarrow> (Term \<times> string) list \<Rightarrow> 's RaftNode \<Rightarrow> bool" for E where
  start: "node_run E nd [] nd"
| step: "node_run E nd vs nd' \<Longrightarrow> node_step E nd' ws nd'' \<Longrightarrow> node_run E nd (vs @ ws) nd''"

text \<open>What the calls that touch neither term, vote nor storage keep.\<close>

definition same_hard :: "'s RaftNode \<Rightarrow> 's RaftNode \<Rightarrow> bool" where
  "same_hard nd nd' \<longleftrightarrow> hard_of nd' = hard_of nd \<and> storage nd' = storage nd \<and> rn_id nd' = rn_id nd"

lemma same_hard_refl [simp]: "same_hard nd nd"
  by (simp add: same_hard_def)

lemma same_hard_trans: "same_hard a b \<Longrightarrow> same_hard b c \<Longrightarrow> same_hard a c"
  by (simp add: same_hard_def)

lemma same_hard_step: "same_hard nd nd' \<Longrightarrow> hard_step (hard_of nd) (hard_of nd')"
  by (simp add: same_hard_def)

lemma same_hard_synced: "same_hard nd nd' \<Longrightarrow> synced hard nd' = synced hard nd"
  by (simp add: same_hard_def synced_def stored_def)

lemma same_hard_prepare: "same_hard nd (fst (prepare_append_entries_shared E nd now mn p b sh r))"
  by (simp add: prepare_append_entries_shared_def same_hard_def hard_of_def Let_def split: option.split)

lemma same_hard_loop: "same_hard nd (fst (replicate_loop E nd clk i b sh r ps))"
proof (induction ps arbitrary: nd i)
  case (Cons p ps)
  show ?case
    using same_hard_trans [OF same_hard_prepare Cons.IH]
    by (simp add: split_def)
qed simp

lemma same_hard_ops:
  "same_hard nd (become_leader nd)"
  "same_hard nd (fst (propose_config_change nd now pid node a))"
  "same_hard nd (fst (record_config_change_approval E nd tf ap))"
  "same_hard nd (fst (prepare_append_entries E nd now mn p))"
  "same_hard nd (fst (replicate_to_all_prepared E nd clk))"
  "same_hard nd (fst (run_periodic_maintenance nd now))"
       apply (simp add: same_hard_def hard_of_def become_leader_def Let_def)
      apply (simp add: same_hard_def hard_of_def propose_config_change_def Let_def)
     apply (simp add: same_hard_def hard_of_def record_config_change_approval_def Let_def split: option.split)
    apply (simp add: prepare_append_entries_def Let_def split_def same_hard_prepare split: option.split)
   apply (simp add: replicate_to_all_prepared_def Let_def same_hard_loop)
  apply (simp add: same_hard_def hard_of_def run_periodic_maintenance_def Let_def split_def)
  done

lemma sync_peers_hard [simp]:
  "hard_of (sync_peers_from_voters nd vs t) = hard_of nd"
  "rn_id (sync_peers_from_voters nd vs t) = rn_id nd"
  by (simp_all add: sync_peers_from_voters_def Let_def hard_of_def)

lemma hard_of_update [simp]:
  "hard_of (nd\<lparr>storage := st\<rparr>) = hard_of nd" "hard_of (nd\<lparr>rlog := l\<rparr>) = hard_of nd"
  "hard_of (nd\<lparr>state_machine := sm\<rparr>) = hard_of nd" "hard_of (nd\<lparr>last_snapshot_index := i\<rparr>) = hard_of nd"
  "hard_of (nd\<lparr>last_snapshot_term := i\<rparr>) = hard_of nd"
  "hard_of (nd\<lparr>current_term := t, voted_for := v\<rparr>) = \<lparr>hs_current_term = t, hs_voted_for = v\<rparr>"
  by (simp_all add: hard_of_def)

lemma attach_storage_loaded:
  assumes h: "load_hard_state (store_ops E) st = Inr h" and es: "load_log (store_ops E) st = Inr es"
    and sn: "load_snapshot (store_ops E) st = Inr sn"
  shows "hard_of (fst (attach_storage E fresh st now)) = h"
    "storage (fst (attach_storage E fresh st now)) = Some st"
proof -
  show "hard_of (fst (attach_storage E fresh st now)) = h"
  proof (cases sn)
    case (Some snap)
    then show ?thesis
      by (cases "state_machine fresh"; cases "sm_from_slice E (ps_data snap)")
        (simp_all add: attach_storage_def h es sn Let_def)
  qed (simp add: attach_storage_def h es sn Let_def)
  show "storage (fst (attach_storage E fresh st now)) = Some st"
    by (cases sn) (simp_all add: attach_storage_def h es sn Let_def)
qed

text \<open>
  The votes a step casts are the vote of the hard state it leaves.  Votes of earlier steps
  are of lower terms, or are still that vote.
\<close>

definition votes_now :: "HardState \<Rightarrow> (Term \<times> string) list \<Rightarrow> bool" where
  "votes_now h vs \<longleftrightarrow> (\<forall>t c. (t, c) \<in> set vs \<longrightarrow> t = hs_current_term h \<and> hs_voted_for h = Some c)"

definition votes_held :: "HardState \<Rightarrow> (Term \<times> string) list \<Rightarrow> bool" where
  "votes_held h vs \<longleftrightarrow> (\<forall>t c. (t, c) \<in> set vs \<longrightarrow>
     t < hs_current_term h \<or> t = hs_current_term h \<and> hs_voted_for h = Some c)"

definition one_per_term :: "(Term \<times> string) list \<Rightarrow> bool" where
  "one_per_term vs \<longleftrightarrow> (\<forall>t c c'. (t, c) \<in> set vs \<longrightarrow> (t, c') \<in> set vs \<longrightarrow> c = c')"

lemma votes_Nil [simp]: "votes_held h []" "votes_now h []" "one_per_term []"
  by (simp_all add: votes_held_def votes_now_def one_per_term_def)

lemma votes_held_step:
  assumes "votes_held h vs" and "hard_step h h'"
  shows "votes_held h' vs"
  unfolding votes_held_def
proof (intro allI impI)
  fix t c assume "(t, c) \<in> set vs"
  then have "t < hs_current_term h \<or> t = hs_current_term h \<and> hs_voted_for h = Some c"
    using assms(1) by (simp add: votes_held_def)
  then show "t < hs_current_term h' \<or> t = hs_current_term h' \<and> hs_voted_for h' = Some c"
    using assms(2) by (auto simp: hard_step_def)
qed

lemma votes_held_more: "votes_held h vs \<Longrightarrow> votes_now h ws \<Longrightarrow> votes_held h (vs @ ws)"
  by (auto simp: votes_held_def votes_now_def)

lemma one_per_term_more:
  assumes vs: "one_per_term vs" "votes_held h vs" and ws: "votes_now h ws"
  shows "one_per_term (vs @ ws)"
proof -
  have old: "c = c'" if "(t, c) \<in> set vs" "(t, c') \<in> set vs" for t c c'
    using vs(1) that unfolding one_per_term_def by blast
  have cross: "c = c'" if "(t, c) \<in> set vs" "(t, c') \<in> set ws" for t c c'
  proof -
    have "t = hs_current_term h" "hs_voted_for h = Some c'"
      using ws that(2) unfolding votes_now_def by blast+
    moreover have "t < hs_current_term h \<or> t = hs_current_term h \<and> hs_voted_for h = Some c"
      using vs(2) that(1) unfolding votes_held_def by blast
    ultimately show ?thesis by simp
  qed
  have new: "c = c'" if "(t, c) \<in> set ws" "(t, c') \<in> set ws" for t c c'
    using ws that unfolding votes_now_def by (metis option.inject)
  show ?thesis
    unfolding one_per_term_def set_append Un_iff
  proof (intro allI impI, elim disjE)
    fix t c c' assume "(t, c) \<in> set ws" "(t, c') \<in> set vs"
    then show "c = c'" by (rule cross [symmetric, rotated])
  qed (fact old cross new)+
qed

lemma votes_now_self: "votes_now (hard_of (fst (try_become_candidate E nd j))) (self_vote nd)"
  by (simp add: try_become_candidate_def self_vote_def votes_now_def hard_of_def Let_def split: option.split)

lemma votes_now_granted:
  assumes "handle_request_vote E nd tf tr args = (nd', reply)"
  shows "votes_now (hard_of nd') (granted_vote args (Some reply))"
  using handle_request_vote_granted [of E nd tf tr args] handle_request_vote_term [of E nd tf tr args]
    handle_request_vote_voted_for [of E nd tf tr args] assms
  by (auto simp: votes_now_def granted_vote_def hard_of_def max_def)

text \<open>What every step gives, whatever the operation.\<close>

definition safe_step :: "('s \<Rightarrow> HardState) \<Rightarrow> 's RaftNode \<Rightarrow> (Term \<times> string) list \<Rightarrow> 's RaftNode \<Rightarrow> bool" where
  "safe_step hard nd vs nd' \<longleftrightarrow>
     synced hard nd' \<and> hard_step (hard_of nd) (hard_of nd') \<and> votes_now (hard_of nd') vs"

context durable_storage
begin

lemma safe_same: "same_hard nd nd' \<Longrightarrow> synced hard nd \<Longrightarrow> safe_step hard nd [] nd'"
  by (simp add: safe_step_def same_hard_synced same_hard_step)

lemma safe_vote:
  assumes "store_ops E = ops" and "synced hard nd" and "handle_request_vote E nd tf tr args = (nd', reply)"
  shows "safe_step hard nd (granted_vote args (Some reply)) nd'"
  using synced_request_vote [OF assms(1,2), of tf tr args] hard_step_request_vote [of nd E tf tr args]
    votes_now_granted [OF assms(3)] assms(3)
  by (simp add: safe_step_def)

lemma safe_vote_rpc:
  assumes "store_ops E = ops" and "synced hard nd"
  shows "safe_step hard nd (granted_vote args (snd (handle_request_vote_rpc E nd lim tf tr args)))
    (fst (handle_request_vote_rpc E nd lim tf tr args))"
proof -
  obtain l ok where tc: "try_consume (vote_rate_limiter nd) (rv_candidate_id args) lim = (l, ok)"
    by (rule prod.exhaust)
  define n where "n = nd\<lparr>vote_rate_limiter := l\<rparr>"
  have same: "same_hard nd n" by (simp add: n_def same_hard_def hard_of_def)
  with assms(2) have n: "synced hard n" by (simp add: same_hard_synced)
  obtain nd2 r where h: "handle_request_vote E n tf tr args = (nd2, r)" by (rule prod.exhaust)
  show ?thesis
  proof (cases ok)
    case False
    have "handle_request_vote_rpc E nd lim tf tr args = (n, None)"
      by (simp add: handle_request_vote_rpc_def tc Let_def n_def False)
    then show ?thesis using safe_same [OF same assms(2)] by (simp add: granted_vote_def)
  next
    case True
    have "handle_request_vote_rpc E nd lim tf tr args = (nd2, Some r)"
      by (simp add: handle_request_vote_rpc_def tc Let_def n_def [symmetric] True h)
    then show ?thesis using safe_vote [OF assms(1) n h] same by (simp add: safe_step_def same_hard_def)
  qed
qed

lemma safe_candidate:
  "store_ops E = ops \<Longrightarrow> synced hard nd \<Longrightarrow> safe_step hard nd (self_vote nd) (fst (try_become_candidate E nd j))"
  using synced_candidate [of E nd j] hard_step_candidate [of nd E j] votes_now_self [of E nd j]
  by (simp add: safe_step_def become_candidate_def)

lemma safe_submit:
  "store_ops E = ops \<Longrightarrow> synced hard nd \<Longrightarrow> safe_step hard nd [] (fst (submit_command E nd ms c))"
  using synced_submit [of E nd ms c] hard_of_cong [of "fst (submit_command E nd ms c)" nd]
  by (simp add: safe_step_def)

lemma safe_commit:
  assumes "store_ops E = ops" and "synced hard nd"
  shows "safe_step hard nd [] (fst (commit_config_change_proposal E nd ms pid))"
proof -
  note sub = safe_submit [OF assms]
  then have "safe_step hard nd [] ((fst (submit_command E nd ms c))\<lparr>pending_config_changes := q\<rparr>)" for c q
    by (simp add: safe_step_def synced_def stored_def hard_of_def)
  with sub safe_same [OF same_hard_refl assms(2)] show ?thesis
    by (auto simp: commit_config_change_proposal_def Let_def split: option.split prod.split)
      (metis fst_conv)+
qed

lemma safe_restart:
  assumes "store_ops E = ops" and "synced hard nd" and "storage nd = Some st"
    and "attach_storage E fresh st now = (nd', None)"
  shows "safe_step hard nd [] nd'"
proof -
  obtain es sn where "load_log ops st = Inr es" "load_snapshot ops st = Inr sn"
    using never_fails(7,8) by blast
  then have "hard_of nd' = hard st" "storage nd' = Some st"
    using attach_storage_loaded [of E st "hard st" es sn fresh now] assms(1,4)
    by (simp_all add: load_hard_value)
  then show ?thesis
    using assms(2,3) by (simp add: safe_step_def synced_def stored_def)
qed

lemma node_step_safe: "node_step E nd vs nd' \<Longrightarrow> store_ops E = ops \<Longrightarrow> synced hard nd \<Longrightarrow> safe_step hard nd vs nd'"
proof (induction rule: node_step.induct)
  case (append nd ck args nd' reply)
  then show ?case
    using synced_append [of E nd ck args] hard_step_append [of nd E ck args] by (simp add: safe_step_def)
next
  case (snapshot nd tf tr ms args nd' reply)
  then show ?case
    using synced_snapshot [of E nd tf tr ms args] hard_step_snapshot [of nd E tf tr ms args]
    by (simp add: safe_step_def)
next
  case (candidate nd j nd' err)
  then show ?case using safe_candidate [of E nd j] by simp
next
  case (pre_vote nd rs j nd' res)
  then show ?case
    using safe_candidate [of E nd j] safe_same [OF same_hard_refl]
    by (auto simp: try_become_candidate_with_prevote_def split: if_splits prod.splits option.splits)
next
  case (submit nd ms c nd' res)
  then show ?case using safe_submit [of E nd ms c] by simp
next
  case (commit nd ms pid nd' res)
  then show ?case using safe_commit [of E nd ms pid] by simp
next
  case (reply nd tf d ms p r k)
  then show ?case using synced_reply hard_step_reply by (simp add: safe_step_def)
next
  case (vote_rpc nd lim tf tr args nd' reply)
  then show ?case using safe_vote_rpc [of E nd args lim tf tr] by simp
next
  case (propose nd now pid node a nd' res)
  then show ?case using safe_same [OF same_hard_ops(2)] by (metis fst_conv)
next
  case (approval nd tf ap nd' ok)
  then show ?case using safe_same [OF same_hard_ops(3)] by (metis fst_conv)
next
  case (prepare nd now mn p nd' msg)
  then show ?case using safe_same [OF same_hard_ops(4)] by (metis fst_conv)
next
  case (replicate nd clk nd' msgs)
  then show ?case using safe_same [OF same_hard_ops(5)] by (metis fst_conv)
next
  case (maintenance nd now nd' n)
  then show ?case using safe_same [OF same_hard_ops(6)] by (metis fst_conv)
qed (auto intro: safe_same same_hard_ops(1) safe_vote safe_restart)

lemma node_run_safe:
  "node_run E nd vs nd' \<Longrightarrow> store_ops E = ops \<Longrightarrow> synced hard nd \<Longrightarrow>
   synced hard nd' \<and> hard_step (hard_of nd) (hard_of nd') \<and> votes_held (hard_of nd') vs \<and> one_per_term vs"
proof (induction rule: node_run.induct)
  case (step nd vs nd' ws nd'')
  then have ih: "synced hard nd'" "hard_step (hard_of nd) (hard_of nd')" "votes_held (hard_of nd') vs"
      "one_per_term vs" by simp_all
  have "safe_step hard nd' ws nd''" by (rule node_step_safe [OF step.hyps(2) step.prems(1) ih(1)])
  then have st: "synced hard nd''" "hard_step (hard_of nd') (hard_of nd'')" "votes_now (hard_of nd'') ws"
    by (simp_all add: safe_step_def)
  have held: "votes_held (hard_of nd'') vs" by (rule votes_held_step [OF ih(3) st(2)])
  show ?case
    by (intro conjI st(1) hard_step_trans [OF ih(2) st(2)] votes_held_more [OF held st(3)]
        one_per_term_more [OF ih(4) held st(3)])
qed simp

end

section \<open>One vote per term\<close>

text \<open>
  C5: over any run, restarts included, a node whose storage keeps what is written to it
  votes for at most one candidate in a term, its own candidacies included.  Every vote it
  has given is of a lower term than the one it is in, or is the vote it has on record.
\<close>

theorem one_vote_per_term:
  assumes "durable_storage (store_ops E) hard plog snap" and "synced hard nd" and "node_run E nd vs nd'"
  shows "one_per_term vs \<and> votes_held (hard_of nd') vs \<and> current_term nd \<le> current_term nd'"
  using durable_storage.node_run_safe [OF assms(1,3) refl assms(2)]
  by (simp add: hard_step_def hard_of_def)

definition voter_store :: "string \<Rightarrow> InMemoryStorage RaftNode" where
  "voter_store i = (voter_node i)\<lparr>storage := Some in_memory_new\<rparr>"

definition voter_elected :: "string \<Rightarrow> InMemoryStorage RaftNode" where
  "voter_elected i = become_candidate example_env (voter_store i) 0"

definition voter_restarted :: "string \<Rightarrow> InMemoryStorage RaftNode" where
  "voter_restarted i = fst (attach_storage example_env (voter_node i) (the (storage (voter_elected i))) 0)"

lemma voter_store_synced: "synced im_hard (voter_store i)"
  by (simp add: synced_def stored_def voter_store_def hard_of_def in_memory_new_def hard_state_default_def
      voter_node_def node_new_def with_vote_rate_limiter_config_def Let_def)

lemma voter_store_fields: "current_term (voter_store i) = 0" "rn_id (voter_store i) = i"
  "storage (voter_store i) = Some in_memory_new"
  by (simp_all add: voter_store_def voter_node_fields)

lemma voter_elected_fields: "rn_id (voter_elected i) = i" "\<exists>st. storage (voter_elected i) = Some st"
  using checked_next_Some [of 0 1]
  by (simp_all add: voter_elected_def become_candidate_def try_become_candidate_def voter_store_fields Let_def
      persist_hard_state_def)

lemma self_vote_voter: "self_vote (voter_store i) = [(1, i)]"
  using checked_next_Some [of 0 1] by (simp add: self_vote_def voter_store_fields)

lemma voter_restarts: "attach_storage example_env (voter_node i) st 0 =
    (fst (attach_storage example_env (voter_node i) st 0), None)"
  by (simp add: attach_storage_def in_memory_def Let_def split: option.split)

lemma voter_run: "node_run example_env (voter_store i) [(1, i)] (voter_restarted i)"
proof -
  obtain st where st: "storage (voter_elected i) = Some st" using voter_elected_fields(2) by blast
  have "node_step example_env (voter_store i) [(1, i)] (voter_elected i)"
    using node_step.candidate [where E = example_env and nd = "voter_store i" and j = 0, OF surjective_pairing]
    by (simp add: voter_elected_def become_candidate_def self_vote_voter)
  moreover have "node_step example_env (voter_elected i) [] (voter_restarted i)"
    by (rule node_step.restart [OF st, of "voter_node i" _ 0])
      (simp_all add: voter_elected_fields voter_node_fields voter_restarted_def st voter_restarts [symmetric])
  ultimately show ?thesis
    using node_run.step [OF node_run.step [OF node_run.start]] by fastforce
qed

theorem one_vote_per_term_witness:
  "one_per_term [(1, ''n'')] \<and> votes_held (hard_of (voter_restarted ''n'')) [(1, ''n'')] \<and>
   current_term (voter_store ''n'') \<le> current_term (voter_restarted ''n'')"
  by (rule one_vote_per_term [OF _ voter_store_synced voter_run])
    (simp, rule mem.durable_storage_axioms)

section \<open>One leader per term\<close>

text \<open>What an election relies on: any two quorums of a membership have a member in common.\<close>

locale quorum_system =
  fixes quorum :: "'m \<Rightarrow> string set \<Rightarrow> bool"
  assumes meet: "quorum m A \<Longrightarrow> quorum m B \<Longrightarrow> A \<inter> B \<noteq> {}"
begin

lemma one_winner:
  assumes "quorum m A" and "quorum m B"
    and "\<And>i. i \<in> A \<Longrightarrow> (t, c) \<in> set (votes i)" and "\<And>i. i \<in> B \<Longrightarrow> (t, c') \<in> set (votes i)"
    and "\<And>i. i \<in> A \<Longrightarrow> one_per_term (votes i)"
  shows "c = c'"
proof -
  obtain i where "i \<in> A" "i \<in> B" using meet [OF assms(1,2)] by blast
  then show ?thesis using assms(3) [of i] assms(4) [of i] assms(5) [of i] unfolding one_per_term_def by blast
qed

end

text \<open>The quorums of a node: \<open>quorum_size\<close> members out of itself and its peers.\<close>

definition majority :: "'s RaftNode \<Rightarrow> string set \<Rightarrow> bool" where
  "majority nd Q \<longleftrightarrow> Q \<subseteq> insert (rn_id nd) (set (peers nd)) \<and> quorum_size nd \<le> card Q"

lemma majorities_meet:
  assumes "majority nd A" and "majority nd B"
  shows "A \<inter> B \<noteq> {}"
proof
  assume disjoint: "A \<inter> B = {}"
  let ?M = "insert (rn_id nd) (set (peers nd))"
  have sub: "A \<subseteq> ?M" "B \<subseteq> ?M" using assms by (simp_all add: majority_def)
  then have "card A + card B = card (A \<union> B)"
    using disjoint by (metis List.finite_set card_Un_disjoint finite.insertI finite_subset)
  also have "\<dots> \<le> card ?M" using sub by (intro card_mono) auto
  also have "\<dots> \<le> length (peers nd) + 1"
    using card_length [of "rn_id nd # peers nd"] by simp
  finally have "card A + card B \<le> length (peers nd) + 1" .
  moreover have "(length (peers nd) + 1) div 2 + 1 \<le> card A" "(length (peers nd) + 1) div 2 + 1 \<le> card B"
    using assms by (simp_all add: majority_def quorum_size_def Let_def)
  ultimately show False by presburger
qed

interpretation cluster: quorum_system majority
  by unfold_locales (rule majorities_meet)

text \<open>
  C1: election safety.  Take any runs of the members of a cluster, each over a storage
  that keeps what is written to it.  If two candidates have each been given the votes of
  \<open>quorum_size\<close> members in the same term, they are the same candidate.
\<close>

theorem election_safety:
  assumes "durable_storage (store_ops E) hard plog snap"
    and "\<And>i. i \<in> A \<Longrightarrow> synced hard (start i) \<and> node_run E (start i) (votes i) (now i)"
    and "majority nd A" and "majority nd B"
    and "\<And>i. i \<in> A \<Longrightarrow> (t, c) \<in> set (votes i)" and "\<And>i. i \<in> B \<Longrightarrow> (t, c') \<in> set (votes i)"
  shows "c = c'"
proof (rule cluster.one_winner [OF assms(3-6)])
  fix i assume "i \<in> A"
  then show "one_per_term (votes i)"
    using durable_storage.node_run_safe [OF assms(1) _ refl] assms(2) by blast
qed

definition vote_request :: RequestVoteArgs where
  "vote_request =
     (let args = \<lparr>rv_term = 1, rv_candidate_id = ''n'', rv_last_log_index = 0, rv_last_log_term = 0,
                  rv_timestamp_ms = 5, rv_hmac = None\<rparr>
      in args\<lparr>rv_hmac := Some (compute_request_vote_hmac (hmac_sha256 example_env) [7] args)\<rparr>)"

lemma vote_request_fields: "rv_term vote_request = 1" "rv_candidate_id vote_request = ''n''"
  by (simp_all add: vote_request_def Let_def)

lemma vote_request_granted:
  "rvr_vote_granted (snd (handle_request_vote example_env (voter_store i) 5 5 vote_request))"
proof -
  have "snd (verify_request_vote example_env (voter_store i) 5 5 vote_request)"
    by (simp add: verify_request_vote_def vote_request_def voter_store_def voter_node_def node_new_def
        with_vote_rate_limiter_config_def check_message_freshness_def verify_hmac_def check_and_insert_result
        replay_cache_new_def Let_def split_def compute_request_vote_hmac_def request_vote_mac_def MAX_WIRE_FRAME_BYTES_def)
  then show ?thesis
    by (simp add: handle_request_vote_granted voter_store_fields vote_request_fields)
      (simp add: up_to_date_def voter_store_def voter_node_fields log_new_def vote_request_def last_term_def last_index_def)
qed

definition after_vote :: "string \<Rightarrow> InMemoryStorage RaftNode" where
  "after_vote i = (if i = ''n'' then voter_restarted i
     else fst (handle_request_vote example_env (voter_store i) 5 5 vote_request))"

lemma after_vote_run: "node_run example_env (voter_store i) [(1, ''n'')] (after_vote i)"
proof (cases "i = ''n''")
  case False
  have "node_step example_env (voter_store i) [(1, ''n'')] (after_vote i)"
    using node_step.vote [where E = example_env and nd = "voter_store i" and tf = 5 and tr = 5
        and args = vote_request, OF surjective_pairing] False
    by (simp add: after_vote_def granted_vote_def vote_request_granted vote_request_fields)
  then show ?thesis using node_run.step [OF node_run.start] by fastforce
qed (simp add: after_vote_def voter_run)

theorem election_safety_witness: "majority (voter_store ''n'') {''n'', ''a''} \<and> ''n'' = ''n''"
proof
  show maj: "majority (voter_store ''n'') {''n'', ''a''}"
    by (simp add: majority_def quorum_size_def voter_store_def voter_node_fields)
  show "''n'' = ''n''"
    by (rule election_safety [where E = example_env and hard = im_hard and plog = im_log and snap = im_snapshot
          and start = voter_store and now = after_vote and votes = "\<lambda>_. [(1, ''n'')]" and t = 1
          and A = "{''n'', ''a''}" and B = "{''n'', ''a''}" and nd = "voter_store ''n''"])
      (simp_all add: mem.durable_storage_axioms maj voter_store_synced after_vote_run)
qed

end
