(* ===== verification/Rust_Strings.thy ===== *)
theory Rust_Strings
  imports HSM_Prelude
begin

text \<open>
  Functions of the Rust standard library on text, at the level of UTF-8 bytes: validity,
  white space, integers in decimal, bytes in hexadecimal, lines.
\<close>

section \<open>UTF-8\<close>

text \<open>
  \<open>str::from_utf8\<close>: the well-formed byte sequences of the Unicode standard.  A string of
  the model has its UTF-8 bytes as characters.
\<close>

definition cont :: "u8 \<Rightarrow> bool" where
  "cont b \<longleftrightarrow> 0x80 \<le> b \<and> b \<le> 0xBF"

fun utf8_valid :: "bytes \<Rightarrow> bool" where
  "utf8_valid [] = True"
| "utf8_valid (a # bs) =
     (if a \<le> 0x7F then utf8_valid bs
      else case bs of
        [] \<Rightarrow> False
      | b # cs \<Rightarrow>
          if 0xC2 \<le> a \<and> a \<le> 0xDF then cont b \<and> utf8_valid cs
          else case cs of
            [] \<Rightarrow> False
          | c # ds \<Rightarrow>
              if a = 0xE0 then 0xA0 \<le> b \<and> b \<le> 0xBF \<and> cont c \<and> utf8_valid ds
              else if a = 0xED then 0x80 \<le> b \<and> b \<le> 0x9F \<and> cont c \<and> utf8_valid ds
              else if 0xE1 \<le> a \<and> a \<le> 0xEF then cont b \<and> cont c \<and> utf8_valid ds
              else case ds of
                [] \<Rightarrow> False
              | d # es \<Rightarrow>
                  if a = 0xF0 then 0x90 \<le> b \<and> b \<le> 0xBF \<and> cont c \<and> cont d \<and> utf8_valid es
                  else if 0xF1 \<le> a \<and> a \<le> 0xF3 then cont b \<and> cont c \<and> cont d \<and> utf8_valid es
                  else if a = 0xF4 then 0x80 \<le> b \<and> b \<le> 0x8F \<and> cont c \<and> cont d \<and> utf8_valid es
                  else False)"

definition from_utf8 :: "bytes \<Rightarrow> string option" where
  "from_utf8 bs = (if utf8_valid bs then Some (map (\<lambda>b. char_of (unat b)) bs) else None)"

lemma from_utf8_as_bytes: "utf8_valid (as_bytes s) \<Longrightarrow> from_utf8 (as_bytes s) = Some s"
  by (simp add: from_utf8_def as_bytes_def comp_def unat_of_nat)

lemma from_utf8_Some: "from_utf8 bs = Some s \<Longrightarrow> as_bytes s = bs \<and> utf8_valid bs"
proof -
  assume "from_utf8 bs = Some s"
  then have s: "s = map (\<lambda>b. char_of (unat b)) bs" "utf8_valid bs" by (auto simp: from_utf8_def split: if_splits)
  have "word_of_nat (of_char (char_of (unat b) :: char)) = b" for b :: u8
    using unat_less_2p [of b] by simp
  then show ?thesis using s by (simp add: as_bytes_def comp_def)
qed

lemma utf8_valid_ascii: "list_all (\<lambda>b. b \<le> 0x7F) bs \<Longrightarrow> utf8_valid bs"
  by (induction bs) auto

section \<open>White space\<close>

text \<open>
  The number of bytes of the character of Unicode property White\_Space a string starts
  with, or zero, and the same for the end, read backwards.
\<close>

definition ascii_space :: "u8 \<Rightarrow> bool" where
  "ascii_space c \<longleftrightarrow> c \<in> {9, 10, 11, 12, 13, 32}"

definition wide_space :: "u8 \<Rightarrow> u8 \<Rightarrow> u8 \<Rightarrow> bool" where
  "wide_space c d e \<longleftrightarrow>
     (c, d, e) \<in> {(0xE1, 0x9A, 0x80), (0xE2, 0x80, 0xA8), (0xE2, 0x80, 0xA9), (0xE2, 0x80, 0xAF), (0xE2, 0x81, 0x9F),
        (0xE3, 0x80, 0x80)} \<or>
     c = 0xE2 \<and> d = 0x80 \<and> 0x80 \<le> e \<and> e \<le> 0x8A"

fun space_at_start :: "bytes \<Rightarrow> nat" where
  "space_at_start [] = 0"
| "space_at_start (c # cs) =
     (if ascii_space c then 1
      else case cs of
        [] \<Rightarrow> 0
      | d # ds \<Rightarrow>
          if c = 0xC2 \<and> (d = 0x85 \<or> d = 0xA0) then 2
          else case ds of [] \<Rightarrow> 0 | e # _ \<Rightarrow> if wide_space c d e then 3 else 0)"

fun space_at_end :: "bytes \<Rightarrow> nat" where
  "space_at_end [] = 0"
| "space_at_end (c # cs) =
     (if ascii_space c then 1
      else case cs of
        [] \<Rightarrow> 0
      | d # ds \<Rightarrow>
          if d = 0xC2 \<and> (c = 0x85 \<or> c = 0xA0) then 2
          else case ds of [] \<Rightarrow> 0 | e # _ \<Rightarrow> if wide_space e d c then 3 else 0)"

function strip_spaces :: "(bytes \<Rightarrow> nat) \<Rightarrow> bytes \<Rightarrow> bytes" where
  "strip_spaces w s = (if w s = 0 \<or> s = [] then s else strip_spaces w (drop (w s) s))"
  by pat_completeness auto
termination
  by (relation "measure (\<lambda>(w, s). length s)") auto

declare strip_spaces.simps [simp del]

definition trim :: "bytes \<Rightarrow> bytes" where
  "trim s = rev (strip_spaces space_at_end (rev (strip_spaces space_at_start s)))"

text \<open>A visible ASCII character is neither white space nor part of a wider one.\<close>

definition graphic :: "u8 \<Rightarrow> bool" where
  "graphic b \<longleftrightarrow> 33 \<le> b \<and> b \<le> 126"

lemma graphic_no_space:
  assumes "graphic c"
  shows "space_at_start (c # cs) = 0" and "space_at_end (c # cs) = 0"
proof -
  have "c \<notin> {9, 10, 11, 12, 13, 32, 0xC2, 0xE1, 0xE2, 0xE3, 0x85, 0xA0, 0x80, 0xA8, 0xA9, 0xAF, 0x9F}" "\<not> 0x80 \<le> c"
    using assms by (auto simp: graphic_def word_le_nat_alt)
  then show "space_at_start (c # cs) = 0" "space_at_end (c # cs) = 0"
    by (auto simp: ascii_space_def wide_space_def split: list.split)
qed

lemma trim_graphic:
  assumes "s \<noteq> []" and "graphic (hd s)" and "graphic (last s)"
  shows "trim s = s"
proof -
  have none: "strip_spaces w t = t" if "w t = 0" for w t
    using that by (simp add: strip_spaces.simps)
  have "strip_spaces space_at_start s = s"
    using assms by (cases s) (simp_all add: none graphic_no_space del: space_at_start.simps)
  moreover have "strip_spaces space_at_end (rev s) = rev s"
    using assms by (cases s rule: rev_cases) (simp_all add: none graphic_no_space del: space_at_end.simps)
  ultimately show ?thesis by (simp add: trim_def)
qed

section \<open>Unsigned integers\<close>

text \<open>\<open>str::parse\<close> for an unsigned type with values below \<open>bound\<close>.\<close>

definition digit_value :: "u8 \<Rightarrow> nat option" where
  "digit_value c = (if 48 \<le> c \<and> c \<le> 57 then Some (unat c - 48) else None)"

fun digits_value :: "nat \<Rightarrow> nat \<Rightarrow> bytes \<Rightarrow> nat option" where
  "digits_value bound acc [] = Some acc"
| "digits_value bound acc (c # cs) =
     (case digit_value c of
        None \<Rightarrow> None
      | Some d \<Rightarrow> if acc * 10 + d < bound then digits_value bound (acc * 10 + d) cs else None)"

definition parse_unsigned :: "nat \<Rightarrow> bytes \<Rightarrow> nat option" where
  "parse_unsigned bound s =
     (let digits = (case s of c # cs \<Rightarrow> if c = 43 then cs else s | [] \<Rightarrow> s) in
      if digits = [] then None else digits_value bound 0 digits)"

lemma as_bytes_append [simp]: "as_bytes (s @ t) = as_bytes s @ as_bytes t"
  by (simp add: as_bytes_def)

lemma as_bytes_digit: "d < 10 \<Longrightarrow> as_bytes [char_of (48 + d)] = [48 + word_of_nat d]"
  by (simp add: as_bytes_def)

lemma unat_digit: "d < 10 \<Longrightarrow> unat (48 + word_of_nat d :: u8) = 48 + d"
proof -
  assume "d < 10"
  have "(48 + word_of_nat d :: u8) = word_of_nat (48 + d)" by simp
  then show ?thesis using \<open>d < 10\<close> by (simp only: unat_of_nat) simp
qed

lemma digit_value_digit: "d < 10 \<Longrightarrow> digit_value (48 + word_of_nat d) = Some d"
  by (simp add: digit_value_def word_le_nat_alt unat_digit)

lemma digits_value_snoc:
  "digits_value bound acc (xs @ [c]) =
     (case digits_value bound acc xs of
        None \<Rightarrow> None
      | Some v \<Rightarrow> (case digit_value c of None \<Rightarrow> None | Some d \<Rightarrow> if v * 10 + d < bound then Some (v * 10 + d) else None))"
  by (induction xs arbitrary: acc) (auto split: option.splits)

lemma digits_value_decimal: "n < bound \<Longrightarrow> digits_value bound 0 (as_bytes (decimal n)) = Some n"
proof (induction n rule: decimal.induct)
  case (1 n)
  show ?case
  proof (cases "n < 10")
    case True
    then show ?thesis
      using 1(2) by (subst decimal.simps) (simp add: as_bytes_digit digit_value_digit)
  next
    case False
    have "n div 10 < bound" using 1(2) by linarith
    with False 1 have "digits_value bound 0 (as_bytes (decimal (n div 10))) = Some (n div 10)" by simp
    moreover have "decimal n = decimal (n div 10) @ [char_of (48 + n mod 10)]" using False by (subst decimal.simps) simp
    ultimately show ?thesis
      using 1(2) by (simp add: as_bytes_digit digits_value_snoc digit_value_digit)
  qed
qed

lemma decimal_graphic: "list_all (\<lambda>b. 48 \<le> b \<and> b \<le> 57) (as_bytes (decimal n))"
proof -
  have "48 \<le> (word_of_nat k :: u8) \<and> (word_of_nat k :: u8) \<le> 57" if "48 \<le> k" "k < 58" for k
    using that by (simp add: word_le_nat_alt unat_of_nat)
  then show ?thesis using decimal_digits [of n] by (auto simp: list_all_iff as_bytes_def)
qed

lemma parse_unsigned_decimal: "n < bound \<Longrightarrow> parse_unsigned bound (as_bytes (decimal n)) = Some n"
proof -
  assume n: "n < bound"
  obtain c cs where c: "as_bytes (decimal n) = c # cs" by (cases "as_bytes (decimal n)") (auto simp: as_bytes_def)
  have "48 \<le> c" using decimal_graphic [of n] c by simp
  then have "c \<noteq> 43" by auto
  then show ?thesis using digits_value_decimal [OF n] c by (simp add: parse_unsigned_def)
qed

section \<open>Hexadecimal\<close>

lemma low_nibble_eq: "and b 0x0F = take_bit 4 (b :: u8)"
  by (simp add: take_bit_eq_mask mask_eq_exp_minus_1)

lemma high_nibble: "unat (drop_bit 4 (b :: u8)) < 16"
  using unat_less_2p [of b] by (subst unat_drop_bit_eq) (simp add: drop_bit_eq_div)

lemma low_nibble: "unat (and b 0x0F :: u8) < 16"
  unfolding low_nibble_eq by (subst unsigned_take_bit_eq) (simp add: take_bit_eq_mod)

lemma join_nibbles: "or (push_bit 4 (drop_bit 4 b)) (and b 0x0F) = (b :: u8)"
  unfolding low_nibble_eq by (rule bit_word_eqI) (auto simp: bit_simps)

text \<open>The two digits that \<open>{:02x}\<close> prints for a byte.\<close>

definition lower_hex :: "u8 \<Rightarrow> u8" where
  "lower_hex n = (if n < 10 then 48 + n else 87 + n)"

definition hex02 :: "u8 \<Rightarrow> bytes" where
  "hex02 b = [lower_hex (drop_bit 4 b), lower_hex (and b 0x0F)]"

section \<open>Lines\<close>

text \<open>
  \<open>BufRead::lines\<close> up to the first line that is not UTF-8: a line ends before a line feed,
  which a carriage return may precede, or at the end of the input.
\<close>

function split_lines :: "bytes \<Rightarrow> bytes list" where
  "split_lines bs =
     (if bs = [] then []
      else let line = takeWhile (\<lambda>b. b \<noteq> 10) bs; rest = dropWhile (\<lambda>b. b \<noteq> 10) bs in
        if rest = [] then [line]
        else (if line \<noteq> [] \<and> last line = 13 then butlast line else line) # split_lines (tl rest))"
  by pat_completeness auto
termination
proof (relation "measure length", goal_cases)
  case (2 bs line rest)
  then have "length rest \<le> length bs" "0 < length bs" by (simp_all add: length_dropWhile_le)
  with 2 show ?case by (simp only: in_measure length_tl)
qed simp

declare split_lines.simps [simp del]

definition read_lines :: "bytes \<Rightarrow> bytes list" where
  "read_lines bs = takeWhile utf8_valid (split_lines bs)"

lemma split_lines_Nil [simp]: "split_lines [] = []"
  by (simp add: split_lines.simps)

lemma split_lines_Cons:
  assumes "10 \<notin> set line" and "line = [] \<or> last line \<noteq> 13"
  shows "split_lines (line @ 10 # rest) = line # split_lines rest"
proof -
  have "takeWhile (\<lambda>b. b \<noteq> 10) (line @ 10 # rest) = line" "dropWhile (\<lambda>b. b \<noteq> 10) (line @ 10 # rest) = 10 # rest"
    using assms(1) by (induction line) auto
  then show ?thesis using assms(2) by (subst split_lines.simps) (auto simp: Let_def)
qed

end
