(* ===== verification/Kmip_Ttlv.thy ===== *)
theory Kmip_Ttlv
  imports Rust_Strings
begin

text \<open>
  The KMIP wire format, \<open>craton-hsm-kmip/src/ttlv.rs\<close>: items of a tag, a type, a length and
  a value padded to eight bytes, nested in structures.  The single-pass encoder, which
  patches the length of a structure in after its children are written, is shown equal
  to a compositional one; the decoder with its depth, item and byte limits inverts it,
  and what it accepts stays within the limits.
\<close>

section \<open>Items\<close>

datatype TtlvType =
    TypStructure | TypInteger | TypLongInteger | TypBigInteger | TypEnumeration | TypBoolean
  | TypTextString | TypByteString | TypDateTime

definition to_u8 :: "TtlvType \<Rightarrow> u8" where
  "to_u8 t =
     (case t of TypStructure \<Rightarrow> 1 | TypInteger \<Rightarrow> 2 | TypLongInteger \<Rightarrow> 3 | TypBigInteger \<Rightarrow> 4
      | TypEnumeration \<Rightarrow> 5 | TypBoolean \<Rightarrow> 6 | TypTextString \<Rightarrow> 7 | TypByteString \<Rightarrow> 8 | TypDateTime \<Rightarrow> 9)"

definition from_u8 :: "u8 \<Rightarrow> TtlvType option" where
  "from_u8 v =
     (if v = 1 then Some TypStructure else if v = 2 then Some TypInteger
      else if v = 3 then Some TypLongInteger else if v = 4 then Some TypBigInteger
      else if v = 5 then Some TypEnumeration else if v = 6 then Some TypBoolean
      else if v = 7 then Some TypTextString else if v = 8 then Some TypByteString
      else if v = 9 then Some TypDateTime else None)"

text \<open>Signed integers are words; \<open>to_be_bytes\<close> writes their two's complement.\<close>

datatype TtlvValue =
    Structure "TtlvItem list"
  | Integer u32
  | LongInteger u64
  | BigInteger bytes
  | Enumeration u32
  | Boolean bool
  | TextString string
  | ByteString bytes
  | DateTime u64
and TtlvItem = TtlvItem (it_tag: u32) (it_value: TtlvValue)

fun ttlv_type :: "TtlvValue \<Rightarrow> TtlvType" where
  "ttlv_type (Structure _) = TypStructure"
| "ttlv_type (Integer _) = TypInteger"
| "ttlv_type (LongInteger _) = TypLongInteger"
| "ttlv_type (BigInteger _) = TypBigInteger"
| "ttlv_type (Enumeration _) = TypEnumeration"
| "ttlv_type (Boolean _) = TypBoolean"
| "ttlv_type (TextString _) = TypTextString"
| "ttlv_type (ByteString _) = TypByteString"
| "ttlv_type (DateTime _) = TypDateTime"

datatype TtlvError =
    Truncated
  | UnknownType u8
  | InvalidLength
  | InvalidUtf8
  | DepthExceeded
  | ValueTooLarge nat
  | TooManyItems nat
  | MessageTooLarge nat

section \<open>Encoding\<close>

definition MAX_TTLV_VALUE_SIZE :: nat where
  "MAX_TTLV_VALUE_SIZE = 1048576"

definition MAX_TTLV_ENCODE_SIZE :: nat where
  "MAX_TTLV_ENCODE_SIZE = MAX_TTLV_VALUE_SIZE"

text \<open>\<open>(len + 7) & !7\<close>; the lengths it is called with are far below the width of \<open>usize\<close>.\<close>

definition padded_len :: "nat \<Rightarrow> nat" where
  "padded_len len = (len + 7) div 8 * 8"

definition write_header :: "bytes \<Rightarrow> u32 \<Rightarrow> TtlvType \<Rightarrow> u32 \<Rightarrow> bytes" where
  "write_header out tag typ value_len =
     out @ [ucast (and (drop_bit 16 tag) 0xFF), ucast (and (drop_bit 8 tag) 0xFF), ucast (and tag 0xFF),
            to_u8 typ] @ be_bytes 4 value_len"

definition pad_to_boundary :: "bytes \<Rightarrow> nat \<Rightarrow> bytes" where
  "pad_to_boundary out value_len = out @ replicate (padded_len value_len - value_len) 0"

text \<open>\<open>out[pos..pos + n].copy_from_slice(bs)\<close> for \<open>n\<close> bytes \<open>bs\<close>.\<close>

definition copy_into :: "bytes \<Rightarrow> nat \<Rightarrow> bytes \<Rightarrow> bytes" where
  "copy_into out pos bs = take pos out @ bs @ drop (pos + length bs) out"

text \<open>The three arms for byte strings of any length share their course.\<close>

definition encode_bytes_into :: "u32 \<Rightarrow> TtlvType \<Rightarrow> bytes \<Rightarrow> bytes \<Rightarrow> TtlvError + bytes" where
  "encode_bytes_into tag typ bs out =
     (let vlen = length bs in
      if vlen > MAX_TTLV_ENCODE_SIZE then Inl (ValueTooLarge vlen)
      else Inr (pad_to_boundary (write_header out tag typ (word_of_nat vlen) @ bs) vlen))"

fun encode_ttlv_into :: "TtlvItem \<Rightarrow> bytes \<Rightarrow> TtlvError + bytes"
  and encode_children_into :: "TtlvItem list \<Rightarrow> bytes \<Rightarrow> TtlvError + bytes" where
  "encode_ttlv_into (TtlvItem tag (Structure children)) out =
     (let header_pos = length out;
          out1 = write_header out tag TypStructure 0;
          children_start = length out1
      in case encode_children_into children out1 of
           Inl e \<Rightarrow> Inl e
         | Inr out2 \<Rightarrow>
             let inner_len = length out2 - children_start in
             if inner_len > MAX_TTLV_ENCODE_SIZE then Inl (ValueTooLarge inner_len)
             else Inr (copy_into out2 (header_pos + 4) (len_u32_be inner_len)))"
| "encode_ttlv_into (TtlvItem tag (Integer v)) out =
     Inr (write_header out tag TypInteger 4 @ be_bytes 4 v @ [0, 0, 0, 0])"
| "encode_ttlv_into (TtlvItem tag (LongInteger v)) out =
     Inr (write_header out tag TypLongInteger 8 @ u64_be v)"
| "encode_ttlv_into (TtlvItem tag (BigInteger bs)) out = encode_bytes_into tag TypBigInteger bs out"
| "encode_ttlv_into (TtlvItem tag (Enumeration v)) out =
     Inr (write_header out tag TypEnumeration 4 @ be_bytes 4 v @ [0, 0, 0, 0])"
| "encode_ttlv_into (TtlvItem tag (Boolean v)) out =
     Inr (write_header out tag TypBoolean 8 @ [0, 0, 0, 0, 0, 0, 0] @ [if v then 1 else 0])"
| "encode_ttlv_into (TtlvItem tag (TextString s)) out =
     encode_bytes_into tag TypTextString (as_bytes s) out"
| "encode_ttlv_into (TtlvItem tag (ByteString bs)) out = encode_bytes_into tag TypByteString bs out"
| "encode_ttlv_into (TtlvItem tag (DateTime v)) out =
     Inr (write_header out tag TypDateTime 8 @ u64_be v)"
| "encode_children_into [] out = Inr out"
| "encode_children_into (child # cs) out =
     (case encode_ttlv_into child out of
        Inl e \<Rightarrow> Inl e
      | Inr out' \<Rightarrow> encode_children_into cs out')"

definition encode_ttlv :: "TtlvItem \<Rightarrow> TtlvError + bytes" where
  "encode_ttlv item = encode_ttlv_into item []"

definition encode_integer :: "u32 \<Rightarrow> u32 \<Rightarrow> TtlvError + bytes" where
  "encode_integer tag val = encode_ttlv (TtlvItem tag (Integer val))"

definition encode_text_string :: "u32 \<Rightarrow> string \<Rightarrow> TtlvError + bytes" where
  "encode_text_string tag val = encode_ttlv (TtlvItem tag (TextString val))"

definition encode_byte_string :: "u32 \<Rightarrow> bytes \<Rightarrow> TtlvError + bytes" where
  "encode_byte_string tag val = encode_ttlv (TtlvItem tag (ByteString val))"

definition encode_enumeration :: "u32 \<Rightarrow> u32 \<Rightarrow> TtlvError + bytes" where
  "encode_enumeration tag val = encode_ttlv (TtlvItem tag (Enumeration val))"

section \<open>Decoding\<close>

definition MAX_TTLV_DEPTH :: nat where
  "MAX_TTLV_DEPTH = 32"

definition MAX_TTLV_ITEMS :: nat where
  "MAX_TTLV_ITEMS = 10000"

record TtlvLimits =
  max_depth :: nat
  max_items :: nat
  max_bytes :: nat

definition limits_default :: TtlvLimits where
  "limits_default = \<lparr>max_depth = MAX_TTLV_DEPTH, max_items = MAX_TTLV_ITEMS, max_bytes = usize_max\<rparr>"

text \<open>
  \<open>DecodeCx\<close>: the limits never change, so the running total alone is passed on.
  \<open>charge\<close> adds to it with saturation.
\<close>

definition charge :: "TtlvLimits \<Rightarrow> nat \<Rightarrow> nat \<Rightarrow> TtlvError + nat" where
  "charge lim bytes_consumed n =
     (let used = min (bytes_consumed + n) usize_max in
      if used > max_bytes lim then Inl (MessageTooLarge used) else Inr used)"

text \<open>
  The arms of the leaf types: the length check, the charge, then the value.  The result
  carries the consumed length and the running total.
\<close>

definition decode_body ::
  "TtlvLimits \<Rightarrow> nat \<Rightarrow> bytes \<Rightarrow> nat \<Rightarrow> u32 \<Rightarrow> TtlvError + TtlvValue \<Rightarrow> TtlvError + TtlvItem \<times> nat \<times> nat" where
  "decode_body lim used data padded tag val =
     (if length data < 8 + padded then Inl Truncated
      else case charge lim used padded of
        Inl e \<Rightarrow> Inl e
      | Inr used' \<Rightarrow>
          (case val of
             Inl e \<Rightarrow> Inl e
           | Inr v \<Rightarrow> Inr (TtlvItem tag v, 8 + padded, used')))"

text \<open>
  The loop over the children of a structure, for the decoder \<open>dec\<close> of one nesting level
  less.  It ends whatever that decoder consumes, since the number of children is capped.
\<close>

function decode_children ::
  "(bytes \<Rightarrow> nat \<Rightarrow> TtlvError + TtlvItem \<times> nat \<times> nat) \<Rightarrow> TtlvLimits \<Rightarrow> bytes \<Rightarrow> nat \<Rightarrow> nat \<Rightarrow>
   TtlvItem list \<Rightarrow> nat \<Rightarrow> TtlvError + TtlvItem list \<times> nat" where
  "decode_children dec lim inner value_len offset children used =
     (if offset < value_len then
        if length children \<ge> max_items lim then Inl (TooManyItems (length children + 1))
        else case dec (drop offset inner) used of
            Inl e \<Rightarrow> Inl e
          | Inr (child, consumed, used') \<Rightarrow>
              decode_children dec lim inner value_len (offset + consumed) (children @ [child]) used'
      else Inr (children, used))"
  by pat_completeness auto
termination
  by (relation "measure (\<lambda>(dec, lim, inner, value_len, offset, children, used). max_items lim - length children)")
    auto

declare decode_children.simps [simp del]

text \<open>The \<open>match\<close> on the type.\<close>

definition decode_value ::
  "(bytes \<Rightarrow> nat \<Rightarrow> TtlvError + TtlvItem \<times> nat \<times> nat) \<Rightarrow> TtlvLimits \<Rightarrow> bytes \<Rightarrow> u32 \<Rightarrow> TtlvType \<Rightarrow> nat \<Rightarrow> nat \<Rightarrow>
   TtlvError + TtlvItem \<times> nat \<times> nat" where
  "decode_value dec lim data tag typ value_len used =
     (let rest = drop 8 data in
      case typ of
        TypStructure \<Rightarrow>
          if length data < 8 + value_len then Inl Truncated
          else (case decode_children dec lim (take value_len rest) value_len 0 [] used of
                  Inl e \<Rightarrow> Inl e
                | Inr (children, used') \<Rightarrow> Inr (TtlvItem tag (Structure children), 8 + value_len, used'))
      | TypInteger \<Rightarrow>
          decode_body lim used data (padded_len 4) tag (Inr (Integer (from_be_bytes (take 4 rest))))
      | TypLongInteger \<Rightarrow>
          decode_body lim used data 8 tag (Inr (LongInteger (from_be_bytes (take 8 rest))))
      | TypBigInteger \<Rightarrow>
          decode_body lim used data (padded_len value_len) tag (Inr (BigInteger (take value_len rest)))
      | TypEnumeration \<Rightarrow>
          decode_body lim used data (padded_len 4) tag (Inr (Enumeration (from_be_bytes (take 4 rest))))
      | TypBoolean \<Rightarrow> decode_body lim used data 8 tag (Inr (Boolean (rest ! 7 \<noteq> 0)))
      | TypTextString \<Rightarrow>
          decode_body lim used data (padded_len value_len) tag
            (case from_utf8 (take value_len rest) of
               None \<Rightarrow> Inl InvalidUtf8 | Some s \<Rightarrow> Inr (TextString s))
      | TypByteString \<Rightarrow>
          decode_body lim used data (padded_len value_len) tag (Inr (ByteString (take value_len rest)))
      | TypDateTime \<Rightarrow>
          decode_body lim used data 8 tag (Inr (DateTime (from_be_bytes (take 8 rest)))))"

fun decode_ttlv_inner :: "TtlvLimits \<Rightarrow> bytes \<Rightarrow> nat \<Rightarrow> nat \<Rightarrow> TtlvError + TtlvItem \<times> nat \<times> nat" where
  "decode_ttlv_inner lim data 0 used = Inl DepthExceeded"
| "decode_ttlv_inner lim data (Suc depth) used =
     (if length data < 8 then Inl Truncated
      else
        let tag = or (or (push_bit 16 (ucast (data ! 0))) (push_bit 8 (ucast (data ! 1)))) (ucast (data ! 2));
            type_byte = data ! 3;
            value_len = unat (from_be_bytes (take 4 (drop 4 data)) :: u32)
        in if value_len > MAX_TTLV_VALUE_SIZE then Inl (ValueTooLarge value_len)
           else case from_u8 type_byte of
             None \<Rightarrow> Inl (UnknownType type_byte)
           | Some typ \<Rightarrow>
             (case charge lim used 8 of
                Inl e \<Rightarrow> Inl e
              | Inr used' \<Rightarrow>
                  decode_value (\<lambda>d u. decode_ttlv_inner lim d depth u) lim data tag typ value_len used'))"

declare decode_ttlv_inner.simps(2) [simp del]

definition decode_ttlv_with_limits :: "bytes \<Rightarrow> TtlvLimits \<Rightarrow> TtlvError + TtlvItem \<times> nat" where
  "decode_ttlv_with_limits data limits =
     map_sum id (\<lambda>(item, consumed, _). (item, consumed)) (decode_ttlv_inner limits data (max_depth limits) 0)"

definition decode_ttlv :: "bytes \<Rightarrow> TtlvError + TtlvItem \<times> nat" where
  "decode_ttlv data = decode_ttlv_with_limits data limits_default"

definition decode_ttlv_bounded :: "bytes \<Rightarrow> nat \<Rightarrow> TtlvError + TtlvItem \<times> nat" where
  "decode_ttlv_bounded data depth =
     (let limits = limits_default\<lparr>max_depth := depth\<rparr>
      in map_sum id (\<lambda>(item, consumed, _). (item, consumed)) (decode_ttlv_inner limits data depth 0))"

section \<open>The encoder, compositionally\<close>

text \<open>The reference: a header with the length known, then the value or the children.\<close>

definition header :: "u32 \<Rightarrow> TtlvType \<Rightarrow> nat \<Rightarrow> bytes" where
  "header tag typ n = write_header [] tag typ (word_of_nat n)"

definition leaf_bytes :: "u32 \<Rightarrow> TtlvType \<Rightarrow> bytes \<Rightarrow> TtlvError + bytes" where
  "leaf_bytes tag typ bs =
     (if length bs > MAX_TTLV_ENCODE_SIZE then Inl (ValueTooLarge (length bs))
      else Inr (header tag typ (length bs) @ bs @ replicate (padded_len (length bs) - length bs) 0))"

fun encode_item :: "TtlvItem \<Rightarrow> TtlvError + bytes"
  and encode_items :: "TtlvItem list \<Rightarrow> TtlvError + bytes" where
  "encode_item (TtlvItem tag (Structure cs)) =
     (case encode_items cs of
        Inl e \<Rightarrow> Inl e
      | Inr body \<Rightarrow>
          if length body > MAX_TTLV_ENCODE_SIZE then Inl (ValueTooLarge (length body))
          else Inr (header tag TypStructure (length body) @ body))"
| "encode_item (TtlvItem tag (Integer v)) = Inr (header tag TypInteger 4 @ be_bytes 4 v @ [0, 0, 0, 0])"
| "encode_item (TtlvItem tag (LongInteger v)) = Inr (header tag TypLongInteger 8 @ u64_be v)"
| "encode_item (TtlvItem tag (BigInteger bs)) = leaf_bytes tag TypBigInteger bs"
| "encode_item (TtlvItem tag (Enumeration v)) = Inr (header tag TypEnumeration 4 @ be_bytes 4 v @ [0, 0, 0, 0])"
| "encode_item (TtlvItem tag (Boolean v)) =
     Inr (header tag TypBoolean 8 @ [0, 0, 0, 0, 0, 0, 0, if v then 1 else 0])"
| "encode_item (TtlvItem tag (TextString s)) = leaf_bytes tag TypTextString (as_bytes s)"
| "encode_item (TtlvItem tag (ByteString bs)) = leaf_bytes tag TypByteString bs"
| "encode_item (TtlvItem tag (DateTime v)) = Inr (header tag TypDateTime 8 @ u64_be v)"
| "encode_items [] = Inr []"
| "encode_items (i # is) =
     (case encode_item i of
        Inl e \<Rightarrow> Inl e
      | Inr bs \<Rightarrow> (case encode_items is of Inl e \<Rightarrow> Inl e | Inr bs' \<Rightarrow> Inr (bs @ bs')))"

lemma write_header_eq: "write_header out tag typ n = out @ write_header [] tag typ n"
  by (simp add: write_header_def)

lemma length_write_header [simp, codec_simps]: "length (write_header out tag typ n) = length out + 8"
  by (simp add: write_header_def)

lemma length_header [simp, codec_simps]: "length (header tag typ n) = 8"
  by (simp add: header_def)

lemma encode_bytes_into_eq:
  "encode_bytes_into tag typ bs out = map_sum id (\<lambda>b. out @ b) (leaf_bytes tag typ bs)"
  by (simp add: encode_bytes_into_def leaf_bytes_def header_def pad_to_boundary_def Let_def
      write_header_eq [of out])

text \<open>Patching the length into the placeholder gives the header with that length.\<close>

lemma backpatch:
  "copy_into (out @ write_header [] tag typ 0 @ body) (length out + 4) (len_u32_be n) =
   out @ header tag typ n @ body"
  by (simp add: copy_into_def write_header_def header_def len_u32_be_def)

lemma encode_into_eq:
  "encode_ttlv_into i out = map_sum id (\<lambda>bs. out @ bs) (encode_item i)"
  "encode_children_into cs out = map_sum id (\<lambda>bs. out @ bs) (encode_items cs)"
proof (induction i out and cs out rule: encode_ttlv_into_encode_children_into.induct)
  case (1 tag children out)
  then show ?case
    by (cases "encode_items children")
      (simp_all add: Let_def write_header_eq [of out] backpatch)
qed (simp_all add: encode_bytes_into_eq write_header_def header_def id_def split: sum.split)

lemma padded_len_ge: "n \<le> padded_len n"
  unfolding padded_len_def by presburger

lemma padded_len_mod [simp]: "padded_len n mod 8 = 0"
  by (simp add: padded_len_def)

lemma leaf_bytes_length: "leaf_bytes tag typ bs = Inr out \<Longrightarrow> length out = 8 + padded_len (length bs)"
  using padded_len_ge [of "length bs"] by (auto simp: leaf_bytes_def split: if_splits)

lemma encode_aligned:
  "encode_item i = Inr bs \<Longrightarrow> length bs mod 8 = 0"
  "encode_items cs = Inr bs \<Longrightarrow> length bs mod 8 = 0"
proof (induction i and cs arbitrary: bs and bs rule: encode_item_encode_items.induct)
qed (auto dest!: leaf_bytes_length simp: mod_add_eq [symmetric, of "8::nat"] split: sum.splits if_splits)

lemma encode_ttlv_item: "encode_ttlv item = encode_item item"
  by (simp add: encode_ttlv_def encode_into_eq sum.map_ident_strong [of _ id "\<lambda>bs. bs"])

text \<open>
  the single-pass encoder, which writes a structure's header before it knows the
  length and patches it in afterwards, produces on every item exactly the bytes, or the
  error, of the encoder that builds children first and puts a finished header before
  them; every encoding is a multiple of eight bytes long and, as a child, is simply
  appended to what was written before.
\<close>

theorem encode_single_pass:
  "encode_ttlv item = encode_item item \<and>
   encode_ttlv_into item out = map_sum id (\<lambda>bs. out @ bs) (encode_item item) \<and>
   (case encode_ttlv item of Inl e \<Rightarrow> True | Inr bs \<Rightarrow> length bs mod 8 = 0)"
  using encode_aligned(1) [of item] by (auto simp: encode_ttlv_item encode_into_eq split: sum.split)

section \<open>Decoding what was encoded\<close>

fun item_depth :: "TtlvItem \<Rightarrow> nat" and items_depth :: "TtlvItem list \<Rightarrow> nat" where
  "item_depth (TtlvItem _ (Structure cs)) = Suc (items_depth cs)"
| "item_depth (TtlvItem _ _) = 1"
| "items_depth [] = 0"
| "items_depth (i # is) = max (item_depth i) (items_depth is)"

text \<open>What the wire can carry: three-byte tags, strings that are strings, and no structure
  with more children than the limit.\<close>

fun item_ok :: "nat \<Rightarrow> TtlvItem \<Rightarrow> bool" and items_ok :: "nat \<Rightarrow> TtlvItem list \<Rightarrow> bool" where
  "item_ok m (TtlvItem tag (Structure cs)) \<longleftrightarrow> unat tag < 2 ^ 24 \<and> length cs \<le> m \<and> items_ok m cs"
| "item_ok m (TtlvItem tag (TextString s)) \<longleftrightarrow> unat tag < 2 ^ 24 \<and> utf8_valid (as_bytes s)"
| "item_ok m (TtlvItem tag _) \<longleftrightarrow> unat tag < 2 ^ 24"
| "items_ok m [] \<longleftrightarrow> True"
| "items_ok m (i # is) \<longleftrightarrow> item_ok m i \<and> items_ok m is"

lemma low_byte: "ucast (and (w :: u32) 0xFF) = (ucast w :: u8)"
proof (rule bit_word_eqI)
  fix n assume "n < LENGTH(8)"
  moreover have ff: "(0xFF :: u32) = mask 8" by (simp add: mask_eq_exp_minus_1)
  ultimately show "bit (ucast (and w 0xFF) :: u8) n = bit (ucast w :: u8) n"
    unfolding ff by (auto simp: bit_simps)
qed

lemma tag_bytes:
  assumes "unat (tag :: u32) < 2 ^ 24"
  shows "or (or (push_bit 16 (ucast (ucast (drop_bit 16 tag) :: u8)))
    (push_bit 8 (ucast (ucast (drop_bit 8 tag) :: u8)))) (ucast (ucast tag :: u8)) = tag"
proof -
  have "unat (take_bit 24 tag) = unat tag"
    using assms by (simp add: unsigned_take_bit_eq take_bit_nat_eq_self)
  then have "take_bit 24 tag = tag" by (simp add: word_unat_eq_iff)
  then have high: "\<not> bit tag n" if "24 \<le> n" for n using that by (metis bit_take_bit_iff not_less)
  show ?thesis
  proof (rule bit_word_eqI)
    fix n assume "n < LENGTH(32)"
    then show "bit (or (or (push_bit 16 (ucast (ucast (drop_bit 16 tag) :: u8)))
        (push_bit 8 (ucast (ucast (drop_bit 8 tag) :: u8)))) (ucast (ucast tag :: u8)) :: u32) n = bit tag n"
      using high [of n] by (cases "24 \<le> n"; cases "16 \<le> n"; cases "8 \<le> n") (auto simp: bit_simps)
  qed
qed

lemma from_u8_to_u8 [simp]: "from_u8 (to_u8 t) = Some t"
  by (cases t) (simp_all add: from_u8_def to_u8_def)

lemma to_u8_from_u8: "from_u8 b = Some t \<Longrightarrow> to_u8 t = b"
  by (auto simp: from_u8_def to_u8_def split: if_splits)

lemma value_len_header:
  "n \<le> MAX_TTLV_VALUE_SIZE \<Longrightarrow>
   unat (from_be_bytes (take 4 (drop 4 (header tag typ n @ body))) :: u32) = n"
proof -
  assume "n \<le> MAX_TTLV_VALUE_SIZE"
  moreover have "take 4 (drop 4 (header tag typ n @ body)) = len_u32_be n"
    by (simp add: header_def write_header_def len_u32_be_def)
  ultimately show ?thesis by (simp add: from_be_len_u32 unat_of_nat MAX_TTLV_VALUE_SIZE_def)
qed

lemma decode_header:
  assumes "unat tag < 2 ^ 24" and "n \<le> MAX_TTLV_VALUE_SIZE"
  shows "decode_ttlv_inner lim (header tag typ n @ body) (Suc depth) used =
    (case charge lim used 8 of
       Inl e \<Rightarrow> Inl e
     | Inr used' \<Rightarrow> decode_value (\<lambda>d u. decode_ttlv_inner lim d depth u) lim (header tag typ n @ body) tag typ n used')"
proof -
  have "(header tag typ n @ body) ! 3 = to_u8 typ"
    by (simp add: header_def write_header_def)
  moreover have "or (or (push_bit 16 (ucast ((header tag typ n @ body) ! 0)))
      (push_bit 8 (ucast ((header tag typ n @ body) ! 1)))) (ucast ((header tag typ n @ body) ! 2)) = tag"
    using tag_bytes [OF assms(1)] by (simp add: header_def write_header_def low_byte)
  ultimately show ?thesis
    using assms(2) by (simp only: decode_ttlv_inner.simps value_len_header from_u8_to_u8 Let_def option.case) simp
qed

lemma charge_within: "used + n \<le> max_bytes lim \<Longrightarrow> max_bytes lim \<le> usize_max \<Longrightarrow> charge lim used n = Inr (used + n)"
  by (simp add: charge_def Let_def min_def)

lemma from_be_be_bytes [simp]: "from_be_bytes (be_bytes 4 (v :: u32)) = v"
  by (simp add: be_bytes_def from_be_bytes_def from_le_bytes_le_bytes take_bit_word_all)

text \<open>A leaf: the decoder reads back any value that its arm reads from the encoded bytes.\<close>

lemma decode_body_Inr:
  assumes "length body = padded" and "used + padded \<le> max_bytes lim" and "max_bytes lim \<le> usize_max"
  shows "decode_body lim used (header tag typ n @ body @ rest) padded tg (Inr v) =
    Inr (TtlvItem tg v, 8 + padded, used + padded)"
  using assms by (simp add: decode_body_def charge_within)

lemma decode_leaf:
  assumes "unat tag < 2 ^ 24" and "n \<le> MAX_TTLV_VALUE_SIZE" and "length body = padded"
    and "used + 8 + padded \<le> max_bytes lim" and "max_bytes lim \<le> usize_max"
    and "\<And>u. decode_value (\<lambda>d u. decode_ttlv_inner lim d depth u) lim (header tag ty n @ body @ rest) tag ty n u =
      decode_body lim u (header tag ty n @ body @ rest) padded tag (Inr v)"
  shows "decode_ttlv_inner lim (header tag ty n @ body @ rest) (Suc depth) used =
    Inr (TtlvItem tag v, 8 + padded, used + 8 + padded)"
  using assms(3-5) by (simp add: decode_header [OF assms(1,2)] charge_within assms(6) decode_body_Inr)

lemma decode_leaf_bytes:
  assumes "leaf_bytes tag ty b = Inr bs" and "unat tag < 2 ^ 24" and "used + length bs \<le> max_bytes lim"
    and "max_bytes lim \<le> usize_max" and "0 < d"
    and "\<And>dec u. decode_value dec lim (bs @ rest) tag ty (length b) u =
      decode_body lim u (bs @ rest) (padded_len (length b)) tag
        (f (take (length b) (drop 8 (bs @ rest))))"
    and "f b = Inr v"
  shows "decode_ttlv_inner lim (bs @ rest) d used = Inr (TtlvItem tag v, length bs, used + length bs)"
proof -
  obtain depth where d: "d = Suc depth" using assms(5) by (cases d) auto
  let ?body = "b @ replicate (padded_len (length b) - length b) 0"
  have bs: "bs = header tag ty (length b) @ ?body" and n: "length b \<le> MAX_TTLV_VALUE_SIZE"
    using assms(1) by (auto simp: leaf_bytes_def MAX_TTLV_ENCODE_SIZE_def split: if_splits)
  have len: "length ?body = padded_len (length b)" using padded_len_ge [of "length b"] by simp
  then have total: "length bs = 8 + padded_len (length b)" by (simp add: bs)
  have "take (length b) (drop 8 (bs @ rest)) = b" by (simp add: bs)
  then show ?thesis
    using decode_leaf [OF assms(2) n len, of used lim depth ty rest v] assms(3,4,6,7)
      padded_len_ge [of "length b"]
    by (simp add: d bs total)
qed

lemma encode_item_nonempty: "encode_item i = Inr bs \<Longrightarrow> 8 \<le> length bs"
  by (cases i rule: item_depth.cases) (auto dest!: leaf_bytes_length split: sum.splits if_splits)

lemma decode_encoded:
  "encode_item i = Inr bs \<Longrightarrow> item_ok (max_items lim) i \<Longrightarrow> item_depth i \<le> d \<Longrightarrow>
   used + length bs \<le> max_bytes lim \<Longrightarrow> max_bytes lim \<le> usize_max \<Longrightarrow>
   decode_ttlv_inner lim (bs @ rest) d used = Inr (i, length bs, used + length bs)"
  "encode_items cs = Inr body \<Longrightarrow> items_ok (max_items lim) cs \<Longrightarrow> items_depth cs \<le> k \<Longrightarrow>
   used' + length body \<le> max_bytes lim \<Longrightarrow> max_bytes lim \<le> usize_max \<Longrightarrow>
   length acc + length cs \<le> max_items lim \<Longrightarrow>
   decode_children (\<lambda>d u. decode_ttlv_inner lim d k u) lim (pre @ body) (length pre + length body) (length pre) acc used'
     = Inr (acc @ cs, used' + length body)"
proof (induction i and cs arbitrary: bs d used rest and body k used' pre acc rule: encode_item_encode_items.induct)
  case (1 tag cs)
  obtain depth where d: "d = Suc depth" "items_depth cs \<le> depth" using 1(4) by (cases d) auto
  obtain b where b: "encode_items cs = Inr b" "length b \<le> MAX_TTLV_VALUE_SIZE"
      "bs = header tag TypStructure (length b) @ b"
    using 1(2) by (auto simp: MAX_TTLV_ENCODE_SIZE_def split: sum.splits if_splits)
  have "decode_children (\<lambda>d u. decode_ttlv_inner lim d depth u) lim b (length b) 0 [] (used + 8) =
      Inr (cs, used + 8 + length b)"
    using 1(1) [of b depth "used + 8" "[]" "[]"] b 1(3,5,6) d by simp
  then show ?case
    using 1(3,5,6) b by (simp add: d decode_header charge_within decode_value_def)
next
  case (2 tag v)
  then obtain depth where "d = Suc depth" by (cases d) auto
  with 2 show ?case
    using decode_leaf [where n = 4 and padded = 8 and v = "Integer v" and ty = TypInteger and tag = tag
        and body = "be_bytes 4 v @ [0, 0, 0, 0]" and depth = depth and used = used and lim = lim and rest = rest]
    by (auto simp: MAX_TTLV_VALUE_SIZE_def decode_value_def padded_len_def add.commute)
next
  case (3 tag v)
  then obtain depth where "d = Suc depth" by (cases d) auto
  with 3 show ?case
    using decode_leaf [where n = 8 and padded = 8 and v = "LongInteger v" and ty = TypLongInteger and tag = tag
        and body = "u64_be v" and depth = depth and used = used and lim = lim and rest = rest]
    by (auto simp: MAX_TTLV_VALUE_SIZE_def decode_value_def add.commute)
next
  case (4 tag b)
  then show ?case
    using decode_leaf_bytes [where b = b and f = "\<lambda>x. Inr (BigInteger x)" and ty = TypBigInteger and tag = tag
        and rest = rest and used = used and d = d and lim = lim and bs = bs]
    by (simp add: decode_value_def)
next
  case (5 tag v)
  then obtain depth where "d = Suc depth" by (cases d) auto
  with 5 show ?case
    using decode_leaf [where n = 4 and padded = 8 and v = "Enumeration v" and ty = TypEnumeration and tag = tag
        and body = "be_bytes 4 v @ [0, 0, 0, 0]" and depth = depth and used = used and lim = lim and rest = rest]
    by (auto simp: MAX_TTLV_VALUE_SIZE_def decode_value_def padded_len_def add.commute)
next
  case (6 tag v)
  then obtain depth where "d = Suc depth" by (cases d) auto
  with 6 show ?case
    using decode_leaf [where n = 8 and padded = 8 and v = "Boolean v" and ty = TypBoolean and tag = tag
        and body = "[0, 0, 0, 0, 0, 0, 0, if v then 1 else 0]" and depth = depth and used = used and lim = lim
        and rest = rest]
    by (auto simp: MAX_TTLV_VALUE_SIZE_def decode_value_def add.commute)
next
  case (7 tag s)
  then show ?case
    using decode_leaf_bytes [where b = "as_bytes s" and ty = TypTextString and tag = tag and v = "TextString s"
        and f = "\<lambda>x. case from_utf8 x of None \<Rightarrow> Inl InvalidUtf8 | Some s \<Rightarrow> Inr (TextString s)"
        and rest = rest and used = used and d = d and lim = lim and bs = bs]
    by (simp add: decode_value_def from_utf8_as_bytes)
next
  case (8 tag b)
  then show ?case
    using decode_leaf_bytes [where b = b and f = "\<lambda>x. Inr (ByteString x)" and ty = TypByteString and tag = tag
        and rest = rest and used = used and d = d and lim = lim and bs = bs]
    by (simp add: decode_value_def)
next
  case (9 tag v)
  then obtain depth where "d = Suc depth" by (cases d) auto
  with 9 show ?case
    using decode_leaf [where n = 8 and padded = 8 and v = "DateTime v" and ty = TypDateTime and tag = tag
        and body = "u64_be v" and depth = depth and used = used and lim = lim and rest = rest]
    by (auto simp: MAX_TTLV_VALUE_SIZE_def decode_value_def add.commute)
next
  case 10
  then show ?case by (simp add: decode_children.simps)
next
  case (11 i "is")
  then obtain b1 b2 where b: "encode_item i = Inr b1" "encode_items is = Inr b2" "body = b1 @ b2"
    by (auto split: sum.splits)
  have one: "decode_ttlv_inner lim (b1 @ b2) k used' = Inr (i, length b1, used' + length b1)"
    using 11(1) [OF b(1)] 11(4-7) b(3) by simp
  have more: "decode_children (\<lambda>d u. decode_ttlv_inner lim d k u) lim ((pre @ b1) @ b2)
      (length (pre @ b1) + length b2) (length (pre @ b1)) (acc @ [i]) (used' + length b1) =
      Inr ((acc @ [i]) @ is, used' + length b1 + length b2)"
    using 11(2) [OF b(1,2), of k "used' + length b1" "acc @ [i]" "pre @ b1"] 11(4-8) b(3) by simp
  show ?case
    using encode_item_nonempty [OF b(1)] one more 11(8)
    by (subst decode_children.simps) (auto simp: b(3) add.assoc)
qed

section \<open>What the decoder accepts\<close>

lemma tag_small:
  "unat (or (or (push_bit 16 (ucast (a :: u8))) (push_bit 8 (ucast (b :: u8)))) (ucast (c :: u8)) :: u32) < 2 ^ 24"
proof -
  let ?t = "or (or (push_bit 16 (ucast a)) (push_bit 8 (ucast b))) (ucast c) :: u32"
  have "take_bit 24 ?t = ?t"
  proof (rule bit_word_eqI)
    fix n assume "n < LENGTH(32)"
    have "\<not> bit a (n - 16)" "\<not> bit b (n - 8)" "\<not> bit c n" if "24 \<le> n"
      using that by (auto dest: bit_imp_le_length)
    then show "bit (take_bit 24 ?t) n = bit ?t n" by (cases "24 \<le> n") (auto simp: bit_simps)
  qed
  then have "unat ?t = take_bit 24 (unat ?t)" using unsigned_take_bit_eq [of 24 ?t] by simp
  then show ?thesis using take_bit_nat_less_exp [of 24 "unat ?t"] by simp
qed

lemma encode_items_append:
  "encode_items xs = Inr a \<Longrightarrow> encode_items ys = Inr b \<Longrightarrow> encode_items (xs @ ys) = Inr (a @ b)"
  by (induction xs arbitrary: a) (auto split: sum.splits)

lemma items_append [simp]:
  "items_ok m (xs @ ys) \<longleftrightarrow> items_ok m xs \<and> items_ok m ys"
  "items_depth (xs @ ys) = max (items_depth xs) (items_depth ys)"
  by (induction xs) auto

lemma charge_Inr: "charge lim used n = Inr u \<Longrightarrow> u \<le> max_bytes lim \<and> u = min (used + n) usize_max"
  by (auto simp: charge_def Let_def split: if_splits)

text \<open>An accepted item, against the limits and against the encoder.\<close>

definition accepted :: "TtlvLimits \<Rightarrow> nat \<Rightarrow> bytes \<Rightarrow> nat \<Rightarrow> TtlvItem \<Rightarrow> nat \<Rightarrow> nat \<Rightarrow> bool" where
  "accepted lim d data used i n used' \<longleftrightarrow>
     8 \<le> n \<and> n \<le> length data \<and> item_depth i \<le> d \<and> item_ok (max_items lim) i \<and>
     used' \<le> max_bytes lim \<and> used' = min (used + n) usize_max \<and>
     (\<exists>bs. encode_item i = Inr bs \<and> length bs = n)"

lemma accepted_children:
  assumes "decode_children dec lim inner vl off acc used = Inr (cs, used')"
    and "\<And>data u i n u'. dec data u = Inr (i, n, u') \<Longrightarrow> accepted lim k data u i n u'"
    and "vl = length inner" and "off \<le> vl" and "used \<le> max_bytes lim" and "length acc \<le> max_items lim"
    and "items_ok (max_items lim) acc" and "items_depth acc \<le> k"
    and "\<exists>b. encode_items acc = Inr b \<and> length b = off" and "used = min (start + off) usize_max"
  shows "items_ok (max_items lim) cs \<and> items_depth cs \<le> k \<and> length cs \<le> max_items lim \<and>
    used' \<le> max_bytes lim \<and> used' = min (start + vl) usize_max \<and> (\<exists>b. encode_items cs = Inr b \<and> length b = vl)"
  using assms
proof (induction dec lim inner vl off acc used rule: decode_children.induct)
  case (1 dec lim inner vl off acc used)
  show ?case
  proof (cases "off < vl")
    case False
    then have "cs = acc" "used' = used" using 1(2) by (simp_all add: decode_children.simps [of dec lim inner vl off])
    then show ?thesis using 1(5-11) False by auto
  next
    case True
    then obtain i n u where d: "dec (drop off inner) used = Inr (i, n, u)" "length acc < max_items lim"
        "decode_children dec lim inner vl (off + n) (acc @ [i]) u = Inr (cs, used')"
      using 1(2) by (auto simp: decode_children.simps [of dec lim inner vl off] split: if_splits sum.splits)
    have acc: "accepted lim k (drop off inner) used i n u" by (rule 1(3) [OF d(1)])
    obtain b b' where b: "encode_items acc = Inr b" "length b = off" "encode_item i = Inr b'" "length b' = n"
      using 1(10) acc by (auto simp: accepted_def)
    have "\<exists>b. encode_items (acc @ [i]) = Inr b \<and> length b = off + n"
      using encode_items_append [OF b(1), of "[i]" b'] b by simp
    moreover have "u = min (start + (off + n)) usize_max" using acc 1(11) by (simp add: accepted_def)
    moreover have "off + n \<le> vl" using acc 1(4,5) by (auto simp: accepted_def)
    moreover have "\<not> max_items lim \<le> length acc" "length (acc @ [i]) \<le> max_items lim" using d(2) by auto
    moreover have "items_ok (max_items lim) (acc @ [i])" "items_depth (acc @ [i]) \<le> k" "u \<le> max_bytes lim"
      using acc 1(8,9) by (auto simp: accepted_def)
    ultimately show ?thesis using 1(1) [OF True _ d(1) refl refl d(3) 1(3,4)] by blast
  qed
qed

lemma decode_body_accepted:
  assumes "decode_body lim used data padded tag val = Inr (i, n, used')"
  obtains v where "val = Inr v" "i = TtlvItem tag v" "n = 8 + padded" "8 + padded \<le> length data"
    "used' \<le> max_bytes lim" "used' = min (used + padded) usize_max"
  using assms by (auto simp: decode_body_def dest!: charge_Inr split: if_splits sum.splits)

lemma leaf_bytes_ok:
  "length b \<le> MAX_TTLV_VALUE_SIZE \<Longrightarrow> \<exists>bs. leaf_bytes tag ty b = Inr bs \<and> length bs = 8 + padded_len (length b)"
  using padded_len_ge [of "length b"] by (simp add: leaf_bytes_def MAX_TTLV_ENCODE_SIZE_def)

lemma accepted_leaf:
  assumes "decode_body lim (min (used + 8) usize_max) data padded tag val = Inr (i, n, used')"
    and "\<And>v. val = Inr v \<Longrightarrow> 8 + padded \<le> length data \<Longrightarrow> item_depth (TtlvItem tag v) = 1 \<and>
      item_ok (max_items lim) (TtlvItem tag v) \<and>
      (\<exists>bs. encode_item (TtlvItem tag v) = Inr bs \<and> length bs = 8 + padded)"
  shows "accepted lim (Suc k) data used i n used'"
proof -
  obtain v where v: "val = Inr v" "i = TtlvItem tag v" "n = 8 + padded" "8 + padded \<le> length data"
      "used' \<le> max_bytes lim" "used' = min (min (used + 8) usize_max + padded) usize_max"
    by (rule decode_body_accepted [OF assms(1)])
  then show ?thesis using assms(2) [OF v(1,4)] by (simp add: accepted_def)
qed

text \<open>The value of a leaf type, as its arm reads it, is one the encoder takes.\<close>

definition leaf_ok :: "TtlvLimits \<Rightarrow> u32 \<Rightarrow> bytes \<Rightarrow> nat \<Rightarrow> TtlvError + TtlvValue \<Rightarrow> bool" where
  "leaf_ok lim tag data padded val \<longleftrightarrow> (\<forall>v. val = Inr v \<longrightarrow> 8 + padded \<le> length data \<longrightarrow>
      item_depth (TtlvItem tag v) = 1 \<and> item_ok (max_items lim) (TtlvItem tag v) \<and>
      (\<exists>bs. encode_item (TtlvItem tag v) = Inr bs \<and> length bs = 8 + padded))"

lemma leaf_ok_bytes:
  assumes "vl \<le> MAX_TTLV_VALUE_SIZE" and "8 + padded_len vl \<le> length data"
  shows "\<exists>bs. leaf_bytes tag ty (take vl (drop 8 data)) = Inr bs \<and> length bs = 8 + padded_len vl"
proof -
  have "length (take vl (drop 8 data)) = vl" using assms(2) padded_len_ge [of vl] by simp
  then show ?thesis using leaf_bytes_ok [of "take vl (drop 8 data)" tag ty] assms(1) by simp
qed

lemma leaf_ok_text:
  assumes "vl \<le> MAX_TTLV_VALUE_SIZE" and "8 + padded_len vl \<le> length data"
    and "from_utf8 (take vl (drop 8 data)) = Some s"
  shows "utf8_valid (as_bytes s) \<and>
    (\<exists>bs. leaf_bytes tag ty (as_bytes s) = Inr bs \<and> length bs = 8 + padded_len vl)"
  using from_utf8_Some [OF assms(3)] leaf_ok_bytes [OF assms(1,2), of tag ty] by simp

lemma decode_value_leaf:
  assumes "ty \<noteq> TypStructure" and "unat tag < 2 ^ 24" and "vl \<le> MAX_TTLV_VALUE_SIZE"
  shows "\<exists>padded val. decode_value dec lim data tag ty vl used = decode_body lim used data padded tag val \<and>
    leaf_ok lim tag data padded val"
proof -
  note four = padded_len_def [of 4] and leaf = leaf_ok_bytes [OF assms(3)] and str = leaf_ok_text [OF assms(3)]
  show ?thesis
  proof (cases ty)
    case TypInteger
    then have "decode_value dec lim data tag ty vl used = decode_body lim used data (padded_len 4) tag (Inr (Integer (from_be_bytes (take 4 (drop 8 data)))))"
      by (simp add: decode_value_def)
    moreover have "leaf_ok lim tag data (padded_len 4) (Inr (Integer (from_be_bytes (take 4 (drop 8 data)))))"
      using assms(2) by (auto simp: leaf_ok_def four split: option.splits)
    ultimately show ?thesis by blast
  next
    case TypLongInteger
    then have "decode_value dec lim data tag ty vl used = decode_body lim used data (8) tag (Inr (LongInteger (from_be_bytes (take 8 (drop 8 data)))))"
      by (simp add: decode_value_def)
    moreover have "leaf_ok lim tag data (8) (Inr (LongInteger (from_be_bytes (take 8 (drop 8 data)))))"
      using assms(2) by (auto simp: leaf_ok_def four split: option.splits)
    ultimately show ?thesis by blast
  next
    case TypBigInteger
    then have "decode_value dec lim data tag ty vl used = decode_body lim used data (padded_len vl) tag (Inr (BigInteger (take vl (drop 8 data))))"
      by (simp add: decode_value_def)
    moreover have "leaf_ok lim tag data (padded_len vl) (Inr (BigInteger (take vl (drop 8 data))))"
      using assms(2) leaf by (auto simp: leaf_ok_def four split: option.splits)
    ultimately show ?thesis by blast
  next
    case TypEnumeration
    then have "decode_value dec lim data tag ty vl used = decode_body lim used data (padded_len 4) tag (Inr (Enumeration (from_be_bytes (take 4 (drop 8 data)))))"
      by (simp add: decode_value_def)
    moreover have "leaf_ok lim tag data (padded_len 4) (Inr (Enumeration (from_be_bytes (take 4 (drop 8 data)))))"
      using assms(2) by (auto simp: leaf_ok_def four split: option.splits)
    ultimately show ?thesis by blast
  next
    case TypBoolean
    then have "decode_value dec lim data tag ty vl used = decode_body lim used data (8) tag (Inr (Boolean (drop 8 data ! 7 \<noteq> 0)))"
      by (simp add: decode_value_def)
    moreover have "leaf_ok lim tag data (8) (Inr (Boolean (drop 8 data ! 7 \<noteq> 0)))"
      using assms(2) by (auto simp: leaf_ok_def four split: option.splits)
    ultimately show ?thesis by blast
  next
    case TypTextString
    then have "decode_value dec lim data tag ty vl used = decode_body lim used data (padded_len vl) tag (case from_utf8 (take vl (drop 8 data)) of None \<Rightarrow> Inl InvalidUtf8 | Some s \<Rightarrow> Inr (TextString s))"
      by (simp add: decode_value_def)
    moreover have "leaf_ok lim tag data (padded_len vl) (case from_utf8 (take vl (drop 8 data)) of None \<Rightarrow> Inl InvalidUtf8 | Some s \<Rightarrow> Inr (TextString s))"
      using assms(2) str by (auto simp: leaf_ok_def four split: option.splits)
    ultimately show ?thesis by blast
  next
    case TypByteString
    then have "decode_value dec lim data tag ty vl used = decode_body lim used data (padded_len vl) tag (Inr (ByteString (take vl (drop 8 data))))"
      by (simp add: decode_value_def)
    moreover have "leaf_ok lim tag data (padded_len vl) (Inr (ByteString (take vl (drop 8 data))))"
      using assms(2) leaf by (auto simp: leaf_ok_def four split: option.splits)
    ultimately show ?thesis by blast
  next
    case TypDateTime
    then have "decode_value dec lim data tag ty vl used = decode_body lim used data (8) tag (Inr (DateTime (from_be_bytes (take 8 (drop 8 data)))))"
      by (simp add: decode_value_def)
    moreover have "leaf_ok lim tag data (8) (Inr (DateTime (from_be_bytes (take 8 (drop 8 data)))))"
      using assms(2) by (auto simp: leaf_ok_def four split: option.splits)
    ultimately show ?thesis by blast
  qed (use assms(1) in simp)
qed

lemma accepted_value:
  assumes "decode_value dec lim data tag ty vl (min (used + 8) usize_max) = Inr (i, n, used')"
    and "\<And>data u i n u'. dec data u = Inr (i, n, u') \<Longrightarrow> accepted lim k data u i n u'"
    and "vl \<le> MAX_TTLV_VALUE_SIZE" and "unat tag < 2 ^ 24" and "min (used + 8) usize_max \<le> max_bytes lim"
  shows "accepted lim (Suc k) data used i n used'"
proof (cases "ty = TypStructure")
  case True
  then obtain cs where cs: "decode_children dec lim (take vl (drop 8 data)) vl 0 [] (min (used + 8) usize_max) = Inr (cs, used')"
      "i = TtlvItem tag (Structure cs)" "n = 8 + vl" "8 + vl \<le> length data"
    using assms(1) by (auto simp: decode_value_def not_less split: if_splits sum.splits)
  have "items_ok (max_items lim) cs \<and> items_depth cs \<le> k \<and> length cs \<le> max_items lim \<and>
      used' \<le> max_bytes lim \<and> used' = min (used + 8 + vl) usize_max \<and> (\<exists>b. encode_items cs = Inr b \<and> length b = vl)"
    by (rule accepted_children [OF cs(1) assms(2)]) (use cs(4) assms(5) in auto)
  then show ?thesis
    using cs(2-4) assms(3,4) by (auto simp: accepted_def MAX_TTLV_ENCODE_SIZE_def add.assoc)
next
  case False
  obtain padded val where
      dv: "decode_value dec lim data tag ty vl (min (used + 8) usize_max) =
        decode_body lim (min (used + 8) usize_max) data padded tag val"
      and ok: "leaf_ok lim tag data padded val"
    using decode_value_leaf [OF False assms(4,3)] by blast
  show ?thesis
    by (rule accepted_leaf [where padded = padded and val = val and tag = tag])
      (use assms(1) dv ok in \<open>simp_all add: leaf_ok_def\<close>)
qed

lemma decode_inner_Inr:
  assumes "decode_ttlv_inner lim data (Suc d) used = Inr (i, n, used')"
  shows "\<exists>tag ty vl. decode_value (\<lambda>x u. decode_ttlv_inner lim x d u) lim data tag ty vl (min (used + 8) usize_max) =
      Inr (i, n, used') \<and> vl \<le> MAX_TTLV_VALUE_SIZE \<and> unat tag < 2 ^ 24 \<and> min (used + 8) usize_max \<le> max_bytes lim"
proof -
  let ?tag = "or (or (push_bit 16 (ucast (data ! 0))) (push_bit 8 (ucast (data ! 1)))) (ucast (data ! 2)) :: u32"
  let ?vl = "unat (from_be_bytes (take 4 (drop 4 data)) :: u32)"
  have "length data \<ge> 8" "?vl \<le> MAX_TTLV_VALUE_SIZE"
    using assms by (simp_all add: decode_ttlv_inner.simps(2) Let_def split: if_splits)
  moreover obtain ty where "from_u8 (data ! 3) = Some ty"
    using assms by (auto simp: decode_ttlv_inner.simps(2) Let_def split: if_splits option.splits)
  moreover obtain u where "charge lim used 8 = Inr u"
    using assms by (auto simp: decode_ttlv_inner.simps(2) Let_def split: if_splits option.splits sum.splits)
  ultimately have "decode_value (\<lambda>x u. decode_ttlv_inner lim x d u) lim data ?tag ty ?vl u = Inr (i, n, used')"
      and "u \<le> max_bytes lim" "u = min (used + 8) usize_max"
    using assms charge_Inr [of lim used 8 u] by (simp_all add: decode_ttlv_inner.simps(2))
  then show ?thesis
    using \<open>?vl \<le> MAX_TTLV_VALUE_SIZE\<close> by (intro exI [of _ ?tag] exI [of _ ty] exI [of _ ?vl] conjI tag_small) simp_all
qed

lemma accepted_inner: "decode_ttlv_inner lim data d used = Inr (i, n, used') \<Longrightarrow> accepted lim d data used i n used'"
proof (induction d arbitrary: data used i n used')
  case (Suc d)
  obtain tag ty vl where
      "decode_value (\<lambda>x u. decode_ttlv_inner lim x d u) lim data tag ty vl (min (used + 8) usize_max) = Inr (i, n, used')"
      "vl \<le> MAX_TTLV_VALUE_SIZE" "unat tag < 2 ^ 24" "min (used + 8) usize_max \<le> max_bytes lim"
    using decode_inner_Inr [OF Suc.prems] by blast
  note step = this
  show ?case by (rule accepted_value [OF step(1) Suc.IH step(2-4)])
qed simp

section \<open>The codec\<close>

text \<open>
  C20: encoded items decode to themselves.  Whatever follows on the wire, the decoder
  returns the item that was encoded and the number of bytes of its encoding, provided the
  item is nested no deeper and has no more children per structure than the decoder's
  limits, its tags fit their three bytes and its bytes fit the budget.
\<close>

theorem ttlv_roundtrip:
  assumes "encode_ttlv item = Inr bs" and "item_ok (max_items lim) item" and "item_depth item \<le> max_depth lim"
    and "length bs \<le> max_bytes lim" and "max_bytes lim \<le> usize_max"
  shows "decode_ttlv_with_limits (bs @ rest) lim = Inr (item, length bs)"
  using decode_encoded(1) [of item bs lim "max_depth lim" 0 rest] assms
  by (simp add: decode_ttlv_with_limits_def encode_ttlv_item)

definition example_item :: TtlvItem where
  "example_item = TtlvItem 0x420078 (Structure
     [TtlvItem 0x420069 (Integer 2), TtlvItem 0x42000B (TextString ''hsm''),
      TtlvItem 0x420094 (Structure [TtlvItem 0x420008 (Boolean True)])])"

definition example_bytes :: bytes where
  "example_bytes = (case encode_ttlv example_item of Inr bs \<Rightarrow> bs | Inl _ \<Rightarrow> [])"

lemma example_encodes: "encode_ttlv example_item = Inr example_bytes" "length example_bytes = 64"
  by (simp_all add: example_bytes_def example_item_def encode_ttlv_def Let_def write_header_def encode_bytes_into_def
      pad_to_boundary_def padded_len_def copy_into_def MAX_TTLV_ENCODE_SIZE_def MAX_TTLV_VALUE_SIZE_def)

lemma example_item_ok: "item_ok 10000 example_item" "item_depth example_item = 3"
  by (simp_all add: example_item_def as_bytes_def)

theorem ttlv_roundtrip_witness:
  "decode_ttlv_with_limits (example_bytes @ [1, 2, 3]) limits_default = Inr (example_item, 64)"
  using ttlv_roundtrip [OF example_encodes(1), of limits_default "[1, 2, 3]"] example_item_ok
  by (simp add: example_encodes(2) limits_default_def MAX_TTLV_DEPTH_def MAX_TTLV_ITEMS_def usize_max_def)

text \<open>
  C21: what the decoder accepts.  An accepted item lies in the input, is nested no deeper
  and has no more children per structure than the limits allow, carries well-formed text
  only, and its size is within the byte budget.  The encoder takes it back: it never
  refuses an accepted item, its encoding is as long as what was consumed, and that
  encoding decodes to the same item.
\<close>

theorem decoded_items_reencode:
  assumes "decode_ttlv_with_limits data lim = Inr (item, n)" and "max_bytes lim \<le> usize_max"
    and "length data \<le> usize_max"
  shows "8 \<le> n \<and> n \<le> length data \<and> n \<le> max_bytes lim \<and>
    item_depth item \<le> max_depth lim \<and> item_ok (max_items lim) item \<and>
    (\<exists>bs. encode_ttlv item = Inr bs \<and> length bs = n \<and> decode_ttlv_with_limits bs lim = Inr (item, n))"
proof -
  obtain u where "decode_ttlv_inner lim data (max_depth lim) 0 = Inr (item, n, u)"
    using assms(1) by (cases "decode_ttlv_inner lim data (max_depth lim) 0") (auto simp: decode_ttlv_with_limits_def)
  then have acc: "accepted lim (max_depth lim) data 0 item n u" by (rule accepted_inner)
  then obtain bs where bs: "encode_item item = Inr bs" "length bs = n" by (auto simp: accepted_def)
  have n: "n \<le> max_bytes lim" using acc assms(3) by (auto simp: accepted_def)
  have "decode_ttlv_inner lim (bs @ []) (max_depth lim) 0 = Inr (item, length bs, 0 + length bs)"
    by (rule decode_encoded(1)) (use acc bs n assms(2) in \<open>auto simp: accepted_def\<close>)
  then show ?thesis
    using acc bs n encode_ttlv_item [of item] by (simp add: accepted_def decode_ttlv_with_limits_def)
qed

definition odd_bytes :: bytes where
  "odd_bytes = [0x42, 0, 1, 2, 0, 0, 0, 9, 0, 0, 0, 5, 1, 1, 1, 1, 7]"

theorem decoded_items_reencode_witness:
  "decode_ttlv_with_limits odd_bytes limits_default = Inr (TtlvItem 0x420001 (Integer 5), 16) \<and>
   (\<exists>bs. encode_ttlv (TtlvItem 0x420001 (Integer 5)) = Inr bs \<and> length bs = 16 \<and>
      decode_ttlv_with_limits bs limits_default = Inr (TtlvItem 0x420001 (Integer 5), 16))"
proof -
  have lim: "max_depth limits_default = Suc 31" "max_bytes limits_default = usize_max"
    by (simp_all add: limits_default_def MAX_TTLV_DEPTH_def)
  have "decode_ttlv_inner limits_default odd_bytes (Suc k) 0 = Inr (TtlvItem 0x420001 (Integer 5), 16, 16)" for k
    by (simp add: decode_ttlv_inner.simps(2) odd_bytes_def from_be_bytes_def from_u8_def charge_def lim
        decode_value_def decode_body_def padded_len_def MAX_TTLV_VALUE_SIZE_def usize_max_def)
  then have "decode_ttlv_with_limits odd_bytes limits_default = Inr (TtlvItem 0x420001 (Integer 5), 16)"
    by (simp only: decode_ttlv_with_limits_def lim) simp
  then show ?thesis
    using decoded_items_reencode [of odd_bytes limits_default "TtlvItem 0x420001 (Integer 5)" 16]
    by (simp add: limits_default_def usize_max_def odd_bytes_def)
qed

section \<open>Two gaps\<close>

text \<open>
  The decoder's nesting limit has no counterpart in the encoder: an item nested as deep as
  the limit is encoded and then refused.
\<close>

fun nested :: "nat \<Rightarrow> TtlvItem" where
  "nested 0 = TtlvItem 1 (Integer 0)"
| "nested (Suc k) = TtlvItem 1 (Structure [nested k])"

lemma nested_encodes:
  "8 * k + 16 \<le> MAX_TTLV_VALUE_SIZE \<Longrightarrow> \<exists>bs. encode_item (nested k) = Inr bs \<and> length bs = 8 * k + 16"
  by (induction k) (auto simp: MAX_TTLV_ENCODE_SIZE_def)

lemma nested_refused:
  assumes "encode_item (nested k) = Inr bs" and "8 * k + 16 \<le> MAX_TTLV_VALUE_SIZE" and "d \<le> k"
    and "used + 8 * d \<le> max_bytes lim" and "max_bytes lim \<le> usize_max" and "0 < max_items lim"
  shows "decode_ttlv_inner lim bs d used = Inl DepthExceeded"
  using assms
proof (induction k arbitrary: bs d used)
  case (Suc k)
  obtain b where b: "encode_item (nested k) = Inr b" "length b = 8 * k + 16"
    using nested_encodes [of k] Suc.prems(2) by auto
  then have bs: "bs = header 1 TypStructure (length b) @ b" using Suc.prems(1) by (simp split: if_splits)
  show ?case
  proof (cases d)
    case (Suc d')
    have "decode_ttlv_inner lim b d' (used + 8) = Inl DepthExceeded"
      by (rule Suc.IH [OF b(1)]) (use Suc Suc.prems in auto)
    then show ?thesis
      using Suc.prems b(2) by (simp add: bs Suc decode_header charge_within decode_value_def decode_children.simps)
  qed simp
qed simp

theorem deep_items_encode_but_do_not_decode:
  "\<exists>bs. encode_ttlv (nested MAX_TTLV_DEPTH) = Inr bs \<and> decode_ttlv bs = Inl DepthExceeded"
proof -
  obtain bs where bs: "encode_item (nested 32) = Inr bs"
    using nested_encodes [of 32] by (auto simp: MAX_TTLV_VALUE_SIZE_def)
  moreover have "decode_ttlv_inner limits_default bs 32 0 = Inl DepthExceeded"
    by (rule nested_refused [OF bs])
      (simp_all add: limits_default_def MAX_TTLV_VALUE_SIZE_def MAX_TTLV_ITEMS_def usize_max_def)
  ultimately show ?thesis
    using encode_ttlv_item [of "nested 32"]
    by (simp add: MAX_TTLV_DEPTH_def decode_ttlv_def decode_ttlv_with_limits_def limits_default_def del: nested.simps)
qed

text \<open>
  The declared length of a fixed-size value is not looked at, so the error documented for
  it never occurs.
\<close>

lemma children_error:
  assumes "\<And>x u. dec x u \<noteq> Inl e" and "\<forall>n. e \<noteq> TooManyItems n"
  shows "decode_children dec lim inner vl off acc used \<noteq> Inl e"
  using assms
  by (induction dec lim inner vl off acc used rule: decode_children.induct)
    (subst decode_children.simps, auto split: sum.split)

theorem invalid_length_never_reported: "decode_ttlv_inner lim data d used \<noteq> Inl InvalidLength"
proof (induction d arbitrary: data used)
  case (Suc d)
  have "decode_body lim u data p tag val \<noteq> Inl InvalidLength" if "val \<noteq> Inl InvalidLength" for u p tag val
    using that by (auto simp: decode_body_def charge_def Let_def split: sum.splits if_splits)
  moreover have "decode_children (\<lambda>x u. decode_ttlv_inner lim x d u) lim inner vl off acc u \<noteq> Inl InvalidLength"
    for inner vl off acc u
    by (rule children_error) (use Suc.IH in auto)
  ultimately show ?case
    by (auto simp: decode_ttlv_inner.simps(2) decode_value_def charge_def Let_def
        split: if_splits option.splits TtlvType.splits sum.splits)
qed simp

end
