(* ===== verification/Fips_Fsm.thy ===== *)
theory Fips_Fsm
  imports HSM_Prelude "HOL-Library.Multiset"
begin

text \<open>
  The finite state model of the certified module, \<open>craton-hsm-certified/src/fsm.rs\<close>: the
  transition table, its validation, and the runtime machine that threads drive through an
  atomic state byte.  Validation is shown to decide the stated conditions, reachability
  included; the runtime machine is a step relation over the atomic operations of its
  methods, so that what is shown holds for every interleaving.
\<close>

section \<open>States and transitions\<close>

datatype ModuleState =
  PowerOff | PowerOn | SelfTest | CryptoOfficerMode | UserMode | ErrorState | Zeroization

instantiation ModuleState :: finite
begin

instance
proof
  have "(UNIV :: ModuleState set) =
      {PowerOff, PowerOn, SelfTest, CryptoOfficerMode, UserMode, ErrorState, Zeroization}"
    by (auto intro: ModuleState.exhaust)
  then show "finite (UNIV :: ModuleState set)" by (metis finite.emptyI finite_insert)
qed

end

definition all_states :: "ModuleState list" where
  "all_states = [PowerOff, PowerOn, SelfTest, CryptoOfficerMode, UserMode, ErrorState, Zeroization]"

record FsmTransition =
  tr_from :: ModuleState
  tr_to :: ModuleState
  tr_event :: string
  tr_guard :: "string option"

record FsmModel =
  transitions :: "FsmTransition list"
  initial_state :: ModuleState

datatype FsmTransitionError =
    NoSuchTransition ModuleState string
  | GuardFailed ModuleState ModuleState string string

definition next_state :: "FsmModel \<Rightarrow> ModuleState \<Rightarrow> string \<Rightarrow> ModuleState option" where
  "next_state m current event =
     map_option tr_to (find (\<lambda>t. tr_from t = current \<and> tr_event t = event) (transitions m))"

text \<open>The guard predicate is called at most once, on the name of the guard.\<close>

definition transition ::
  "FsmModel \<Rightarrow> ModuleState \<Rightarrow> string \<Rightarrow> (string \<Rightarrow> bool) \<Rightarrow> FsmTransitionError + ModuleState" where
  "transition m current event guard_eval =
     (case find (\<lambda>t. tr_from t = current \<and> tr_event t = event) (transitions m) of
        None \<Rightarrow> Inl (NoSuchTransition current event)
      | Some t \<Rightarrow>
          (case tr_guard t of
             Some guard \<Rightarrow>
               if \<not> guard_eval guard then Inl (GuardFailed current (tr_to t) event guard)
               else Inr (tr_to t)
           | None \<Rightarrow> Inr (tr_to t)))"

definition fsm_transition :: "ModuleState \<Rightarrow> ModuleState \<Rightarrow> string \<Rightarrow> string option \<Rightarrow> FsmTransition" where
  "fsm_transition s s' ev g = \<lparr>tr_from = s, tr_to = s', tr_event = ev, tr_guard = g\<rparr>"

definition default_fips_fsm :: FsmModel where
  "default_fips_fsm =
     \<lparr>transitions =
        [fsm_transition PowerOff PowerOn ''power_on'' None,
         fsm_transition PowerOn SelfTest ''run_self_tests'' None,
         fsm_transition SelfTest CryptoOfficerMode ''self_tests_passed'' (Some ''all_kats_pass''),
         fsm_transition SelfTest ErrorState ''self_tests_failed'' None,
         fsm_transition CryptoOfficerMode UserMode ''authenticate_user'' (Some ''valid_credentials''),
         fsm_transition UserMode CryptoOfficerMode ''authenticate_co'' (Some ''valid_co_credentials''),
         fsm_transition CryptoOfficerMode Zeroization ''zeroize'' None,
         fsm_transition UserMode Zeroization ''zeroize'' None,
         fsm_transition CryptoOfficerMode ErrorState ''runtime_error'' None,
         fsm_transition UserMode ErrorState ''runtime_error'' None,
         fsm_transition ErrorState Zeroization ''zeroize'' None,
         fsm_transition ErrorState PowerOff ''power_off'' None,
         fsm_transition Zeroization PowerOff ''zeroization_complete'' None],
      initial_state = PowerOff\<rparr>"

section \<open>Validation\<close>

text \<open>The messages of the source, as data.\<close>

datatype Violation =
    NotReachable ModuleState ModuleState
  | DeadState ModuleState
  | NoSelfTest
  | BypassesSelfTest ModuleState
  | BadErrorExit ModuleState
  | DirectPowerOff ModuleState
  | DuplicateTransition ModuleState string

definition adjacency :: "FsmModel \<Rightarrow> ModuleState \<Rightarrow> ModuleState list" where
  "adjacency m s = map tr_to (filter (\<lambda>t. tr_from t = s) (transitions m))"

text \<open>
  The depth-first search.  The array of flags is the set of states whose flag is up; the
  stack is popped at its head.  Every state is pushed at most once, so the search ends.
\<close>

fun visit_all :: "ModuleState list \<Rightarrow> ModuleState set \<Rightarrow> ModuleState list \<Rightarrow> ModuleState set \<times> ModuleState list" where
  "visit_all [] visited stack = (visited, stack)"
| "visit_all (n # ns) visited stack =
     (if n \<notin> visited then visit_all ns (insert n visited) (n # stack) else visit_all ns visited stack)"

lemma visit_all_measure:
  "2 * card (- fst (visit_all ns V S)) + length (snd (visit_all ns V S)) \<le> 2 * card (- V) + length S"
proof (induction ns V S rule: visit_all.induct)
  case (2 n ns V S)
  have "card (- insert n V) < card (- V)" if "n \<notin> V"
    using that by (intro psubset_card_mono) auto
  with 2 show ?case by fastforce
qed simp

function dfs :: "FsmModel \<Rightarrow> ModuleState set \<Rightarrow> ModuleState list \<Rightarrow> ModuleState set" where
  "dfs m visited [] = visited"
| "dfs m visited (state # stack) =
     (case visit_all (adjacency m state) visited stack of (v, s) \<Rightarrow> dfs m v s)"
  by pat_completeness auto
termination
proof (relation "measure (\<lambda>(m, visited, stack). 2 * card (- visited) + length stack)", goal_cases)
  case (2 m visited state stack v s)
  then show ?case
    using visit_all_measure [of "adjacency m state" visited stack] by (simp add: eq_commute [of "(v, s)"])
qed simp

fun duplicates :: "(ModuleState \<times> string) set \<Rightarrow> FsmTransition list \<Rightarrow> Violation list" where
  "duplicates seen [] = []"
| "duplicates seen (t # ts) =
     (if (tr_from t, tr_event t) \<in> seen then DuplicateTransition (tr_from t) (tr_event t) # duplicates seen ts
      else duplicates (insert (tr_from t, tr_event t) seen) ts)"

definition validate_fsm_inner :: "FsmModel \<Rightarrow> Violation list" where
  "validate_fsm_inner m =
     (let visited = dfs m {initial_state m} [initial_state m];
          unreachable = map (\<lambda>s. NotReachable s (initial_state m)) (filter (\<lambda>s. s \<notin> visited) all_states);
          dead = map DeadState (filter (\<lambda>s. s \<noteq> PowerOff \<and> adjacency m s = []) all_states);
          power_on_targets = map tr_to (filter (\<lambda>t. tr_from t = PowerOn) (transitions m));
          no_self_test = (if SelfTest \<notin> set power_on_targets then [NoSelfTest] else []);
          bypass = map BypassesSelfTest (filter (\<lambda>s. s \<noteq> SelfTest) power_on_targets);
          error_exit = map (\<lambda>t. BadErrorExit (tr_to t))
            (filter (\<lambda>t. tr_from t = ErrorState \<and> tr_to t \<noteq> Zeroization \<and> tr_to t \<noteq> PowerOff) (transitions m));
          direct = map (\<lambda>t. DirectPowerOff (tr_from t))
            (filter (\<lambda>t. (tr_from t = CryptoOfficerMode \<or> tr_from t = UserMode) \<and> tr_to t = PowerOff)
               (transitions m))
      in unreachable @ dead @ no_self_test @ bypass @ error_exit @ direct @ duplicates {} (transitions m))"

text \<open>The error carries the violations; the source sorts their texts.\<close>

datatype CertError = InvalidConfig "Violation multiset"

definition validate_fsm :: "FsmModel \<Rightarrow> CertError + unit" where
  "validate_fsm m =
     (let violations = validate_fsm_inner m in
      if violations = [] then Inr () else Inl (InvalidConfig (mset violations)))"

section \<open>Validation decides the stated conditions\<close>

definition edges :: "FsmModel \<Rightarrow> (ModuleState \<times> ModuleState) set" where
  "edges m = (\<lambda>t. (tr_from t, tr_to t)) ` set (transitions m)"

lemma edges_iff: "(a, b) \<in> edges m \<longleftrightarrow> (\<exists>t \<in> set (transitions m). tr_from t = a \<and> tr_to t = b)"
  unfolding edges_def image_iff prod.inject by blast

lemma adjacency_edges: "set (adjacency m s) = edges m `` {s}"
  by (auto simp: adjacency_def edges_def)

lemma visit_all_spec:
  "fst (visit_all ns V S) = V \<union> set ns \<and> set (snd (visit_all ns V S)) = set S \<union> (set ns - V)"
  by (induction ns V S rule: visit_all.induct) auto

text \<open>The search collects what can be reached from the states already found.\<close>

lemma dfs_spec:
  "set S \<subseteq> V \<Longrightarrow> \<forall>s \<in> V - set S. edges m `` {s} \<subseteq> V \<Longrightarrow>
   V \<subseteq> dfs m V S \<and> edges m `` dfs m V S \<subseteq> dfs m V S \<and> dfs m V S \<subseteq> (edges m)\<^sup>* `` V"
proof (induction m V S rule: dfs.induct)
  case (1 m V)
  then show ?case by auto
next
  case (2 m V s S)
  obtain V' S' where vs: "visit_all (adjacency m s) V S = (V', S')" by (rule prod.exhaust)
  have V': "V' = V \<union> edges m `` {s}" and S': "set S' = set S \<union> (edges m `` {s} - V)"
    using visit_all_spec [of "adjacency m s" V S] by (simp_all add: vs adjacency_edges)
  have "V' \<subseteq> dfs m V' S' \<and> edges m `` dfs m V' S' \<subseteq> dfs m V' S' \<and> dfs m V' S' \<subseteq> (edges m)\<^sup>* `` V'"
  proof (rule 2(1) [OF vs [symmetric]])
    show "set S' \<subseteq> V'" using 2(2) by (auto simp: V' S')
    show "\<forall>s \<in> V' - set S'. edges m `` {s} \<subseteq> V'" using 2(2,3) unfolding V' S' by auto
  qed
  moreover have "(edges m)\<^sup>* `` V' \<subseteq> (edges m)\<^sup>* `` V"
    using 2(2) by (auto simp: V' intro: converse_rtrancl_into_rtrancl)
  ultimately show ?case by (auto simp: vs V')
qed

lemma dfs_reachable: "dfs m {i} [i] = (edges m)\<^sup>* `` {i}"
proof -
  have d: "{i} \<subseteq> dfs m {i} [i]" "edges m `` dfs m {i} [i] \<subseteq> dfs m {i} [i]" "dfs m {i} [i] \<subseteq> (edges m)\<^sup>* `` {i}"
    using dfs_spec [of "[i]" "{i}" m] by auto
  have "s \<in> dfs m {i} [i]" if "(i, s) \<in> (edges m)\<^sup>*" for s
    using that by (induction rule: rtrancl_induct) (use d in blast)+
  with d(3) show ?thesis by blast
qed

lemma duplicates_Nil: "duplicates seen ts = [] \<longleftrightarrow>
    distinct (map (\<lambda>t. (tr_from t, tr_event t)) ts) \<and> seen \<inter> set (map (\<lambda>t. (tr_from t, tr_event t)) ts) = {}"
  by (induction seen ts rule: duplicates.induct) auto

lemma in_all_states [simp]: "s \<in> set all_states"
  by (cases s) (simp_all add: all_states_def)

text \<open>What the documentation of the module asks of a model.\<close>

definition fips_model :: "FsmModel \<Rightarrow> bool" where
  "fips_model m \<longleftrightarrow>
     (\<forall>s. (initial_state m, s) \<in> (edges m)\<^sup>*) \<and>
     (\<forall>s. s \<noteq> PowerOff \<longrightarrow> (\<exists>s'. (s, s') \<in> edges m)) \<and>
     edges m `` {PowerOn} = {SelfTest} \<and>
     edges m `` {ErrorState} \<subseteq> {Zeroization, PowerOff} \<and>
     (CryptoOfficerMode, PowerOff) \<notin> edges m \<and> (UserMode, PowerOff) \<notin> edges m \<and>
     distinct (map (\<lambda>t. (tr_from t, tr_event t)) (transitions m))"

text \<open>
  C22: validation decides.  A model passes exactly when every state can be reached from
  the initial one, every state but \<open>PowerOff\<close> can be left, \<open>PowerOn\<close> leads to \<open>SelfTest\<close> and
  nowhere else, \<open>ErrorState\<close> leads to \<open>Zeroization\<close> and \<open>PowerOff\<close> only, no operational state
  leads to \<open>PowerOff\<close>, and no state has two transitions for one event.  Its search of the
  reachable states ends on every model.
\<close>

theorem validate_fsm_decides: "validate_fsm m = Inr () \<longleftrightarrow> fips_model m"
proof -
  have reach: "filter (\<lambda>s. s \<notin> dfs m {initial_state m} [initial_state m]) all_states = [] \<longleftrightarrow>
      (\<forall>s. (initial_state m, s) \<in> (edges m)\<^sup>*)"
    unfolding dfs_reachable by (auto simp: filter_empty_conv)
  have dead: "filter (\<lambda>s. s \<noteq> PowerOff \<and> adjacency m s = []) all_states = [] \<longleftrightarrow>
      (\<forall>s. s \<noteq> PowerOff \<longrightarrow> (\<exists>s'. (s, s') \<in> edges m))"
  proof -
    have "adjacency m s = [] \<longleftrightarrow> \<not> (\<exists>s'. (s, s') \<in> edges m)" for s
      unfolding set_empty [symmetric] adjacency_edges by auto
    then show ?thesis by (auto simp: filter_empty_conv)
  qed
  have targets: "set (map tr_to (filter (\<lambda>t. tr_from t = s) (transitions m))) = edges m `` {s}" for s
    using adjacency_edges [of m s] by (simp add: adjacency_def)
  have power_on: "SelfTest \<in> set ts \<and> filter (\<lambda>s. s \<noteq> SelfTest) ts = [] \<longleftrightarrow> set ts = {SelfTest}" for ts
    by (auto simp: filter_empty_conv)
  have rest: "filter (\<lambda>t. tr_from t = ErrorState \<and> tr_to t \<noteq> Zeroization \<and> tr_to t \<noteq> PowerOff) (transitions m) = [] \<longleftrightarrow>
      edges m `` {ErrorState} \<subseteq> {Zeroization, PowerOff}"
    "filter (\<lambda>t. (tr_from t = CryptoOfficerMode \<or> tr_from t = UserMode) \<and> tr_to t = PowerOff) (transitions m) = [] \<longleftrightarrow>
      (CryptoOfficerMode, PowerOff) \<notin> edges m \<and> (UserMode, PowerOff) \<notin> edges m"
    unfolding filter_empty_conv subset_iff Image_singleton_iff edges_iff by blast+
  have "validate_fsm_inner m = [] \<longleftrightarrow> fips_model m"
    unfolding validate_fsm_inner_def fips_model_def Let_def append_is_Nil_conv map_is_Nil_conv reach dead rest
      duplicates_Nil targets [symmetric] power_on [symmetric]
    by (simp split: if_split)
  then show ?thesis by (simp add: validate_fsm_def Let_def)
qed

section \<open>Runs of the default model\<close>

text \<open>A run records, for every step, where it started, the event, the guard predicate in
  force and where it led.\<close>

type_synonym fsm_event = "ModuleState \<times> string \<times> (string \<Rightarrow> bool) \<times> ModuleState"

inductive fsm_run :: "FsmModel \<Rightarrow> ModuleState \<Rightarrow> fsm_event list \<Rightarrow> ModuleState \<Rightarrow> bool" for m s where
  start: "fsm_run m s [] s"
| step: "fsm_run m s tr s' \<Longrightarrow> transition m s' ev g = Inr s'' \<Longrightarrow> fsm_run m s (tr @ [(s', ev, g, s'')]) s''"

definition operational :: "ModuleState \<Rightarrow> bool" where
  "operational s \<longleftrightarrow> s = CryptoOfficerMode \<or> s = UserMode"

text \<open>The ways into an operational state.\<close>

lemma default_into_operational:
  "transition default_fips_fsm s ev g = Inr s' \<Longrightarrow> operational s' \<Longrightarrow>
   s = SelfTest \<and> ev = ''self_tests_passed'' \<and> g ''all_kats_pass'' \<and> s' = CryptoOfficerMode \<or> operational s"
  by (cases s) (auto simp: transition_def default_fips_fsm_def fsm_transition_def operational_def
      split: if_splits option.splits)

text \<open>
  C23: no service without self-tests.  Whenever a run of the default model that starts
  powered off, with any events and any guard predicates, is in an operational state, it
  passed the self-test transition with the guard \<open>all_kats_pass\<close> holding, and has not left
  the operational states since.
\<close>

theorem operational_only_after_self_tests:
  assumes "fsm_run default_fips_fsm PowerOff tr s" and "operational s"
  shows "\<exists>pre g post. tr = pre @ (SelfTest, ''self_tests_passed'', g, CryptoOfficerMode) # post \<and>
    g ''all_kats_pass'' \<and> list_all (\<lambda>(s, _, _, s'). operational s \<and> operational s') post"
  using assms
proof (induction rule: fsm_run.induct)
  case start
  then show ?case by (simp add: operational_def)
next
  case (step tr s' ev g s'')
  consider (tests) "s' = SelfTest" "ev = ''self_tests_passed''" "g ''all_kats_pass''" "s'' = CryptoOfficerMode"
    | (inside) "operational s'"
    using default_into_operational [OF step.hyps(2) step.prems] by blast
  then show ?case
  proof cases
    case tests
    then show ?thesis by (intro exI [of _ tr] exI [of _ g] exI [of _ "[]"]) simp
  next
    case inside
    then obtain pre h post where "tr = pre @ (SelfTest, ''self_tests_passed'', h, CryptoOfficerMode) # post"
        "h ''all_kats_pass''" "list_all (\<lambda>(s, _, _, s'). operational s \<and> operational s') post"
      using step.IH by blast
    then show ?thesis
      using inside step.prems
      by (intro exI [of _ pre] exI [of _ h] exI [of _ "post @ [(s', ev, g, s'')]"]) simp
  qed
qed

lemma default_boot:
  "fsm_run default_fips_fsm PowerOff
     [(PowerOff, ''power_on'', \<lambda>_. True, PowerOn), (PowerOn, ''run_self_tests'', \<lambda>_. True, SelfTest),
      (SelfTest, ''self_tests_passed'', \<lambda>_. True, CryptoOfficerMode)] CryptoOfficerMode"
  using fsm_run.step [OF fsm_run.step [OF fsm_run.step [OF fsm_run.start]],
      of default_fips_fsm PowerOff "''power_on''" "\<lambda>_. True" PowerOn "''run_self_tests''" "\<lambda>_. True" SelfTest
         "''self_tests_passed''" "\<lambda>_. True" CryptoOfficerMode]
  by (simp add: transition_def default_fips_fsm_def fsm_transition_def)

theorem operational_only_after_self_tests_witness:
  "\<exists>pre g post.
     [(PowerOff, ''power_on'', \<lambda>_. True, PowerOn), (PowerOn, ''run_self_tests'', \<lambda>_. True, SelfTest),
      (SelfTest, ''self_tests_passed'', \<lambda>_. True, CryptoOfficerMode)] =
     pre @ (SelfTest, ''self_tests_passed'', g, CryptoOfficerMode) # post \<and>
     g ''all_kats_pass'' \<and> list_all (\<lambda>(s, _, _, s'). operational s \<and> operational s') post"
  by (rule operational_only_after_self_tests [OF default_boot]) (simp add: operational_def)

text \<open>
  The default model passes validation, and yet leaves an operational state for \<open>PowerOff\<close>
  without zeroizing, through \<open>ErrorState\<close>.
\<close>

theorem shutdown_without_zeroization:
  "validate_fsm default_fips_fsm = Inr () \<and>
   fsm_run default_fips_fsm CryptoOfficerMode
     [(CryptoOfficerMode, ''runtime_error'', \<lambda>_. False, ErrorState), (ErrorState, ''power_off'', \<lambda>_. False, PowerOff)]
     PowerOff"
proof
  show "validate_fsm default_fips_fsm = Inr ()"
    by (simp add: validate_fsm_def validate_fsm_inner_def default_fips_fsm_def fsm_transition_def adjacency_def
        all_states_def)
  show "fsm_run default_fips_fsm CryptoOfficerMode
     [(CryptoOfficerMode, ''runtime_error'', \<lambda>_. False, ErrorState), (ErrorState, ''power_off'', \<lambda>_. False, PowerOff)]
     PowerOff"
    using fsm_run.step [OF fsm_run.step [OF fsm_run.start],
        of default_fips_fsm CryptoOfficerMode "''runtime_error''" "\<lambda>_. False" ErrorState "''power_off''" "\<lambda>_. False" PowerOff]
    by (simp add: transition_def default_fips_fsm_def fsm_transition_def)
qed

section \<open>The runtime machine\<close>

datatype Event = EvPowerOn | EvRunSelfTests | EvSelfTestsPassed | EvSelfTestsFailed | EvZeroize | EvPowerOff

definition event_name :: "Event \<Rightarrow> string" where
  "event_name ev =
     (case ev of
        EvPowerOn \<Rightarrow> ''power_on'' | EvRunSelfTests \<Rightarrow> ''run_self_tests''
      | EvSelfTestsPassed \<Rightarrow> ''self_tests_passed'' | EvSelfTestsFailed \<Rightarrow> ''self_tests_failed''
      | EvZeroize \<Rightarrow> ''zeroize'' | EvPowerOff \<Rightarrow> ''power_off'')"

datatype ErrorReason = KatFailure | IntegrityFailure | FatalRuntimeError

definition state_to_u8 :: "ModuleState \<Rightarrow> u8" where
  "state_to_u8 s =
     (case s of PowerOff \<Rightarrow> 0 | PowerOn \<Rightarrow> 1 | SelfTest \<Rightarrow> 2 | CryptoOfficerMode \<Rightarrow> 3 | UserMode \<Rightarrow> 4
      | ErrorState \<Rightarrow> 5 | Zeroization \<Rightarrow> 6)"

definition u8_to_state :: "u8 \<Rightarrow> ModuleState" where
  "u8_to_state v =
     (if v = state_to_u8 PowerOff then PowerOff else if v = state_to_u8 PowerOn then PowerOn
      else if v = state_to_u8 SelfTest then SelfTest
      else if v = state_to_u8 CryptoOfficerMode then CryptoOfficerMode
      else if v = state_to_u8 UserMode then UserMode
      else if v = state_to_u8 Zeroization then Zeroization
      else if v = state_to_u8 ErrorState then ErrorState
      else ErrorState)"

record ModuleFsm =
  fsm_model :: FsmModel
  fsm_state :: u8
  error_latched :: bool
  fsm_guard :: "(string \<Rightarrow> bool) option"

definition module_fsm_new :: "FsmModel \<Rightarrow> ModuleFsm" where
  "module_fsm_new m =
     \<lparr>fsm_model = m, fsm_state = state_to_u8 (initial_state m), error_latched = False, fsm_guard = None\<rparr>"

definition current_state :: "ModuleFsm \<Rightarrow> ModuleState" where
  "current_state f = u8_to_state (fsm_state f)"

definition set_guard :: "ModuleFsm \<Rightarrow> (string \<Rightarrow> bool) \<Rightarrow> ModuleFsm" where
  "set_guard f predicate = f\<lparr>fsm_guard := Some predicate\<rparr>"

text \<open>
  One turn of the loop of \<open>try_transition\<close>, between its load of the state byte and its
  compare-exchange: the edge for the loaded state and the guard installed at that moment.
\<close>

definition check_edge :: "ModuleFsm \<Rightarrow> u8 \<Rightarrow> Event \<Rightarrow> FsmTransitionError + ModuleState" where
  "check_edge f current_u8 ev =
     (let current = u8_to_state current_u8 in
      case find (\<lambda>t. tr_from t = current \<and> tr_event t = event_name ev) (transitions (fsm_model f)) of
        None \<Rightarrow> Inl (NoSuchTransition current (event_name ev))
      | Some edge \<Rightarrow>
          (case tr_guard edge of
             Some g \<Rightarrow>
               let allowed = (case fsm_guard f of Some p \<Rightarrow> p g | None \<Rightarrow> False) in
               if \<not> allowed then Inl (GuardFailed current (tr_to edge) (event_name ev) g)
               else Inr (tr_to edge)
           | None \<Rightarrow> Inr (tr_to edge)))"

text \<open>
  A thread inside a method, by the atomic operation it performs next.  \<open>Try\<close> are the
  points of \<open>try_transition\<close>, \<open>Err\<close> those of \<open>enter_error_state\<close>: the exchange of the latch,
  the call of the hook, the load and the compare-exchange of the state byte.
\<close>

datatype Thread =
    TryLoad Event
  | TryCheck Event u8
  | TryCas Event u8 ModuleState
  | TryDone "FsmTransitionError + ModuleState"
  | ErrLatch ErrorReason
  | ErrHook ErrorReason
  | ErrLoad
  | ErrCas u8
  | ErrDone

fun thread_step :: "Thread \<Rightarrow> ModuleFsm \<Rightarrow> Thread \<times> ModuleFsm" where
  "thread_step (TryLoad ev) f = (TryCheck ev (fsm_state f), f)"
| "thread_step (TryCheck ev c) f =
     (case check_edge f c ev of Inl e \<Rightarrow> (TryDone (Inl e), f) | Inr s \<Rightarrow> (TryCas ev c s, f))"
| "thread_step (TryCas ev c s) f =
     (if fsm_state f = c then (TryDone (Inr s), f\<lparr>fsm_state := state_to_u8 s\<rparr>) else (TryLoad ev, f))"
| "thread_step (ErrLatch r) f =
     (if \<not> error_latched f then (ErrHook r, f\<lparr>error_latched := True\<rparr>) else (ErrLoad, f))"
| "thread_step (ErrHook r) f = (ErrLoad, f)"
| "thread_step ErrLoad f =
     (if fsm_state f = state_to_u8 ErrorState then (ErrDone, f) else (ErrCas (fsm_state f), f))"
| "thread_step (ErrCas c) f =
     (if fsm_state f = c then (ErrDone, f\<lparr>fsm_state := state_to_u8 ErrorState\<rparr>) else (ErrLoad, f))"
| "thread_step (TryDone r) f = (TryDone r, f)"
| "thread_step ErrDone f = (ErrDone, f)"

text \<open>The machine, its threads, and the reasons the hook was called with.\<close>

record Runtime =
  shared :: ModuleFsm
  threads :: "Thread list"
  zeroized :: "ErrorReason list"

fun hook_call :: "Thread \<Rightarrow> ErrorReason list" where
  "hook_call (ErrHook r) = [r]"
| "hook_call _ = []"

inductive runtime_step :: "Runtime \<Rightarrow> Runtime \<Rightarrow> bool" where
  run: "i < length (threads R) \<Longrightarrow> thread_step (threads R ! i) (shared R) = (t, f) \<Longrightarrow>
     runtime_step R (R\<lparr>shared := f, threads := (threads R)[i := t], zeroized := zeroized R @ hook_call (threads R ! i)\<rparr>)"
| call_try: "runtime_step R (R\<lparr>threads := threads R @ [TryLoad ev]\<rparr>)"
| call_error: "runtime_step R (R\<lparr>threads := threads R @ [ErrLatch r]\<rparr>)"
| install: "runtime_step R (R\<lparr>shared := set_guard (shared R) g\<rparr>)"

definition runtime_start :: "FsmModel \<Rightarrow> Runtime" where
  "runtime_start m = \<lparr>shared = module_fsm_new m, threads = [], zeroized = []\<rparr>"

section \<open>Every interleaving\<close>

text \<open>A thread that runs alone for \<open>n\<close> atomic operations.\<close>

definition solo :: "nat \<Rightarrow> Thread \<Rightarrow> ModuleFsm \<Rightarrow> Thread \<times> ModuleFsm" where
  "solo n t f = ((\<lambda>(t, f). thread_step t f) ^^ n) (t, f)"

lemma u8_state_roundtrip [simp]: "u8_to_state (state_to_u8 s) = s"
  by (cases s) (simp_all add: u8_to_state_def state_to_u8_def)

lemma state_to_u8_inject [simp]: "state_to_u8 s = state_to_u8 s' \<longleftrightarrow> s = s'"
  by (metis u8_state_roundtrip)

definition state_byte :: "u8 \<Rightarrow> bool" where
  "state_byte c \<longleftrightarrow> c \<in> range state_to_u8"

lemma state_byte_state [simp]: "state_byte (state_to_u8 s)"
  by (simp add: state_byte_def)

text \<open>What a thread carries from one atomic operation to the next: bytes it read are state
  bytes, and the target of a pending exchange is joined to them by an edge.\<close>

definition thread_ok :: "FsmModel \<Rightarrow> Thread \<Rightarrow> bool" where
  "thread_ok m t \<longleftrightarrow>
     (case t of
        TryCheck ev c \<Rightarrow> state_byte c
      | TryCas ev c s \<Rightarrow> state_byte c \<and> (u8_to_state c, s) \<in> edges m
      | ErrCas c \<Rightarrow> state_byte c
      | _ \<Rightarrow> True)"

definition in_hook :: "Thread \<Rightarrow> bool" where
  "in_hook t \<longleftrightarrow> (\<exists>r. t = ErrHook r)"

definition past_latch :: "Thread \<Rightarrow> bool" where
  "past_latch t \<longleftrightarrow> in_hook t \<or> t = ErrLoad \<or> (\<exists>c. t = ErrCas c) \<or> t = ErrDone"

definition runtime_ok :: "FsmModel \<Rightarrow> Runtime \<Rightarrow> bool" where
  "runtime_ok m R \<longleftrightarrow>
     fsm_model (shared R) = m \<and> state_byte (fsm_state (shared R)) \<and> list_all (thread_ok m) (threads R) \<and>
     length (zeroized R) + length (filter in_hook (threads R)) = of_bool (error_latched (shared R)) \<and>
     (list_ex past_latch (threads R) \<longrightarrow> error_latched (shared R))"

lemma check_edge_edge: "check_edge f c ev = Inr s \<Longrightarrow> (u8_to_state c, s) \<in> edges (fsm_model f)"
  by (auto simp: check_edge_def edges_iff Let_def find_Some_iff split: option.splits if_splits)

lemma thread_step_ok:
  assumes "thread_step t f = (t', f')" and "thread_ok (fsm_model f) t" and "state_byte (fsm_state f)"
  shows "thread_ok (fsm_model f) t' \<and> state_byte (fsm_state f') \<and> fsm_model f' = fsm_model f \<and>
    (current_state f' = current_state f \<or> (current_state f, current_state f') \<in> edges (fsm_model f) \<or>
     current_state f' = ErrorState)"
  using assms
  by (cases "(t, f)" rule: thread_step.cases)
    (auto simp: thread_ok_def current_state_def dest: check_edge_edge split: sum.splits if_splits)

text \<open>The hook calls made and pending, and the latch.\<close>

lemma thread_step_hook:
  assumes "thread_step t f = (t', f')" and "past_latch t \<longrightarrow> error_latched f"
  shows "length (hook_call t) + of_bool (in_hook t') + of_bool (error_latched f) =
      of_bool (in_hook t) + (of_bool (error_latched f') :: nat) \<and>
    (past_latch t' \<longrightarrow> error_latched f') \<and> (error_latched f \<longrightarrow> error_latched f')"
  using assms
  by (cases "(t, f)" rule: thread_step.cases) (auto simp: in_hook_def past_latch_def split: sum.splits if_splits)

lemma length_filter_update:
  "i < length xs \<Longrightarrow> length (filter P (xs[i := x])) + of_bool (P (xs ! i)) = length (filter P xs) + of_bool (P x)"
proof (induction xs arbitrary: i)
  case (Cons y ys)
  then show ?case
  proof (cases i)
    case (Suc j)
    then show ?thesis using Cons.IH [of j] Cons.prems by simp
  qed simp
qed simp

lemma runtime_step_ok:
  assumes "runtime_step R R'" and "runtime_ok m R"
  shows "runtime_ok m R' \<and>
    (current_state (shared R') = current_state (shared R) \<or>
     (current_state (shared R), current_state (shared R')) \<in> edges m \<or> current_state (shared R') = ErrorState)"
  using assms
proof (induction rule: runtime_step.induct)
  case (run i R t f)
  let ?t = "threads R ! i"
  have ok: "thread_ok (fsm_model (shared R)) ?t" "past_latch ?t \<longrightarrow> error_latched (shared R)"
    using run(1,3) by (auto simp: runtime_ok_def list_all_length list_ex_length)
  note st = thread_step_ok [OF run(2) ok(1)] and hk = thread_step_hook [OF run(2) ok(2)]
  have "list_all (thread_ok m) ((threads R)[i := t])"
    using run(1,3) st by (auto simp: runtime_ok_def list_all_length nth_list_update)
  moreover have "list_ex past_latch ((threads R)[i := t]) \<longrightarrow> error_latched f"
    using run(1,3) hk by (auto simp: runtime_ok_def list_ex_length nth_list_update split: if_splits)
  moreover have "length (zeroized R @ hook_call ?t) + length (filter in_hook ((threads R)[i := t])) = of_bool (error_latched f)"
    using length_filter_update [OF run(1), of in_hook t] hk run(3)
    by (auto simp: runtime_ok_def split: if_splits)
  ultimately show ?case using st run(3) by (auto simp: runtime_ok_def)
next
  case (install R g)
  then show ?case by (simp add: runtime_ok_def set_guard_def current_state_def)
qed (simp_all add: runtime_ok_def thread_ok_def in_hook_def past_latch_def)

lemma runtime_start_ok: "runtime_ok m (runtime_start m)"
  by (simp add: runtime_ok_def runtime_start_def module_fsm_new_def)

lemma runtime_reachable_ok: "runtime_step\<^sup>*\<^sup>* (runtime_start m) R \<Longrightarrow> runtime_ok m R"
  by (induction rule: rtranclp_induct) (use runtime_start_ok runtime_step_ok in blast)+

text \<open>
  C24: the state byte moves along the model.  Take any number of threads inside
  \<open>try_transition\<close> and \<open>enter_error_state\<close>, interleaved in any way, with guards installed at
  any time.  The byte always encodes a state, and every change of it is a transition of the
  model from the state it had, or a step into \<open>ErrorState\<close>.
\<close>

theorem runtime_follows_model:
  assumes "runtime_step\<^sup>*\<^sup>* (runtime_start m) R" and "runtime_step R R'"
  shows "fsm_state (shared R') = state_to_u8 (current_state (shared R')) \<and>
    (current_state (shared R') = current_state (shared R) \<or>
     (current_state (shared R), current_state (shared R')) \<in> edges m \<or> current_state (shared R') = ErrorState)"
proof -
  have "runtime_ok m R" by (rule runtime_reachable_ok [OF assms(1)])
  note st = runtime_step_ok [OF assms(2) this]
  have "state_byte (fsm_state (shared R'))" using st by (simp add: runtime_ok_def)
  then show ?thesis using st by (auto simp: current_state_def state_byte_def)
qed

lemma solo_run:
  "threads R = [t] \<Longrightarrow> \<exists>z. runtime_step\<^sup>*\<^sup>* R
     (R\<lparr>shared := snd (solo n t (shared R)), threads := [fst (solo n t (shared R))], zeroized := z\<rparr>)"
proof (induction n)
  case 0
  then have "R\<lparr>shared := shared R, threads := [t], zeroized := zeroized R\<rparr> = R" by simp
  then show ?case by (intro exI [of _ "zeroized R"]) (simp add: solo_def)
next
  case (Suc n)
  obtain t' f' where tf: "solo n t (shared R) = (t', f')" by (rule prod.exhaust)
  then obtain z where z: "runtime_step\<^sup>*\<^sup>* R (R\<lparr>shared := f', threads := [t'], zeroized := z\<rparr>)"
    using Suc by auto
  let ?R = "R\<lparr>shared := f', threads := [t'], zeroized := z\<rparr>"
  obtain t'' f'' where st: "thread_step t' f' = (t'', f'')" by (rule prod.exhaust)
  have "runtime_step ?R (?R\<lparr>shared := f'', threads := [t''], zeroized := z @ hook_call t'\<rparr>)"
    using runtime_step.run [of 0 ?R t'' f''] st by simp
  with z have "runtime_step\<^sup>*\<^sup>* R (R\<lparr>shared := f'', threads := [t''], zeroized := z @ hook_call t'\<rparr>)"
    by (simp add: rtranclp.rtrancl_into_rtrancl)
  moreover have "solo (Suc n) t (shared R) = (t'', f'')" using tf st by (simp add: solo_def)
  ultimately show ?case by auto
qed

definition powering_on :: Runtime where
  "powering_on = (runtime_start default_fips_fsm)\<lparr>threads := [TryLoad EvPowerOn]\<rparr>"

lemma powering_on_reachable: "runtime_step\<^sup>*\<^sup>* (runtime_start default_fips_fsm) powering_on"
  using runtime_step.call_try [of "runtime_start default_fips_fsm" EvPowerOn]
  by (simp add: powering_on_def runtime_start_def r_into_rtranclp)

theorem runtime_follows_model_witness:
  "\<exists>R'. runtime_step powering_on R' \<and> fsm_state (shared R') = state_to_u8 (current_state (shared R')) \<and>
    (current_state (shared R') = current_state (shared powering_on) \<or>
     (current_state (shared powering_on), current_state (shared R')) \<in> edges default_fips_fsm \<or>
     current_state (shared R') = ErrorState)"
proof -
  obtain t f where "thread_step (threads powering_on ! 0) (shared powering_on) = (t, f)" by (rule prod.exhaust)
  then obtain R' where R': "runtime_step powering_on R'"
    using runtime_step.run [of 0 powering_on] by (auto simp: powering_on_def)
  show ?thesis using runtime_follows_model [OF powering_on_reachable R'] R' by blast
qed

text \<open>
  C25: the hook runs once.  In every
  interleaving the hook is called at most once, whatever number of threads enter the
  error state; once one of them has returned, the call has been made or a thread is
  about to make it.
\<close>

theorem zeroize_hook_called_once:
  assumes "runtime_step\<^sup>*\<^sup>* (runtime_start m) R"
  shows "length (zeroized R) \<le> 1 \<and>
    (ErrDone \<in> set (threads R) \<longrightarrow> length (zeroized R) + length (filter in_hook (threads R)) = 1)"
proof -
  have ok: "runtime_ok m R" by (rule runtime_reachable_ok [OF assms])
  then have "list_ex past_latch (threads R) \<longrightarrow> error_latched (shared R)" by (simp add: runtime_ok_def)
  moreover have "list_ex past_latch (threads R)" if "ErrDone \<in> set (threads R)"
    using that by (auto simp: list_ex_iff past_latch_def)
  ultimately show ?thesis using ok by (auto simp: runtime_ok_def of_bool_def split: if_splits)
qed

lemma solo_error: "fst (solo 4 (ErrLatch r) f) = ErrDone" "current_state (snd (solo 4 (ErrLatch r) f)) = ErrorState"
  by (auto simp: solo_def numeral_eq_Suc current_state_def)

theorem zeroize_hook_called_once_witness:
  "\<exists>R. runtime_step\<^sup>*\<^sup>* (runtime_start default_fips_fsm) R \<and> threads R = [ErrDone] \<and> length (zeroized R) = 1"
proof -
  let ?R = "(runtime_start default_fips_fsm)\<lparr>threads := [ErrLatch KatFailure]\<rparr>"
  have "runtime_step (runtime_start default_fips_fsm) ?R"
    using runtime_step.call_error [of "runtime_start default_fips_fsm" KatFailure] by (simp add: runtime_start_def)
  moreover obtain R' where R': "runtime_step\<^sup>*\<^sup>* ?R R'" "threads R' = [ErrDone]"
    using solo_run [of ?R "ErrLatch KatFailure" 4] solo_error by fastforce
  ultimately have "runtime_step\<^sup>*\<^sup>* (runtime_start default_fips_fsm) R'"
    by (simp add: converse_rtranclp_into_rtranclp)
  then show ?thesis
    using zeroize_hook_called_once [of default_fips_fsm R'] R'(2) by (auto simp: in_hook_def)
qed

text \<open>
  C26: a thread that is not disturbed finishes.  Alone, \<open>try_transition\<close> ends after three
  atomic operations with what the model's \<open>transition\<close> says for the current state and the
  installed guard, none installed meaning no guarded transition; the state is then the
  result, or unchanged on an error.  \<open>enter_error_state\<close> ends after at most four, in
  \<open>ErrorState\<close>.
\<close>

theorem solo_thread_finishes:
  "solo 3 (TryLoad ev) f =
     (let r = transition (fsm_model f) (current_state f) (event_name ev)
                (\<lambda>g. case fsm_guard f of Some p \<Rightarrow> p g | None \<Rightarrow> False)
      in (TryDone r, case r of Inl _ \<Rightarrow> f | Inr s \<Rightarrow> f\<lparr>fsm_state := state_to_u8 s\<rparr>)) \<and>
   fst (solo 4 (ErrLatch r) f) = ErrDone \<and> current_state (snd (solo 4 (ErrLatch r) f)) = ErrorState"
  using solo_error [of r f]
  by (auto simp: solo_def numeral_eq_Suc check_edge_def transition_def current_state_def Let_def
      split: option.split)

text \<open>
  With the default model, no event of the runtime machine leaves \<open>Zeroization\<close>, and a failed
  self-test reaches \<open>ErrorState\<close> without the hook.
\<close>

theorem runtime_stuck_in_zeroization:
  "fsm_model f = default_fips_fsm \<Longrightarrow> current_state f = Zeroization \<Longrightarrow>
   solo 3 (TryLoad ev) f = (TryDone (Inl (NoSuchTransition Zeroization (event_name ev))), f)"
  by (cases ev)
    (simp_all add: solo_def numeral_eq_Suc check_edge_def default_fips_fsm_def fsm_transition_def current_state_def
      event_name_def)

theorem failed_self_test_skips_hook:
  assumes "fsm_model f = default_fips_fsm" and "current_state f = SelfTest"
  shows "solo 3 (TryLoad EvSelfTestsFailed) f =
      (TryDone (Inr ErrorState), f\<lparr>fsm_state := state_to_u8 ErrorState\<rparr>) \<and>
    (\<forall>n < 3. hook_call (fst (solo n (TryLoad EvSelfTestsFailed) f)) = [])"
  using assms
  by (auto simp: solo_def numeral_eq_Suc check_edge_def default_fips_fsm_def fsm_transition_def current_state_def
      event_name_def less_Suc_eq)

end
