(* ===== verification/Access_Control.thy ===== *)
theory Access_Control
  imports Rust_Strings
begin

text \<open>
  Role-based access control and dual control, \<open>craton-hsm-auth/src/rbac\<close>: roles and their
  default permissions (\<open>role.rs\<close>), per-key lists (\<open>acl.rs\<close>), the policy engine (\<open>policy.rs\<close>)
  and the queue of operations that wait for approvals (\<open>approval.rs\<close>).  Runs of the queue
  are sequences of its calls; what a consumed request guarantees is proved over them.
\<close>

section \<open>Roles and operations\<close>

datatype HsmRole = User | So | Auditor | KeyManager | Operator

datatype HsmOperation =
    Sign | Verify | Encrypt | Decrypt | Digest
  | GenerateKey | GenerateKeyPair | DestroyObject | WrapKey | UnwrapKey | DeriveKey | ImportKey | ExportKey
  | CreateObject | CopyObject | SetAttribute
  | InitToken | InitPin | SetPin
  | ReadAuditLog
  | GenerateRandom

definition default_permissions :: "HsmRole \<Rightarrow> HsmOperation set" where
  "default_permissions role =
     (case role of
        User \<Rightarrow> {Sign, Verify, Encrypt, Decrypt, Digest, GenerateKey, GenerateKeyPair, DestroyObject, WrapKey,
          UnwrapKey, DeriveKey, ImportKey, ExportKey, CreateObject, CopyObject, SetAttribute, GenerateRandom}
      | So \<Rightarrow> {InitToken, InitPin, SetPin, ReadAuditLog}
      | Auditor \<Rightarrow> {ReadAuditLog}
      | KeyManager \<Rightarrow> {GenerateKey, GenerateKeyPair, DestroyObject, WrapKey, UnwrapKey, DeriveKey, ImportKey,
          ExportKey, CreateObject, CopyObject, SetAttribute}
      | Operator \<Rightarrow> {Sign, Verify, Encrypt, Decrypt, Digest, GenerateRandom})"

datatype AuthMethod = Pin | Ldap | Oidc | Certificate

record SessionIdentity =
  si_role :: HsmRole
  si_user_id :: "string option"
  si_tenant_id :: "string option"
  si_auth_method :: AuthMethod

text \<open>
  Identities of PKCS\#11 sessions.  \<open>hex\<close> is the encoder of the hex crate.  The per-process
  cache of random suffixes is a map; the bytes drawn on a miss are an argument.
\<close>

definition from_session_token :: "(bytes \<Rightarrow> string) \<Rightarrow> u64 \<Rightarrow> bytes \<Rightarrow> SessionIdentity" where
  "from_session_token hex handle token =
     \<lparr>si_role = User, si_user_id = Some (''pkcs11:user:'' @ decimal (unat handle) @ '':'' @ hex token),
      si_tenant_id = None, si_auth_method = Pin\<rparr>"

definition pkcs11_random_suffix_for ::
  "(bytes \<Rightarrow> string) \<Rightarrow> (u64 \<rightharpoonup> bytes) \<Rightarrow> bytes \<Rightarrow> u64 \<Rightarrow> (u64 \<rightharpoonup> bytes) \<times> string" where
  "pkcs11_random_suffix_for hex cache fresh handle =
     (case cache handle of
        Some existing \<Rightarrow> (cache, hex existing)
      | None \<Rightarrow> (cache(handle \<mapsto> fresh), hex fresh))"

definition pkcs11_user ::
  "(bytes \<Rightarrow> string) \<Rightarrow> (u64 \<rightharpoonup> bytes) \<Rightarrow> bytes \<Rightarrow> u64 \<Rightarrow> (u64 \<rightharpoonup> bytes) \<times> SessionIdentity" where
  "pkcs11_user hex cache fresh session_handle =
     (let (cache', suffix) = pkcs11_random_suffix_for hex cache fresh session_handle in
      (cache', \<lparr>si_role = User,
         si_user_id = Some (''pkcs11:user:'' @ decimal (unat session_handle) @ '':'' @ suffix),
         si_tenant_id = None, si_auth_method = Pin\<rparr>))"

definition pkcs11_so ::
  "(bytes \<Rightarrow> string) \<Rightarrow> (u64 \<rightharpoonup> bytes) \<Rightarrow> bytes \<Rightarrow> u64 \<Rightarrow> (u64 \<rightharpoonup> bytes) \<times> SessionIdentity" where
  "pkcs11_so hex cache fresh session_handle =
     (let (cache', suffix) = pkcs11_random_suffix_for hex cache fresh session_handle in
      (cache', \<lparr>si_role = So,
         si_user_id = Some (''pkcs11:so:'' @ decimal (unat session_handle) @ '':'' @ suffix),
         si_tenant_id = None, si_auth_method = Pin\<rparr>))"

text \<open>The variants of the parent crate's error that the helpers of \<open>error.rs\<close> map to.\<close>

datatype HsmError = UserNotLoggedIn | KeyFunctionNotPermitted | ArgumentsBad

definition operation_denied :: HsmError where
  "operation_denied = KeyFunctionNotPermitted"

definition dual_control_not_found :: HsmError where
  "dual_control_not_found = ArgumentsBad"

definition dual_control_expired :: HsmError where
  "dual_control_expired = ArgumentsBad"

definition dual_control_required :: HsmError where
  "dual_control_required = KeyFunctionNotPermitted"

section \<open>Key lists and the policy engine\<close>

record AclEntry =
  acl_role :: HsmRole
  allowed_operations :: "HsmOperation set"

record KeyAcl =
  acl_entries :: "AclEntry list"

definition is_allowed :: "KeyAcl \<Rightarrow> HsmRole \<Rightarrow> HsmOperation \<Rightarrow> bool" where
  "is_allowed acl role op =
     list_ex (\<lambda>entry. acl_role entry = role \<and> op \<in> allowed_operations entry) (acl_entries acl)"

definition default_key_acl :: KeyAcl where
  "default_key_acl =
     \<lparr>acl_entries =
        [\<lparr>acl_role = User, allowed_operations = default_permissions User\<rparr>,
         \<lparr>acl_role = KeyManager, allowed_operations = default_permissions KeyManager\<rparr>,
         \<lparr>acl_role = Operator, allowed_operations = default_permissions Operator\<rparr>]\<rparr>"

record PolicyEngine =
  pe_enabled :: bool
  pe_default_permissions :: "HsmRole \<rightharpoonup> HsmOperation set"
  pe_dual_control_operations :: "HsmOperation set"
  pe_required_approvals :: u32

definition policy_new :: "bool \<Rightarrow> PolicyEngine" where
  "policy_new enabled =
     \<lparr>pe_enabled = enabled,
      pe_default_permissions =
        fold (\<lambda>role m. m(role \<mapsto> default_permissions role)) [User, So, Auditor, KeyManager, Operator] Map.empty,
      pe_dual_control_operations = {}, pe_required_approvals = 2\<rparr>"

definition policy_disabled :: PolicyEngine where
  "policy_disabled = policy_new False"

definition check_permission ::
  "PolicyEngine \<Rightarrow> SessionIdentity option \<Rightarrow> HsmOperation \<Rightarrow> KeyAcl option \<Rightarrow> HsmError + unit" where
  "check_permission pe identity op acl =
     (if \<not> pe_enabled pe then Inr ()
      else case identity of
        None \<Rightarrow> Inl UserNotLoggedIn
      | Some who \<Rightarrow>
          let role = si_role who in
          (case acl of
             Some acl \<Rightarrow> if is_allowed acl role op then Inr () else Inl operation_denied
           | None \<Rightarrow>
               let allowed = (case pe_default_permissions pe role of Some perms \<Rightarrow> op \<in> perms | None \<Rightarrow> False)
               in if allowed then Inr () else Inl operation_denied))"

definition requires_dual_control :: "PolicyEngine \<Rightarrow> HsmOperation \<Rightarrow> bool" where
  "requires_dual_control pe op = (pe_enabled pe \<and> op \<in> pe_dual_control_operations pe)"

definition configure_dual_control :: "PolicyEngine \<Rightarrow> HsmOperation set \<Rightarrow> u32 \<Rightarrow> PolicyEngine" where
  "configure_dual_control pe operations required =
     pe\<lparr>pe_dual_control_operations := operations, pe_required_approvals := max required 2\<rparr>"

section \<open>The approval queue\<close>

record ApprovalVote =
  av_approver_user_id :: "string option"
  av_timestamp :: u64

text \<open>Wall-clock times are seconds; readings of the monotonic clock are natural numbers.\<close>

record ApprovalRequest =
  ar_id :: string
  ar_operation :: HsmOperation
  ar_object_handle :: "u64 option"
  ar_requester_user_id :: "string option"
  ar_requester_tenant_id :: "string option"
  ar_created_at :: u64
  ar_expires_at :: u64
  ar_expires_at_mono :: nat
  ar_approvals :: "ApprovalVote list"
  ar_required_approvals :: u32

definition is_fully_approved :: "ApprovalRequest \<Rightarrow> bool" where
  "is_fully_approved r = ((word_of_nat (length (ar_approvals r)) :: u32) \<ge> ar_required_approvals r)"

definition is_expired :: "ApprovalRequest \<Rightarrow> nat \<Rightarrow> bool" where
  "is_expired r tick = (tick \<ge> ar_expires_at_mono r)"

record ApprovalQueue =
  aq_pending :: "string \<rightharpoonup> ApprovalRequest"
  aq_dual_control_operations :: "HsmOperation set"
  aq_required_approvals :: u32
  aq_timeout_secs :: u64
  aq_allowed_approver_roles :: "HsmRole set"

definition default_approver_roles :: "HsmRole set" where
  "default_approver_roles = {User, So, KeyManager}"

definition queue_new :: "HsmOperation set \<Rightarrow> u32 \<Rightarrow> u64 \<Rightarrow> ApprovalQueue" where
  "queue_new operations required timeout_secs =
     \<lparr>aq_pending = Map.empty, aq_dual_control_operations = operations,
      aq_required_approvals = max required 2, aq_timeout_secs = timeout_secs,
      aq_allowed_approver_roles = default_approver_roles\<rparr>"

definition queue_disabled :: ApprovalQueue where
  "queue_disabled = queue_new {} 2 300"

definition requires_approval :: "ApprovalQueue \<Rightarrow> HsmOperation \<Rightarrow> bool" where
  "requires_approval q op = (op \<in> aq_dual_control_operations q)"

definition id_missing :: "string option \<Rightarrow> bool" where
  "id_missing uid = (case uid of Some s \<Rightarrow> trim (as_bytes s) = [] | None \<Rightarrow> True)"

definition evict_expired_requests :: "ApprovalQueue \<Rightarrow> u64 \<Rightarrow> ApprovalQueue" where
  "evict_expired_requests q now =
     q\<lparr>aq_pending := map_retain (\<lambda>_ r. ar_expires_at r > now) (aq_pending q)\<rparr>"

text \<open>
  The random identifier and the clock readings are arguments: \<open>t_evict\<close> and \<open>now\<close> from the
  wall clock, \<open>tick\<close> from the monotonic one.  \<open>secs\<close> turns the timeout into its units.
\<close>

definition request_approval ::
  "ApprovalQueue \<Rightarrow> (u64 \<Rightarrow> nat) \<Rightarrow> string \<Rightarrow> u64 \<Rightarrow> u64 \<Rightarrow> nat \<Rightarrow> HsmOperation \<Rightarrow> u64 option \<Rightarrow> SessionIdentity \<Rightarrow>
   ApprovalQueue \<times> (HsmError + string)" where
  "request_approval q secs new_id t_evict now tick op handle requester =
     (if op \<notin> aq_dual_control_operations q then (q, Inl operation_denied)
      else if id_missing (si_user_id requester) then (q, Inl operation_denied)
      else
        let q1 = evict_expired_requests q t_evict;
            request = \<lparr>ar_id = new_id, ar_operation = op, ar_object_handle = handle,
              ar_requester_user_id = si_user_id requester, ar_requester_tenant_id = si_tenant_id requester,
              ar_created_at = now, ar_expires_at = now + aq_timeout_secs q,
              ar_expires_at_mono = tick + secs (aq_timeout_secs q), ar_approvals = [],
              ar_required_approvals = aq_required_approvals q\<rparr>
        in (q1\<lparr>aq_pending := (aq_pending q1)(new_id \<mapsto> request)\<rparr>, Inr new_id))"

definition approve ::
  "ApprovalQueue \<Rightarrow> nat \<Rightarrow> u64 \<Rightarrow> string \<Rightarrow> SessionIdentity \<Rightarrow> ApprovalQueue \<times> (HsmError + bool)" where
  "approve q tick now request_id approver =
     (case aq_pending q request_id of
        None \<Rightarrow> (q, Inl dual_control_not_found)
      | Some request \<Rightarrow>
          if is_expired request tick then
            (q\<lparr>aq_pending := (aq_pending q)(request_id := None)\<rparr>, Inl dual_control_expired)
          else if si_role approver \<notin> aq_allowed_approver_roles q then (q, Inl operation_denied)
          else if id_missing (ar_requester_user_id request) \<or> id_missing (si_user_id approver)
            then (q, Inl operation_denied)
          else if ar_requester_user_id request = si_user_id approver then (q, Inl operation_denied)
          else if ar_requester_tenant_id request \<noteq> si_tenant_id approver then (q, Inl operation_denied)
          else if si_user_id approver \<noteq> None \<and>
              list_ex (\<lambda>v. av_approver_user_id v = si_user_id approver) (ar_approvals request)
            then (q, Inl operation_denied)
          else
            let request' = request\<lparr>ar_approvals := ar_approvals request @
                  [\<lparr>av_approver_user_id = si_user_id approver, av_timestamp = now\<rparr>]\<rparr>
            in (q\<lparr>aq_pending := (aq_pending q)(request_id \<mapsto> request')\<rparr>, Inr (is_fully_approved request')))"

text \<open>\<open>consume_approved\<close> looks under a read guard first and removes under a write guard after.\<close>

definition consume_peek :: "ApprovalQueue \<Rightarrow> nat \<Rightarrow> string \<Rightarrow> HsmError + unit" where
  "consume_peek q tick request_id =
     (case aq_pending q request_id of
        None \<Rightarrow> Inl dual_control_not_found
      | Some request \<Rightarrow>
          if is_expired request tick then Inl dual_control_expired
          else if \<not> is_fully_approved request then Inl dual_control_required
          else Inr ())"

definition consume_remove :: "ApprovalQueue \<Rightarrow> string \<Rightarrow> ApprovalQueue \<times> (HsmError + ApprovalRequest)" where
  "consume_remove q request_id =
     (case aq_pending q request_id of
        None \<Rightarrow> (q, Inl dual_control_not_found)
      | Some request \<Rightarrow> (q\<lparr>aq_pending := (aq_pending q)(request_id := None)\<rparr>, Inr request))"

definition consume_approved :: "ApprovalQueue \<Rightarrow> nat \<Rightarrow> string \<Rightarrow> ApprovalQueue \<times> (HsmError + ApprovalRequest)" where
  "consume_approved q tick request_id =
     (case consume_peek q tick request_id of
        Inl e \<Rightarrow> (q, Inl e)
      | Inr _ \<Rightarrow> consume_remove q request_id)"

definition list_pending :: "ApprovalQueue \<Rightarrow> u64 \<Rightarrow> ApprovalQueue \<times> ApprovalRequest set" where
  "list_pending q now =
     (let q1 = evict_expired_requests q now in (q1, ran (aq_pending q1)))"

section \<open>Runs of the queue\<close>

text \<open>
  Any number of callers work on one queue.  Beside the queue the state of a run records the
  identifiers handed out, the identities whose approvals were accepted, the callers between
  the two halves of \<open>consume_approved\<close> with the time of their look, and what was consumed.
  A fresh identifier is one not handed out before: they are 128 random bits.
\<close>

record QueueRun =
  the_queue :: ApprovalQueue
  issued :: "string set"
  accepted_votes :: "(string \<times> SessionIdentity) set"
  between :: "(string \<times> nat) set"
  consumed :: "(nat \<times> ApprovalRequest) list"

inductive queue_step :: "QueueRun \<Rightarrow> QueueRun \<Rightarrow> bool" where
  request: "new_id \<notin> issued R \<Longrightarrow>
     request_approval (the_queue R) secs new_id t_evict now tick op handle who = (q, res) \<Longrightarrow>
     queue_step R (R\<lparr>the_queue := q, issued := insert new_id (issued R)\<rparr>)"
| vote: "approve (the_queue R) tick now rid who = (q, res) \<Longrightarrow>
     queue_step R (R\<lparr>the_queue := q,
       accepted_votes := (case res of Inr _ \<Rightarrow> insert (rid, who) (accepted_votes R) | Inl _ \<Rightarrow> accepted_votes R)\<rparr>)"
| peek: "consume_peek (the_queue R) tick rid = Inr () \<Longrightarrow>
     queue_step R (R\<lparr>between := insert (rid, tick) (between R)\<rparr>)"
| take: "(rid, tick) \<in> between R \<Longrightarrow> consume_remove (the_queue R) rid = (q, res) \<Longrightarrow>
     queue_step R (R\<lparr>the_queue := q,
       consumed := (case res of Inr r \<Rightarrow> consumed R @ [(tick, r)] | Inl _ \<Rightarrow> consumed R)\<rparr>)"
| listing: "list_pending (the_queue R) now = (q, rs) \<Longrightarrow> queue_step R (R\<lparr>the_queue := q\<rparr>)"

definition queue_start :: "HsmOperation set \<Rightarrow> u32 \<Rightarrow> u64 \<Rightarrow> QueueRun" where
  "queue_start operations required timeout_secs =
     \<lparr>the_queue = queue_new operations required timeout_secs, issued = {}, accepted_votes = {}, between = {},
      consumed = []\<rparr>"

text \<open>What makes an identity eligible to approve a request.\<close>

definition eligible :: "ApprovalRequest \<Rightarrow> SessionIdentity \<Rightarrow> bool" where
  "eligible r who \<longleftrightarrow>
     si_role who \<in> {User, So, KeyManager} \<and> \<not> id_missing (si_user_id who) \<and>
     si_user_id who \<noteq> ar_requester_user_id r \<and> si_tenant_id who = ar_requester_tenant_id r"

text \<open>The requests a queue may hold: their approvals come from distinct, eligible identities.\<close>

definition request_ok :: "HsmOperation set \<Rightarrow> u32 \<Rightarrow> (string \<times> SessionIdentity) set \<Rightarrow> string \<Rightarrow> ApprovalRequest \<Rightarrow> bool" where
  "request_ok operations required votes rid r \<longleftrightarrow>
     ar_id r = rid \<and> ar_operation r \<in> operations \<and> ar_required_approvals r = required \<and>
     \<not> id_missing (ar_requester_user_id r) \<and>
     distinct (map av_approver_user_id (ar_approvals r)) \<and>
     (\<forall>v. v \<in> set (ar_approvals r) \<longrightarrow>
        (\<exists>who. (rid, who) \<in> votes \<and> si_user_id who = av_approver_user_id v \<and> eligible r who))"

definition consumable :: "u32 \<Rightarrow> nat \<Rightarrow> ApprovalRequest \<Rightarrow> bool" where
  "consumable required t r \<longleftrightarrow> t < ar_expires_at_mono r \<and> unat required \<le> length (ar_approvals r)"

definition queue_ok :: "HsmOperation set \<Rightarrow> u32 \<Rightarrow> QueueRun \<Rightarrow> bool" where
  "queue_ok operations required R \<longleftrightarrow>
     aq_dual_control_operations (the_queue R) = operations \<and> aq_required_approvals (the_queue R) = required \<and>
     aq_allowed_approver_roles (the_queue R) = default_approver_roles \<and>
     distinct (map (ar_id \<circ> snd) (consumed R)) \<and>
     (\<forall>rid r. aq_pending (the_queue R) rid = Some r \<longrightarrow>
        rid \<in> issued R \<and> request_ok operations required (accepted_votes R) rid r) \<and>
     (\<forall>rid t. (rid, t) \<in> between R \<longrightarrow> rid \<in> issued R) \<and>
     (\<forall>rid t r. (rid, t) \<in> between R \<longrightarrow> aq_pending (the_queue R) rid = Some r \<longrightarrow> consumable required t r) \<and>
     (\<forall>t r. (t, r) \<in> set (consumed R) \<longrightarrow>
        ar_id r \<in> issued R \<and> aq_pending (the_queue R) (ar_id r) = None \<and>
        request_ok operations required (accepted_votes R) (ar_id r) r \<and> consumable required t r)"

lemma queue_okD:
  assumes "queue_ok ops req R"
  shows "aq_dual_control_operations (the_queue R) = ops" and "aq_required_approvals (the_queue R) = req"
    and "aq_allowed_approver_roles (the_queue R) = default_approver_roles"
    and "distinct (map (ar_id \<circ> snd) (consumed R))"
    and "aq_pending (the_queue R) rid = Some r \<Longrightarrow> rid \<in> issued R"
    and "aq_pending (the_queue R) rid = Some r \<Longrightarrow> request_ok ops req (accepted_votes R) rid r"
    and "(rid, t) \<in> between R \<Longrightarrow> rid \<in> issued R"
    and "(rid, t) \<in> between R \<Longrightarrow> aq_pending (the_queue R) rid = Some r \<Longrightarrow> consumable req t r"
    and "(t, r) \<in> set (consumed R) \<Longrightarrow> ar_id r \<in> issued R"
    and "(t, r) \<in> set (consumed R) \<Longrightarrow> aq_pending (the_queue R) (ar_id r) = None"
    and "(t, r) \<in> set (consumed R) \<Longrightarrow> request_ok ops req (accepted_votes R) (ar_id r) r"
    and "(t, r) \<in> set (consumed R) \<Longrightarrow> consumable req t r"
  using assms unfolding queue_ok_def by blast+

lemma fully_approved_length: "is_fully_approved r \<Longrightarrow> unat (ar_required_approvals r) \<le> length (ar_approvals r)"
  unfolding is_fully_approved_def word_le_nat_alt unat_of_nat
  by (meson le_trans mod_less_eq_dividend)

lemma request_ok_more_votes:
  "request_ok ops req votes rid r \<Longrightarrow> votes \<subseteq> votes' \<Longrightarrow> request_ok ops req votes' rid r"
  unfolding request_ok_def by blast

lemma approve_cases:
  assumes "approve q tick now rid who = (q', res)" and "aq_allowed_approver_roles q = default_approver_roles"
  obtains (refused) e where "res = Inl e" "q' = q"
  | (expired) e where "res = Inl e" "q' = q\<lparr>aq_pending := (aq_pending q)(rid := None)\<rparr>"
  | (voted) r v b where "aq_pending q rid = Some r" "eligible r who" "av_approver_user_id v = si_user_id who"
      "si_user_id who \<notin> av_approver_user_id ` set (ar_approvals r)" "res = Inr b"
      "q' = q\<lparr>aq_pending := (aq_pending q)(rid \<mapsto> r\<lparr>ar_approvals := ar_approvals r @ [v]\<rparr>)\<rparr>"
proof (cases "aq_pending q rid")
  case None
  then show thesis using assms(1) by (intro refused [of dual_control_not_found]) (auto simp: approve_def)
next
  case (Some r)
  note app = assms(1) [unfolded approve_def Some option.case assms(2) default_approver_roles_def Let_def]
  have "id_missing None" by (simp add: id_missing_def)
  moreover have dup: "list_ex (\<lambda>v. av_approver_user_id v = u) vs \<longleftrightarrow> u \<in> av_approver_user_id ` set vs" for u vs
    by (auto simp: list_ex_iff)
  moreover define vote where "vote = \<lparr>av_approver_user_id = si_user_id who, av_timestamp = now\<rparr>"
  ultimately consider "is_expired r tick" | "\<exists>e. res = Inl e \<and> q' = q"
    | b where "eligible r who" "si_user_id who \<notin> av_approver_user_id ` set (ar_approvals r)"
        "res = Inr b" "q' = q\<lparr>aq_pending := (aq_pending q)(rid \<mapsto> r\<lparr>ar_approvals := ar_approvals r @ [vote]\<rparr>)\<rparr>"
    using app [folded vote_def] unfolding eligible_def dup by (force split: if_split_asm)
  then show thesis
  proof cases
    case 1
    with app show thesis by (intro expired [of dual_control_expired]) auto
  next
    case 2
    then show thesis by (auto intro: refused)
  next
    case (3 b)
    show thesis by (rule voted [OF Some 3(1) _ 3(2-4)]) (simp add: vote_def)
  qed
qed

lemma queue_ok_fewer:
  assumes ok: "queue_ok ops req R" and sub: "p \<subseteq>\<^sub>m aq_pending (the_queue R)"
  shows "queue_ok ops req (R\<lparr>the_queue := (the_queue R)\<lparr>aq_pending := p\<rparr>\<rparr>)"
proof -
  have some: "aq_pending (the_queue R) k = Some r" if "p k = Some r" for k r
    using that sub by (metis domI map_le_def)
  have none: "p k = None" if "aq_pending (the_queue R) k = None" for k
    using that some by (cases "p k") fastforce+
  show ?thesis
    unfolding queue_ok_def
    by (intro conjI allI impI) (simp_all add: queue_okD [OF ok] none, (metis some queue_okD(5,6,8) [OF ok])+)
qed

lemma evict_fewer: "map_retain P m \<subseteq>\<^sub>m m"
  by (auto simp: map_le_def map_retain_def split: option.splits if_splits)

lemma evict_expired_requests_ok:
  assumes "queue_ok ops req R"
  shows "queue_ok ops req (R\<lparr>the_queue := evict_expired_requests (the_queue R) now\<rparr>)"
  unfolding evict_expired_requests_def by (rule queue_ok_fewer [OF assms evict_fewer])

lemma queue_ok_issued: "queue_ok ops req R \<Longrightarrow> queue_ok ops req (R\<lparr>issued := insert x (issued R)\<rparr>)"
  unfolding queue_ok_def by simp

lemma queue_ok_insert:
  assumes ok: "queue_ok ops req R" and new: "rid \<notin> issued R" and r: "request_ok ops req {} rid r"
  shows "queue_ok ops req (R\<lparr>the_queue := (the_queue R)\<lparr>aq_pending := (aq_pending (the_queue R))(rid \<mapsto> r)\<rparr>,
    issued := insert rid (issued R)\<rparr>)"
proof -
  have "request_ok ops req (accepted_votes R) rid r" by (rule request_ok_more_votes [OF r]) simp
  moreover have "(rid, t) \<notin> between R" "(t, r') \<in> set (consumed R) \<Longrightarrow> ar_id r' \<noteq> rid" for t r'
    using queue_okD(7,9) [OF ok] new by metis+
  ultimately show ?thesis
    unfolding queue_ok_def by (intro conjI allI impI) (auto simp: queue_okD [OF ok] split: if_splits)
qed

lemma request_step_ok:
  assumes ok: "queue_ok ops req R" and new: "rid \<notin> issued R"
    and call: "request_approval (the_queue R) secs rid t_evict now tick op handle who = (q, res)"
  shows "queue_ok ops req (R\<lparr>the_queue := q, issued := insert rid (issued R)\<rparr>)"
proof (cases "op \<notin> ops \<or> id_missing (si_user_id who)")
  case True
  then have "q = the_queue R" using call ok by (auto simp: request_approval_def queue_ok_def split: if_splits)
  then show ?thesis using queue_ok_issued [OF ok, of rid] by simp
next
  case False
  define R1 where "R1 = R\<lparr>the_queue := evict_expired_requests (the_queue R) t_evict\<rparr>"
  have ok1: "queue_ok ops req R1" unfolding R1_def by (rule evict_expired_requests_ok [OF ok])
  define r where "r = \<lparr>ar_id = rid, ar_operation = op, ar_object_handle = handle,
    ar_requester_user_id = si_user_id who, ar_requester_tenant_id = si_tenant_id who, ar_created_at = now,
    ar_expires_at = now + aq_timeout_secs (the_queue R), ar_expires_at_mono = tick + secs (aq_timeout_secs (the_queue R)),
    ar_approvals = [], ar_required_approvals = aq_required_approvals (the_queue R)\<rparr>"
  have conf: "aq_dual_control_operations (the_queue R) = ops" "aq_required_approvals (the_queue R) = req"
    using ok by (simp_all add: queue_ok_def)
  have q: "q = (the_queue R1)\<lparr>aq_pending := (aq_pending (the_queue R1))(rid \<mapsto> r)\<rparr>"
    using call False unfolding request_approval_def Let_def r_def conf by (auto simp: R1_def)
  have "request_ok ops req {} rid r" using False by (simp add: request_ok_def r_def conf)
  from queue_ok_insert [OF ok1 _ this] new show ?thesis unfolding q by (simp add: R1_def)
qed

lemma eligible_approvals [simp]: "eligible (r\<lparr>ar_approvals := vs\<rparr>) = eligible r"
  by (simp add: fun_eq_iff eligible_def)

lemma request_ok_voted:
  assumes "request_ok ops req votes rid r" and "eligible r who" and "av_approver_user_id v = si_user_id who"
    and "si_user_id who \<notin> av_approver_user_id ` set (ar_approvals r)"
  shows "request_ok ops req (insert (rid, who) votes) rid (r\<lparr>ar_approvals := ar_approvals r @ [v]\<rparr>)"
  unfolding request_ok_def
  using assms(2-4) request_ok_more_votes [OF assms(1), of "insert (rid, who) votes"] unfolding request_ok_def
  by (auto simp del: insert_iff intro: insertI1)

lemma vote_step_ok:
  assumes ok: "queue_ok ops req R" and call: "approve (the_queue R) tick now rid who = (q, res)"
  shows "queue_ok ops req (R\<lparr>the_queue := q,
    accepted_votes := (case res of Inr _ \<Rightarrow> insert (rid, who) (accepted_votes R) | Inl _ \<Rightarrow> accepted_votes R)\<rparr>)"
  using call queue_okD(3) [OF ok]
proof (cases rule: approve_cases)
  case (refused e)
  then show ?thesis using ok by simp
next
  case (expired e)
  have "(aq_pending (the_queue R))(rid := None) \<subseteq>\<^sub>m aq_pending (the_queue R)" by (simp add: map_le_def)
  from queue_ok_fewer [OF ok this] expired show ?thesis by simp
next
  case (voted r v b)
  define r' where "r' = r\<lparr>ar_approvals := ar_approvals r @ [v]\<rparr>"
  have r': "request_ok ops req (insert (rid, who) (accepted_votes R)) rid r'"
    unfolding r'_def by (rule request_ok_voted [OF queue_okD(6) [OF ok voted(1)] voted(2-4)])
  have more_votes: "request_ok ops req (insert (rid, who) (accepted_votes R)) k x"
    if "request_ok ops req (accepted_votes R) k x" for k x
    by (rule request_ok_more_votes [OF that]) auto
  have len: "consumable req t r'" if "(rid, t) \<in> between R" for t
    using queue_okD(8) [OF ok that voted(1)] by (simp add: consumable_def r'_def)
  have gone: "ar_id x \<noteq> rid" if "(t, x) \<in> set (consumed R)" for t x
    using queue_okD(10) [OF ok that] voted(1) by auto
  have mine: "rid \<in> issued R" by (rule queue_okD(5) [OF ok voted(1)])
  show ?thesis
    unfolding voted(5,6) sum.case r'_def [symmetric] queue_ok_def
    by (intro conjI allI impI)
      (auto simp: queue_okD [OF ok] r' more_votes len gone mine dest: gone split: if_splits)
qed

lemma peek_step_ok:
  assumes ok: "queue_ok ops req R" and look: "consume_peek (the_queue R) tick rid = Inr ()"
  shows "queue_ok ops req (R\<lparr>between := insert (rid, tick) (between R)\<rparr>)"
proof -
  obtain r where r: "aq_pending (the_queue R) rid = Some r" "\<not> is_expired r tick" "is_fully_approved r"
    using look by (auto simp: consume_peek_def split: option.splits if_splits)
  have "ar_required_approvals r = req" using queue_okD(6) [OF ok r(1)] by (simp add: request_ok_def)
  then have "consumable req tick r"
    using r(2) fully_approved_length [OF r(3)] by (simp add: consumable_def is_expired_def)
  then show ?thesis
    unfolding queue_ok_def
    using queue_okD(5) [OF ok r(1)] r(1) by (intro conjI allI impI) (auto simp: queue_okD [OF ok])
qed

lemma take_step_ok:
  assumes ok: "queue_ok ops req R" and mid: "(rid, tick) \<in> between R"
    and call: "consume_remove (the_queue R) rid = (q, res)"
  shows "queue_ok ops req (R\<lparr>the_queue := q,
    consumed := (case res of Inr r \<Rightarrow> consumed R @ [(tick, r)] | Inl _ \<Rightarrow> consumed R)\<rparr>)"
proof (cases "aq_pending (the_queue R) rid")
  case None
  then show ?thesis using ok call by (auto simp: consume_remove_def)
next
  case (Some r)
  then have q: "q = (the_queue R)\<lparr>aq_pending := (aq_pending (the_queue R))(rid := None)\<rparr>" and res: "res = Inr r"
    using call by (auto simp: consume_remove_def)
  have r: "request_ok ops req (accepted_votes R) rid r" by (rule queue_okD(6) [OF ok Some])
  then have id: "ar_id r = rid" by (simp add: request_ok_def)
  have new: "rid \<notin> (ar_id \<circ> snd) ` set (consumed R)"
    using queue_okD(10) [OF ok] Some by (force simp: image_iff)
  have mine: "rid \<in> issued R" "consumable req tick r"
    by (rule queue_okD(5) [OF ok Some], rule queue_okD(8) [OF ok mid Some])
  show ?thesis
    unfolding res sum.case q queue_ok_def
    by (intro conjI allI impI)
      (use new in \<open>auto simp: queue_okD [OF ok] r id mine intro: queue_okD [OF ok] split: if_splits\<close>)
qed

lemma queue_step_ok: "queue_step R R' \<Longrightarrow> queue_ok ops req R \<Longrightarrow> queue_ok ops req R'"
proof (induction rule: queue_step.induct)
  case (listing R now q rs)
  then show ?case using evict_expired_requests_ok [of ops req R now] by (auto simp: list_pending_def Let_def)
qed (erule (2) request_step_ok vote_step_ok take_step_ok | erule (1) vote_step_ok peek_step_ok)+

lemma queue_reachable_ok:
  assumes "queue_step\<^sup>*\<^sup>* (queue_start ops required timeout) R"
  shows "queue_ok ops (max required 2) R"
  using assms
proof (induction rule: rtranclp_induct)
  case base
  show ?case by (simp add: queue_ok_def queue_start_def queue_new_def)
qed (rule queue_step_ok)

section \<open>Dual control\<close>

text \<open>
  C27: dual control holds in every run.  Whatever callers do, in whatever order, a consumed
  request is for an operation under dual control, had not expired when it was looked at, and
  carries accepted approvals of at least two, and at least the configured number of,
  different users.  None of them is the requester, all have a usable identifier, an approving
  role and the tenant of the requester.  No request is consumed twice, even by callers that
  were between looking and removing at the same time.
\<close>

theorem dual_control_enforced:
  assumes "queue_step\<^sup>*\<^sup>* (queue_start operations required timeout_secs) R" and "(t, r) \<in> set (consumed R)"
  shows "ar_operation r \<in> operations \<and> t < ar_expires_at_mono r \<and> \<not> id_missing (ar_requester_user_id r) \<and>
    (\<exists>us. distinct us \<and> unat (max required 2) \<le> length us \<and>
       set us \<subseteq> si_user_id ` {who. (ar_id r, who) \<in> accepted_votes R \<and> eligible r who}) \<and>
    distinct (map (ar_id \<circ> snd) (consumed R))"
proof -
  have ok: "queue_ok operations (max required 2) R" by (rule queue_reachable_ok [OF assms(1)])
  have r: "request_ok operations (max required 2) (accepted_votes R) (ar_id r) r" "consumable (max required 2) t r"
    by (rule queue_okD(11,12) [OF ok assms(2)])+
  have "set (map av_approver_user_id (ar_approvals r)) \<subseteq> si_user_id ` {who. (ar_id r, who) \<in> accepted_votes R \<and> eligible r who}"
    using r(1) unfolding request_ok_def by (auto simp: image_iff) metis
  then show ?thesis
    using r queue_okD(4) [OF ok] unfolding request_ok_def consumable_def
    by (intro conjI exI [of _ "map av_approver_user_id (ar_approvals r)"]) auto
qed

lemma approve_eligible:
  assumes "aq_pending q rid = Some r" and "tick < ar_expires_at_mono r"
    and "aq_allowed_approver_roles q = default_approver_roles"
    and "\<not> id_missing (ar_requester_user_id r)" and "eligible r who"
    and "si_user_id who \<notin> av_approver_user_id ` set (ar_approvals r)"
  shows "fst (approve q tick now rid who) = q\<lparr>aq_pending := (aq_pending q)(rid \<mapsto> r\<lparr>ar_approvals :=
     ar_approvals r @ [\<lparr>av_approver_user_id = si_user_id who, av_timestamp = now\<rparr>]\<rparr>)\<rparr>"
  using assms
  by (auto simp: approve_def is_expired_def eligible_def default_approver_roles_def Let_def list_ex_iff image_iff)

text \<open>Approvals cast one after the other, each with its clock readings.\<close>

definition approve_all :: "string \<Rightarrow> (SessionIdentity \<times> nat \<times> u64) list \<Rightarrow> ApprovalQueue \<Rightarrow> ApprovalQueue" where
  "approve_all rid votes q = fold (\<lambda>(who, tick, now) q. fst (approve q tick now rid who)) votes q"

lemma approve_all_accumulates:
  assumes "aq_pending q rid = Some r" and "aq_allowed_approver_roles q = default_approver_roles"
    and "\<not> id_missing (ar_requester_user_id r)"
    and "list_all (\<lambda>(who, tick, now). eligible r who \<and> tick < ar_expires_at_mono r) votes"
    and "distinct (map av_approver_user_id (ar_approvals r) @ map (si_user_id \<circ> fst) votes)"
  shows "aq_pending (approve_all rid votes q) rid = Some (r\<lparr>ar_approvals := ar_approvals r @
    map (\<lambda>(who, tick, now). \<lparr>av_approver_user_id = si_user_id who, av_timestamp = now\<rparr>) votes\<rparr>)"
  using assms
proof (induction votes arbitrary: q r)
  case Nil
  then show ?case by (simp add: approve_all_def)
next
  case (Cons x votes)
  obtain who tick now where x: "x = (who, tick, now)" by (cases x)
  define r1 where "r1 = r\<lparr>ar_approvals := ar_approvals r @ [\<lparr>av_approver_user_id = si_user_id who, av_timestamp = now\<rparr>]\<rparr>"
  define q1 where "q1 = fst (approve q tick now rid who)"
  have q1: "q1 = q\<lparr>aq_pending := (aq_pending q)(rid \<mapsto> r1)\<rparr>"
    unfolding q1_def r1_def by (rule approve_eligible) (use Cons.prems x in \<open>auto simp: image_iff\<close>)
  have "aq_pending (approve_all rid votes q1) rid = Some (r1\<lparr>ar_approvals := ar_approvals r1 @
    map (\<lambda>(who, tick, now). \<lparr>av_approver_user_id = si_user_id who, av_timestamp = now\<rparr>) votes\<rparr>)"
    by (rule Cons.IH) (use Cons.prems x in \<open>auto simp: q1 r1_def\<close>)
  then show ?case by (simp add: approve_all_def x q1_def r1_def)
qed

text \<open>
  C28: enough approvals let the operation through.  After a request is filed, as many
  eligible users as are required approve it, in any order and before the deadline; the
  request can then be consumed until the deadline, with exactly these approvals, and is gone
  from the queue.
\<close>

theorem dual_control_completes:
  assumes "request_approval q secs rid t_evict now tick op handle requester = (q1, Inr rid)"
    and "aq_allowed_approver_roles q = default_approver_roles"
    and "distinct (map (si_user_id \<circ> fst) votes)" and "length votes = unat (aq_required_approvals q)"
    and "\<forall>who tk w. (who, tk, w) \<in> set votes \<longrightarrow> tk < tick + secs (aq_timeout_secs q) \<and>
      si_role who \<in> {User, So, KeyManager} \<and> \<not> id_missing (si_user_id who) \<and>
      si_user_id who \<noteq> si_user_id requester \<and> si_tenant_id who = si_tenant_id requester"
    and "t < tick + secs (aq_timeout_secs q)"
  shows "\<exists>q2 r. consume_approved (approve_all rid votes q1) t rid = (q2, Inr r) \<and> aq_pending q2 rid = None \<and>
    ar_operation r = op \<and> ar_object_handle r = handle \<and>
    map av_approver_user_id (ar_approvals r) = map (si_user_id \<circ> fst) votes"
proof -
  have "snd (request_approval q secs rid t_evict now tick op handle requester) = Inl operation_denied"
    if "op \<notin> aq_dual_control_operations q \<or> id_missing (si_user_id requester)"
    using that by (auto simp: request_approval_def)
  with assms(1) have cond: "op \<in> aq_dual_control_operations q" "\<not> id_missing (si_user_id requester)"
    by (metis Inl_Inr_False snd_conv)+
  define r where "r = \<lparr>ar_id = rid, ar_operation = op, ar_object_handle = handle,
    ar_requester_user_id = si_user_id requester, ar_requester_tenant_id = si_tenant_id requester, ar_created_at = now,
    ar_expires_at = now + aq_timeout_secs q, ar_expires_at_mono = tick + secs (aq_timeout_secs q),
    ar_approvals = [], ar_required_approvals = aq_required_approvals q\<rparr>"
  define e where "e = evict_expired_requests q t_evict"
  have e: "aq_allowed_approver_roles e = default_approver_roles"
    using assms(2) by (simp add: e_def evict_expired_requests_def)
  have "q1 = e\<lparr>aq_pending := (aq_pending e)(rid \<mapsto> r)\<rparr>"
    using assms(1) cond unfolding request_approval_def Let_def r_def e_def by simp
  with e have q1: "aq_pending q1 rid = Some r" "aq_allowed_approver_roles q1 = default_approver_roles" by simp_all
  define r' where "r' = r\<lparr>ar_approvals :=
    map (\<lambda>(who, tick, now). \<lparr>av_approver_user_id = si_user_id who, av_timestamp = now\<rparr>) votes\<rparr>"
  have "list_all (\<lambda>(who, tk, w). eligible r who \<and> tk < ar_expires_at_mono r) votes"
    using assms(5) by (auto simp: list_all_iff eligible_def r_def)
  then have pending: "aq_pending (approve_all rid votes q1) rid = Some r'"
    using approve_all_accumulates [OF q1, of votes] cond(2) assms(3) by (simp add: r_def r'_def)
  have "is_fully_approved r'" "\<not> is_expired r' t"
    using assms(4,6) by (simp_all add: is_fully_approved_def is_expired_def r'_def r_def)
  then have "consume_approved (approve_all rid votes q1) t rid =
      ((approve_all rid votes q1)\<lparr>aq_pending := (aq_pending (approve_all rid votes q1))(rid := None)\<rparr>, Inr r')"
    by (simp add: consume_approved_def consume_peek_def consume_remove_def pending)
  then show ?thesis by (simp add: r'_def r_def comp_def case_prod_unfold)
qed

definition alice :: SessionIdentity where
  "alice = \<lparr>si_role = KeyManager, si_user_id = Some ''alice'', si_tenant_id = Some ''t1'', si_auth_method = Ldap\<rparr>"

definition bob :: SessionIdentity where
  "bob = \<lparr>si_role = So, si_user_id = Some ''bob'', si_tenant_id = Some ''t1'', si_auth_method = Pin\<rparr>"

definition carol :: SessionIdentity where
  "carol = \<lparr>si_role = User, si_user_id = Some ''carol'', si_tenant_id = Some ''t1'', si_auth_method = Oidc\<rparr>"

definition filed :: ApprovalQueue where
  "filed = fst (request_approval (queue_new {DestroyObject} 1 300) unat ''r1'' 0 1000 50 DestroyObject (Some 7) alice)"

lemma names_present [simp]:
  "\<not> id_missing (Some ''alice'')" "\<not> id_missing (Some ''bob'')" "\<not> id_missing (Some ''carol'')"
  by (simp_all add: id_missing_def trim_graphic as_bytes_def of_char_def graphic_def)

theorem dual_control_completes_witness:
  "\<exists>q2 r. consume_approved (approve_all ''r1'' [(bob, 60, 1010), (carol, 70, 1020)] filed) 80 ''r1'' = (q2, Inr r) \<and>
     aq_pending q2 ''r1'' = None \<and> ar_operation r = DestroyObject \<and> ar_object_handle r = Some 7 \<and>
     map av_approver_user_id (ar_approvals r) = [Some ''bob'', Some ''carol'']"
  using dual_control_completes [of "queue_new {DestroyObject} 1 300" unat "''r1''" 0 1000 50 DestroyObject "Some 7" alice
      filed "[(bob, 60, 1010), (carol, 70, 1020)]" 80]
  by (auto simp: filed_def request_approval_def queue_new_def alice_def bob_def carol_def Let_def max_def)

text \<open>A run in which the request is filed, approved twice and consumed.\<close>

definition voted_once :: ApprovalQueue where
  "voted_once = fst (approve filed 60 1010 ''r1'' bob)"

definition voted_twice :: ApprovalQueue where
  "voted_twice = fst (approve voted_once 70 1020 ''r1'' carol)"

definition example_request :: ApprovalRequest where
  "example_request = the (aq_pending voted_twice ''r1'')"

definition example_run :: QueueRun where
  "example_run = \<lparr>the_queue = fst (consume_remove voted_twice ''r1''), issued = {''r1''},
     accepted_votes = {(''r1'', carol), (''r1'', bob)}, between = {(''r1'', 80)}, consumed = [(80, example_request)]\<rparr>"

lemmas example_simps = filed_def request_approval_def queue_new_def alice_def bob_def carol_def Let_def max_def
  default_approver_roles_def evict_expired_requests_def map_retain_def

lemma filed_eq: "request_approval (queue_new {DestroyObject} 1 300) unat ''r1'' 0 1000 50 DestroyObject (Some 7) alice =
    (filed, Inr ''r1'')"
  by (simp add: example_simps)

lemma voted_eq:
  "approve filed 60 1010 ''r1'' bob = (voted_once, Inr False)"
  "approve voted_once 70 1020 ''r1'' carol = (voted_twice, Inr True)"
  "consume_peek voted_twice 80 ''r1'' = Inr ()"
  "consume_remove voted_twice ''r1'' = (the_queue example_run, Inr example_request)"
  by (simp_all add: voted_twice_def voted_once_def approve_def example_simps is_expired_def is_fully_approved_def
      consume_peek_def example_run_def consume_remove_def example_request_def word_le_nat_alt)

lemma example_run_reachable: "queue_step\<^sup>*\<^sup>* (queue_start {DestroyObject} 1 300) example_run"
proof -
  define R0 where "R0 = queue_start {DestroyObject} 1 300"
  define R1 where "R1 = R0\<lparr>the_queue := filed, issued := {''r1''}\<rparr>"
  define R2 where "R2 = R1\<lparr>the_queue := voted_once, accepted_votes := {(''r1'', bob)}\<rparr>"
  define R3 where "R3 = R2\<lparr>the_queue := voted_twice, accepted_votes := {(''r1'', carol), (''r1'', bob)}\<rparr>"
  define R4 where "R4 = R3\<lparr>between := {(''r1'', 80)}\<rparr>"
  note defs = R0_def R1_def R2_def R3_def R4_def queue_start_def
  have 1: "queue_step R0 R1"
    using queue_step.request [of "''r1''" R0 unat 0 1000 50 DestroyObject "Some 7" alice filed "Inr ''r1''"] filed_eq
    by (simp add: defs)
  have 2: "queue_step R1 R2"
    using queue_step.vote [of R1 60 1010 "''r1''" bob voted_once "Inr False"] voted_eq(1) by (simp add: defs)
  have 3: "queue_step R2 R3"
    using queue_step.vote [of R2 70 1020 "''r1''" carol voted_twice "Inr True"] voted_eq(2) by (simp add: defs)
  have 4: "queue_step R3 R4"
    using queue_step.peek [of R3 80 "''r1''"] voted_eq(3) by (simp add: defs)
  have 5: "queue_step R4 example_run"
  proof -
    have "queue_step R4 (R4\<lparr>the_queue := the_queue example_run, consumed := [(80, example_request)]\<rparr>)"
      using queue_step.take [of "''r1''" 80 R4 "the_queue example_run" "Inr example_request"] voted_eq(4)
      by (simp add: defs)
    moreover have "R4\<lparr>the_queue := the_queue example_run, consumed := [(80, example_request)]\<rparr> = example_run"
      by (simp add: defs example_run_def)
    ultimately show ?thesis by simp
  qed
  show ?thesis
    unfolding R0_def [symmetric]
    using r_into_rtranclp [of queue_step, OF 1] 2 3 4 5 rtranclp.rtrancl_into_rtrancl [of queue_step R0] by iprover
qed

theorem dual_control_enforced_witness:
  "\<exists>us. distinct us \<and> 2 \<le> length us \<and>
     set us \<subseteq> si_user_id ` {who. (ar_id example_request, who) \<in> accepted_votes example_run \<and> eligible example_request who}"
  using dual_control_enforced [OF example_run_reachable, of 80 example_request]
  by (simp add: example_run_def max_def)

text \<open>
  Requests are evicted by the wall clock although \<open>expires_at\<close> is documented as used for
  audit only: after the wall clock steps ahead, a listing drops a request whose monotonic
  deadline is far away.
\<close>

theorem wall_clock_step_drops_request:
  "aq_pending filed ''r1'' \<noteq> None \<and> \<not> is_expired (the (aq_pending filed ''r1'')) 60 \<and>
   aq_pending (fst (list_pending filed 1300)) ''r1'' = None"
  by (simp add: example_simps is_expired_def list_pending_def)

section \<open>Roles\<close>

text \<open>
  the policy in force without configuration.  An enabled engine lets a caller through
  exactly when the caller is logged in and the role has the operation, on a key with the
  default list only for the three roles in it; without login the error says so.  Key management
  and use are separated: the two roles share no operation, together they have what a user
  has, and neither the security officer nor the auditor has any of it.
\<close>

theorem default_policy:
  "(check_permission (policy_new True) who op None = Inr () \<longleftrightarrow>
      (\<exists>i. who = Some i \<and> op \<in> default_permissions (si_role i))) \<and>
   (check_permission (policy_new True) who op (Some default_key_acl) = Inr () \<longleftrightarrow>
      (\<exists>i. who = Some i \<and> si_role i \<in> {User, KeyManager, Operator} \<and> op \<in> default_permissions (si_role i))) \<and>
   (check_permission (policy_new True) who op acl = Inl UserNotLoggedIn \<longleftrightarrow> who = None) \<and>
   default_permissions KeyManager \<inter> default_permissions Operator = {} \<and>
   default_permissions KeyManager \<union> default_permissions Operator = default_permissions User \<and>
   (default_permissions So \<union> default_permissions Auditor) \<inter> default_permissions User = {}"
proof -
  have perms: "pe_default_permissions (policy_new b) role = Some (default_permissions role)" for b role
    by (cases role) (simp_all add: policy_new_def)
  have on: "pe_enabled (policy_new True)" by (simp add: policy_new_def)
  have none: "check_permission (policy_new True) who op None = Inr () \<longleftrightarrow>
      (\<exists>i. who = Some i \<and> op \<in> default_permissions (si_role i))"
    by (auto simp: check_permission_def on perms Let_def split: option.split)
  have "is_allowed default_key_acl role op \<longleftrightarrow> role \<in> {User, KeyManager, Operator} \<and> op \<in> default_permissions role" for role
    by (auto simp: is_allowed_def default_key_acl_def)
  then have acl: "check_permission (policy_new True) who op (Some default_key_acl) = Inr () \<longleftrightarrow>
      (\<exists>i. who = Some i \<and> si_role i \<in> {User, KeyManager, Operator} \<and> op \<in> default_permissions (si_role i))"
    by (auto simp: check_permission_def on Let_def split: option.split)
  have login: "check_permission (policy_new True) who op acl = Inl UserNotLoggedIn \<longleftrightarrow> who = None"
    by (auto simp: check_permission_def on Let_def operation_denied_def split: option.split)
  show ?thesis
    by (intro conjI none acl login) (auto simp: default_permissions_def)
qed

section \<open>Session identities\<close>

lemma colon_split: "xs @ CHR '':'' # ys = xs' @ CHR '':'' # ys' \<Longrightarrow> CHR '':'' \<notin> set xs \<Longrightarrow> CHR '':'' \<notin> set xs' \<Longrightarrow> xs = xs'"
  by (induction xs arbitrary: xs') (case_tac xs', auto)+

text \<open>
  Sessions count as different people.  Two PKCS\#11 sessions with different handles have
  different user identifiers, whatever random bytes they drew; one session keeps its
  identifier.  The handle is readable in the identifier, which the comment on the random
  suffix means to avoid.
\<close>

theorem pkcs11_users_distinct:
  "(si_user_id (snd (pkcs11_user hex cache f h)) = si_user_id (snd (pkcs11_user hex cache' f' h')) \<longrightarrow> h = h') \<and>
   snd (pkcs11_user hex (fst (pkcs11_user hex cache f h)) f' h) = snd (pkcs11_user hex cache f h) \<and>
   (\<exists>suffix. si_user_id (snd (pkcs11_user hex cache f h)) = Some (''pkcs11:user:'' @ decimal (unat h) @ '':'' @ suffix))"
proof -
  have "h = h'" if "decimal (unat h) @ CHR '':'' # s = decimal (unat h') @ CHR '':'' # s'" for s s'
    using decimal_inject [OF colon_split [OF that colon_not_digit colon_not_digit]] by (simp add: word_unat_eq_iff)
  then show ?thesis
    by (auto simp: pkcs11_user_def pkcs11_random_suffix_for_def split: option.split)
qed

end
