(* ===== verification/Binary_Sign.thy ===== *)
theory Binary_Sign
  imports Rust_Strings
begin

text \<open>
  Signed binaries, \<open>craton-hsm-certified/src/binary_sign.rs\<close> with \<open>integrity.rs\<close> and
  \<open>hex_util.rs\<close>: the canonical encoding of the metadata, signing, embedding, parsing,
  verification and the rollback policy.  HMAC-SHA256, the constant-time comparison and the
  JSON parser are library code and enter as parameters.
\<close>

section \<open>Errors and constants\<close>

text \<open>The texts of \<open>HexDecode\<close> as data.\<close>

datatype HexProblem = OddLength nat | InvalidByteAt nat

datatype CertError =
    KeyTooShort nat nat
  | HmacMismatch
  | HexDecode HexProblem
  | Json
  | BadEnvelope string

definition FOOTER_MAGIC :: bytes where
  "FOOTER_MAGIC = as_bytes ''RHSMSIGN''"

definition FOOTER_VERSION :: u8 where
  "FOOTER_VERSION = 1"

definition TAG_LEN :: nat where
  "TAG_LEN = 32"

definition FIXED_FOOTER_OVERHEAD :: nat where
  "FIXED_FOOTER_OVERHEAD = length FOOTER_MAGIC + 1 + 8 + 4 + TAG_LEN"

definition MAX_META_LEN :: nat where
  "MAX_META_LEN = 2 ^ 20"

record BinaryMetadata =
  module_version :: string
  build_timestamp :: string
  git_commit :: string
  hmac_key_id :: string
  integrity_tag :: string

section \<open>Hexadecimal digits\<close>

definition HEX_CHARS :: bytes where
  "HEX_CHARS = as_bytes ''0123456789abcdef''"

definition HEX_REVERSE :: "u8 \<Rightarrow> u8" where
  "HEX_REVERSE c =
     (if 0x30 \<le> c \<and> c \<le> 0x39 then c - 0x30
      else if 0x61 \<le> c \<and> c \<le> 0x66 then 10 + (c - 0x61)
      else if 0x41 \<le> c \<and> c \<le> 0x46 then 10 + (c - 0x41)
      else 0xFF)"

definition hex_digits :: "u8 \<Rightarrow> bytes" where
  "hex_digits b = [HEX_CHARS ! unat (drop_bit 4 b), HEX_CHARS ! unat (and b 0x0F)]"

definition to_string :: "bytes \<Rightarrow> string" where
  "to_string bs = map (\<lambda>b. char_of (unat b)) bs"

definition hex_encode :: "bytes \<Rightarrow> string" where
  "hex_encode bs = to_string (concat (map hex_digits bs))"

text \<open>The decoding loop, at offset \<open>i\<close>; the length is even.\<close>

fun hex_decode_from :: "nat \<Rightarrow> bytes \<Rightarrow> CertError + bytes" where
  "hex_decode_from i (h # l # rest) =
     (let hi = HEX_REVERSE h; lo = HEX_REVERSE l in
      if hi = 0xFF \<or> lo = 0xFF then Inl (HexDecode (InvalidByteAt i))
      else map_sum id (\<lambda>out. or (push_bit 4 hi) lo # out) (hex_decode_from (i + 2) rest))"
| "hex_decode_from i _ = Inr []"

definition hex_decode :: "string \<Rightarrow> CertError + bytes" where
  "hex_decode hex =
     (let bytes = as_bytes hex in
      if length bytes mod 2 \<noteq> 0 then Inl (HexDecode (OddLength (length bytes))) else hex_decode_from 0 bytes)"

definition short_hex :: "bytes \<Rightarrow> nat \<Rightarrow> string" where
  "short_hex bytes max_chars =
     (let full = hex_encode bytes in if length full \<le> max_chars then full else take max_chars full)"

definition nibble_from_ascii :: "u8 \<Rightarrow> u8 option" where
  "nibble_from_ascii b =
     (if 0x30 \<le> b \<and> b \<le> 0x39 then Some (b - 0x30)
      else if 0x61 \<le> b \<and> b \<le> 0x66 then Some (b - 0x61 + 10)
      else if 0x41 \<le> b \<and> b \<le> 0x46 then Some (b - 0x41 + 10)
      else None)"

fun decode_tag_bytes :: "bytes \<Rightarrow> CertError + bytes" where
  "decode_tag_bytes (h # l # rest) =
     (case nibble_from_ascii h of
        None \<Rightarrow> Inl (BadEnvelope ''integrity_tag contains non-hex byte'')
      | Some hi \<Rightarrow>
         (case nibble_from_ascii l of
            None \<Rightarrow> Inl (BadEnvelope ''integrity_tag contains non-hex byte'')
          | Some lo \<Rightarrow> map_sum id (\<lambda>out. or (push_bit 4 hi) lo # out) (decode_tag_bytes rest)))"
| "decode_tag_bytes _ = Inr []"

definition hex_decode_tag :: "string \<Rightarrow> CertError + bytes" where
  "hex_decode_tag hex =
     (let bytes = as_bytes hex in
      if length bytes \<noteq> TAG_LEN * 2 then Inl (BadEnvelope ''integrity_tag must be 32 bytes'')
      else decode_tag_bytes bytes)"

section \<open>Canonical metadata\<close>

text \<open>
  The escape of one byte of a string.  The source goes over characters; beyond ASCII it
  writes the character's UTF-8 bytes, so going over the bytes is the same.
\<close>

definition json_escape :: "u8 \<Rightarrow> bytes" where
  "json_escape b =
     (if b = 0x22 then [0x5C, 0x22]
      else if b = 0x5C then [0x5C, 0x5C]
      else if b = 0x0A then [0x5C, 0x6E]
      else if b = 0x0D then [0x5C, 0x72]
      else if b = 0x09 then [0x5C, 0x74]
      else if b = 0x08 then [0x5C, 0x62]
      else if b = 0x0C then [0x5C, 0x66]
      else if b < 0x20 then [0x5C, 0x75, 0x30, 0x30] @ hex_digits b
      else [b])"

definition json_encode_string :: "bytes \<Rightarrow> string \<Rightarrow> bytes" where
  "json_encode_string out s = out @ [0x22] @ concat (map json_escape (as_bytes s)) @ [0x22]"

text \<open>The canonical keys in their order, each with what its match arm yields.\<close>

definition canonical_fields :: "BinaryMetadata \<Rightarrow> (string \<times> string) list" where
  "canonical_fields meta =
     [(''build_timestamp'', build_timestamp meta), (''git_commit'', git_commit meta),
      (''hmac_key_id'', hmac_key_id meta), (''integrity_tag'', ''''), (''module_version'', module_version meta)]"

fun write_fields :: "nat \<Rightarrow> (string \<times> string) list \<Rightarrow> bytes \<Rightarrow> bytes" where
  "write_fields i [] out = out"
| "write_fields i ((key, val) # rest) out =
     write_fields (Suc i) rest
       (json_encode_string ((if i > 0 then out @ [0x2C] else out) @ [0x22] @ as_bytes key @ [0x22, 0x3A]) val)"

definition canonical_meta_json :: "BinaryMetadata \<Rightarrow> bytes" where
  "canonical_meta_json meta = write_fields 0 (canonical_fields meta) [0x7B] @ [0x7D]"

section \<open>Integrity tags\<close>

definition MIN_HMAC_KEY_BYTES :: nat where
  "MIN_HMAC_KEY_BYTES = 32"

definition HMAC_SHA256_TAG_LEN :: nat where
  "HMAC_SHA256_TAG_LEN = 32"

text \<open>The library code: the tag of a key and a message, equality in constant time, and the JSON parser.\<close>

record SignEnv =
  hmac_sign :: "bytes \<Rightarrow> bytes \<Rightarrow> bytes"
  slices_equal :: "bytes \<Rightarrow> bytes \<Rightarrow> bool"
  json_from_slice :: "bytes \<Rightarrow> BinaryMetadata option"

definition make_key :: "bytes \<Rightarrow> CertError + bytes" where
  "make_key key = (if length key < MIN_HMAC_KEY_BYTES then Inl (KeyTooShort (length key) MIN_HMAC_KEY_BYTES) else Inr key)"

definition compute_hmac_sha256 :: "SignEnv \<Rightarrow> bytes \<Rightarrow> bytes \<Rightarrow> CertError + bytes" where
  "compute_hmac_sha256 env key data = (case make_key key of Inl e \<Rightarrow> Inl e | Inr k \<Rightarrow> Inr (hmac_sign env k data))"

definition compute_hmac_sha256_parts :: "SignEnv \<Rightarrow> bytes \<Rightarrow> bytes list \<Rightarrow> CertError + bytes" where
  "compute_hmac_sha256_parts env key parts =
     (case make_key key of Inl e \<Rightarrow> Inl e | Inr k \<Rightarrow> Inr (hmac_sign env k (concat parts)))"

definition constant_time_verify_with_len_check :: "SignEnv \<Rightarrow> bytes \<Rightarrow> bytes \<Rightarrow> CertError + unit" where
  "constant_time_verify_with_len_check env computed expected =
     (if length expected = HMAC_SHA256_TAG_LEN then
        if slices_equal env computed expected then Inr () else Inl HmacMismatch
      else Inl HmacMismatch)"

definition verify_hmac_sha256_parts :: "SignEnv \<Rightarrow> bytes \<Rightarrow> bytes list \<Rightarrow> bytes \<Rightarrow> CertError + unit" where
  "verify_hmac_sha256_parts env key parts expected =
     (case compute_hmac_sha256_parts env key parts of
        Inl e \<Rightarrow> Inl e
      | Inr computed \<Rightarrow> constant_time_verify_with_len_check env computed expected)"

section \<open>Signing and embedding\<close>

definition u32_le_len :: "nat \<Rightarrow> bytes" where
  "u32_le_len n = le_bytes 4 (word_of_nat n :: u32)"

definition u64_le_len :: "nat \<Rightarrow> bytes" where
  "u64_le_len n = u64_le (word_of_nat n)"

definition sign_binary ::
  "SignEnv \<Rightarrow> bytes \<Rightarrow> bytes \<Rightarrow> string \<Rightarrow> string \<Rightarrow> string \<Rightarrow> string \<Rightarrow> CertError + BinaryMetadata" where
  "sign_binary env binary_data hmac_key version timestamp commit key_id =
     (let stub = \<lparr>module_version = version, build_timestamp = timestamp, git_commit = commit,
            hmac_key_id = key_id, integrity_tag = ''''\<rparr>;
          meta_json = canonical_meta_json stub;
          parts = [binary_data, FOOTER_MAGIC, [FOOTER_VERSION], u64_le_len (length binary_data), meta_json,
            u32_le_len (length meta_json)]
      in case compute_hmac_sha256_parts env hmac_key parts of
           Inl e \<Rightarrow> Inl e
         | Inr tag \<Rightarrow> Inr (stub\<lparr>integrity_tag := hex_encode tag\<rparr>))"

definition embed_metadata :: "bytes \<Rightarrow> BinaryMetadata \<Rightarrow> CertError + bytes" where
  "embed_metadata binary_data metadata =
     (let meta_json = canonical_meta_json metadata in
      case hex_decode_tag (integrity_tag metadata) of
        Inl e \<Rightarrow> Inl e
      | Inr tag \<Rightarrow> Inr (binary_data @ FOOTER_MAGIC @ [FOOTER_VERSION] @ u64_le_len (length binary_data) @ meta_json @
            u32_le_len (length meta_json) @ tag))"

definition sign_and_embed ::
  "SignEnv \<Rightarrow> bytes \<Rightarrow> bytes \<Rightarrow> string \<Rightarrow> string \<Rightarrow> string \<Rightarrow> string \<Rightarrow> CertError + bytes" where
  "sign_and_embed env binary_data hmac_key version timestamp commit key_id =
     (case sign_binary env binary_data hmac_key version timestamp commit key_id of
        Inl e \<Rightarrow> Inl e
      | Inr meta \<Rightarrow> embed_metadata binary_data meta)"

section \<open>Parsing and verification\<close>

record ParsedEnvelope =
  pe_original :: bytes
  pe_magic :: bytes
  pe_version :: u8
  pe_original_len_bytes :: bytes
  pe_meta_json :: bytes
  pe_meta_len_bytes :: bytes
  pe_tag :: bytes
  pe_metadata :: BinaryMetadata

definition parse_envelope :: "SignEnv \<Rightarrow> bytes \<Rightarrow> CertError + ParsedEnvelope" where
  "parse_envelope env signed_binary =
     (if length signed_binary < FIXED_FOOTER_OVERHEAD then Inl (BadEnvelope ''binary too short to contain envelope'')
      else
        let tag_start = length signed_binary - TAG_LEN;
            tag = drop tag_start signed_binary;
            meta_len_off = tag_start - 4;
            meta_len_bytes = take 4 (drop meta_len_off signed_binary);
            meta_len = unat (from_le_bytes meta_len_bytes :: u32)
        in if meta_len > MAX_META_LEN then Inl (BadEnvelope ''metadata length exceeds 1 MiB cap'')
        else if meta_len > meta_len_off then Inl (BadEnvelope ''metadata length exceeds envelope'')
        else
        let meta_json_off = meta_len_off - meta_len;
            meta_json = take meta_len (drop meta_json_off signed_binary)
        in if meta_json_off < 8 then Inl (BadEnvelope ''envelope truncated before original_len'')
        else
        let orig_len_off = meta_json_off - 8;
            orig_len_bytes = take 8 (drop orig_len_off signed_binary);
            original_len_u64 = (from_le_bytes orig_len_bytes :: u64)
        in if unat original_len_u64 > usize_max
           then Inl (BadEnvelope ''declared original length exceeds platform usize range'')
        else let original_len = unat original_len_u64
        in if orig_len_off < 1 then Inl (BadEnvelope ''envelope truncated before version'')
        else
        let version_off = orig_len_off - 1;
            version = signed_binary ! version_off
        in if version \<noteq> FOOTER_VERSION then Inl (BadEnvelope ''unsupported envelope version'')
        else if version_off < length FOOTER_MAGIC then Inl (BadEnvelope ''envelope truncated before magic'')
        else
        let magic_off = version_off - length FOOTER_MAGIC;
            magic = take (length FOOTER_MAGIC) (drop magic_off signed_binary)
        in if magic \<noteq> FOOTER_MAGIC then Inl (BadEnvelope ''footer magic bytes not found'')
        else if original_len \<noteq> magic_off
          then Inl (BadEnvelope ''declared original length does not match envelope offset'')
        else case json_from_slice env meta_json of
          None \<Rightarrow> Inl Json
        | Some metadata \<Rightarrow>
            Inr \<lparr>pe_original = take magic_off signed_binary, pe_magic = magic, pe_version = version,
              pe_original_len_bytes = orig_len_bytes, pe_meta_json = meta_json, pe_meta_len_bytes = meta_len_bytes,
              pe_tag = tag, pe_metadata = metadata\<lparr>integrity_tag := hex_encode tag\<rparr>\<rparr>)"

definition extract_metadata :: "SignEnv \<Rightarrow> bytes \<Rightarrow> CertError + BinaryMetadata" where
  "extract_metadata env signed_binary = map_sum id pe_metadata (parse_envelope env signed_binary)"

definition extract_original_binary :: "SignEnv \<Rightarrow> bytes \<Rightarrow> CertError + bytes" where
  "extract_original_binary env signed_binary = map_sum id pe_original (parse_envelope env signed_binary)"

definition envelope_parts :: "ParsedEnvelope \<Rightarrow> bytes list" where
  "envelope_parts p =
     [pe_original p, pe_magic p, [pe_version p], pe_original_len_bytes p, pe_meta_json p, pe_meta_len_bytes p]"

definition verify_signed_binary :: "SignEnv \<Rightarrow> bytes \<Rightarrow> bytes \<Rightarrow> CertError + unit" where
  "verify_signed_binary env signed_binary hmac_key =
     (case parse_envelope env signed_binary of
        Inl e \<Rightarrow> Inl e
      | Inr p \<Rightarrow>
          if canonical_meta_json (pe_metadata p) \<noteq> pe_meta_json p
          then Inl (BadEnvelope ''metadata JSON is not canonical'')
          else verify_hmac_sha256_parts env hmac_key (envelope_parts p) (pe_tag p))"

definition verify_and_extract :: "SignEnv \<Rightarrow> bytes \<Rightarrow> bytes \<Rightarrow> CertError + BinaryMetadata" where
  "verify_and_extract env signed_binary hmac_key =
     (case verify_signed_binary env signed_binary hmac_key of Inl e \<Rightarrow> Inl e | Inr _ \<Rightarrow> extract_metadata env signed_binary)"

section \<open>Rollback policy\<close>

datatype SemVerTriple = SemVerTriple u32 u32 u32

text \<open>The derived order compares the components from the left.\<close>

instantiation SemVerTriple :: linorder
begin

fun less_SemVerTriple :: "SemVerTriple \<Rightarrow> SemVerTriple \<Rightarrow> bool" where
  "SemVerTriple a b c < SemVerTriple a' b' c' \<longleftrightarrow> a < a' \<or> a = a' \<and> (b < b' \<or> b = b' \<and> c < c')"

definition less_eq_SemVerTriple :: "SemVerTriple \<Rightarrow> SemVerTriple \<Rightarrow> bool" where
  "v \<le> v' \<longleftrightarrow> v < v' \<or> v = (v' :: SemVerTriple)"

instance
proof
  fix u v w :: SemVerTriple
  show "u < v \<longleftrightarrow> u \<le> v \<and> \<not> v \<le> u" by (cases u; cases v) (auto simp: less_eq_SemVerTriple_def)
  show "u \<le> u" by (simp add: less_eq_SemVerTriple_def)
  show "u \<le> v \<Longrightarrow> v \<le> w \<Longrightarrow> u \<le> w" by (cases u; cases v; cases w) (auto simp: less_eq_SemVerTriple_def)
  show "u \<le> v \<Longrightarrow> v \<le> u \<Longrightarrow> u = v" by (cases u; cases v) (auto simp: less_eq_SemVerTriple_def)
  show "u \<le> v \<or> v \<le> u" by (cases u; cases v) (auto simp: less_eq_SemVerTriple_def)
qed

end

text \<open>\<open>str::split('.')\<close> and \<open>str::parse::<u32>\<close>.\<close>

fun split_dots :: "string \<Rightarrow> string list" where
  "split_dots [] = [[]]"
| "split_dots (c # cs) =
     (if c = CHR ''.'' then [] # split_dots cs
      else case split_dots cs of p # ps \<Rightarrow> (c # p) # ps | [] \<Rightarrow> [[c]])"

definition parse_u32 :: "string \<Rightarrow> u32 option" where
  "parse_u32 s = map_option word_of_nat (parse_unsigned (2 ^ 32) (as_bytes s))"

definition semver_parse :: "string \<Rightarrow> string + SemVerTriple" where
  "semver_parse s =
     (if CHR ''-'' \<in> set s \<or> CHR ''+'' \<in> set s
      then Inl ''module_version pre-release/build metadata is not supported by the rollback policy''
      else case split_dots s of
        [] \<Rightarrow> Inl ''module_version is empty''
      | major_str # parts \<Rightarrow>
        (case parse_u32 major_str of
           None \<Rightarrow> Inl ''module_version major is not a non-negative integer''
         | Some major \<Rightarrow>
           (case (case parts of [] \<Rightarrow> Some 0 | m # _ \<Rightarrow> parse_u32 m) of
              None \<Rightarrow> Inl ''module_version minor is not a non-negative integer''
            | Some minor \<Rightarrow>
              (case (case parts of _ # p # _ \<Rightarrow> parse_u32 p | _ \<Rightarrow> Some 0) of
                 None \<Rightarrow> Inl ''module_version patch is not a non-negative integer''
               | Some patch \<Rightarrow>
                   if length parts > 2 then Inl ''module_version has more than three components''
                   else Inr (SemVerTriple major minor patch)))))"

datatype RollbackPolicy = AnyVersion | AtLeast u32

definition verify_signed_binary_with_min_version ::
  "SignEnv \<Rightarrow> bytes \<Rightarrow> bytes \<Rightarrow> (u32 \<times> u32 \<times> u32) option \<Rightarrow> CertError + unit" where
  "verify_signed_binary_with_min_version env signed_binary hmac_key min_version =
     (case parse_envelope env signed_binary of
        Inl e \<Rightarrow> Inl e
      | Inr p \<Rightarrow>
          if canonical_meta_json (pe_metadata p) \<noteq> pe_meta_json p
          then Inl (BadEnvelope ''metadata JSON is not canonical'')
          else case verify_hmac_sha256_parts env hmac_key (envelope_parts p) (pe_tag p) of
            Inl e \<Rightarrow> Inl e
          | Inr _ \<Rightarrow>
             (case min_version of
                None \<Rightarrow> Inr ()
              | Some (min_major, min_minor, min_patch) \<Rightarrow>
                 (case semver_parse (module_version (pe_metadata p)) of
                    Inl _ \<Rightarrow> Inl (BadEnvelope ''module_version major is not a non-negative integer'')
                  | Inr parsed \<Rightarrow>
                      if parsed < SemVerTriple min_major min_minor min_patch
                      then Inl (BadEnvelope ''module_version below min_version (rollback rejected)'')
                      else Inr ())))"

definition verify_signed_binary_with_rollback_policy :: "SignEnv \<Rightarrow> bytes \<Rightarrow> bytes \<Rightarrow> RollbackPolicy \<Rightarrow> CertError + unit" where
  "verify_signed_binary_with_rollback_policy env signed_binary hmac_key policy =
     (let min_triple = (case policy of AnyVersion \<Rightarrow> None | AtLeast major \<Rightarrow> Some (major, 0, 0))
      in verify_signed_binary_with_min_version env signed_binary hmac_key min_triple)"

definition verify_signed_binary_with_policy :: "SignEnv \<Rightarrow> bytes \<Rightarrow> bytes \<Rightarrow> u32 option \<Rightarrow> CertError + unit" where
  "verify_signed_binary_with_policy env signed_binary hmac_key min_version =
     (let policy = (case min_version of Some n \<Rightarrow> AtLeast n | None \<Rightarrow> AnyVersion)
      in verify_signed_binary_with_rollback_policy env signed_binary hmac_key policy)"

section \<open>Hexadecimal round trips\<close>

lemma as_bytes_to_string [simp]: "as_bytes (to_string bs) = bs"
proof (induction bs)
  case (Cons b bs)
  have "unat b mod 256 = unat b" using unat_less_2p [of b] by simp
  with Cons show ?case by (simp add: as_bytes_def to_string_def)
qed (simp add: as_bytes_def to_string_def)

lemma length_to_string [simp]: "length (to_string bs) = length bs"
  by (simp add: to_string_def)

lemma length_hex_digits [simp]: "length (hex_digits b) = 2"
  by (simp add: hex_digits_def)

lemma length_hex_encode [simp]: "length (hex_encode bs) = 2 * length bs"
  by (induction bs) (simp_all add: hex_encode_def)

lemma hex_char_values:
  assumes "n < 16"
  shows "nibble_from_ascii (HEX_CHARS ! n) = Some (word_of_nat n)" and "HEX_REVERSE (HEX_CHARS ! n) = word_of_nat n"
    and "(word_of_nat n :: u8) \<noteq> 0xFF"
proof -
  have "list_all (\<lambda>n. nibble_from_ascii (HEX_CHARS ! n) = Some (word_of_nat n) \<and> HEX_REVERSE (HEX_CHARS ! n) = word_of_nat n \<and>
      (word_of_nat n :: u8) \<noteq> 0xFF) [0..<16]"
    by code_simp
  then show "nibble_from_ascii (HEX_CHARS ! n) = Some (word_of_nat n)" "HEX_REVERSE (HEX_CHARS ! n) = word_of_nat n"
    "(word_of_nat n :: u8) \<noteq> 0xFF"
    using assms unfolding list_all_iff by simp_all
qed

lemma nibbles_valid: "drop_bit 4 (b :: u8) \<noteq> 0xFF" "and b 0x0F \<noteq> (0xFF :: u8)"
  using hex_char_values(3) [OF high_nibble [of b]] hex_char_values(3) [OF low_nibble [of b]] by simp_all

lemma decode_tag_hex_digits: "decode_tag_bytes (concat (map hex_digits bs)) = Inr bs"
  by (induction bs) (simp_all add: hex_digits_def hex_char_values high_nibble low_nibble join_nibbles)

lemma hex_decode_tag_hex_encode: "length t = TAG_LEN \<Longrightarrow> hex_decode_tag (hex_encode t) = Inr t"
  using decode_tag_hex_digits [of t] length_hex_encode [of t]
  by (simp add: hex_decode_tag_def hex_encode_def)

lemma hex_decode_from_digits: "hex_decode_from i (concat (map hex_digits bs)) = Inr bs"
  by (induction bs arbitrary: i)
    (simp_all add: hex_digits_def Let_def hex_char_values high_nibble low_nibble join_nibbles nibbles_valid)

lemma hex_decode_hex_encode: "hex_decode (hex_encode bs) = Inr bs"
  using hex_decode_from_digits [of 0 bs] length_hex_encode [of bs]
  by (simp add: hex_decode_def hex_encode_def)

section \<open>The layout of envelopes\<close>

definition envelope :: "bytes \<Rightarrow> bytes \<Rightarrow> bytes \<Rightarrow> bytes" where
  "envelope original meta_json tag =
     original @ FOOTER_MAGIC @ [FOOTER_VERSION] @ u64_le_len (length original) @ meta_json @
     u32_le_len (length meta_json) @ tag"

lemma length_footer_parts [simp]:
  "length FOOTER_MAGIC = 8" "length (u64_le_len n) = 8" "length (u32_le_len n) = 4"
  by (simp_all add: FOOTER_MAGIC_def u64_le_len_def u32_le_len_def)

lemma u64_le_len_read: "n < 2 ^ 64 \<Longrightarrow> unat (from_le_bytes (u64_le_len n) :: u64) = n"
  by (simp add: u64_le_len_def unat_of_nat)

lemma u32_le_len_read: "n < 2 ^ 32 \<Longrightarrow> unat (from_le_bytes (u32_le_len n) :: u32) = n"
  by (simp add: u32_le_len_def unat_of_nat from_le_bytes_le_bytes take_bit_word_all)

lemma u64_le_len_written: "length bs = 8 \<Longrightarrow> u64_le_len (unat (from_le_bytes bs :: u64)) = bs"
  using le_bytes_from_le_bytes [of bs, where 'a = 64] by (simp add: u64_le_len_def u64_le_def)

lemma u32_le_len_written: "length bs = 4 \<Longrightarrow> u32_le_len (unat (from_le_bytes bs :: u32)) = bs"
  using le_bytes_from_le_bytes [of bs, where 'a = 32] by (simp add: u32_le_len_def)

lemma split_envelope:
  assumes "length xs = k + 8 + 1 + 8 + m + 4 + 32"
  shows "xs = take k xs @ take 8 (drop k xs) @ [xs ! (k + 8)] @ take 8 (drop (k + 9) xs) @ take m (drop (k + 17) xs) @
    take 4 (drop (k + 17 + m) xs) @ drop (k + 21 + m) xs"
proof -
  have step: "take n (drop i xs) @ drop j xs = drop i xs" if "j = n + i" for i j n
    using that by (simp add: drop_drop [symmetric] del: drop_drop)
  have at: "[xs ! (k + 8)] @ drop (k + 9) xs = drop (k + 8) xs"
    using assms Cons_nth_drop_Suc [of "k + 8" xs] by (simp add: add.commute)
  have folds: "take 8 (drop k xs) @ drop (k + 8) xs = drop k xs"
    "take 8 (drop (k + 9) xs) @ drop (k + 17) xs = drop (k + 9) xs"
    "take m (drop (k + 17) xs) @ drop (k + 17 + m) xs = drop (k + 17) xs"
    "take 4 (drop (k + 17 + m) xs) @ drop (k + 21 + m) xs = drop (k + 17 + m) xs"
    by (rule step, simp)+
  show ?thesis by (simp only: folds at append_take_drop_id)
qed

lemma if_Inl_eq_Inr: "(if c then Inl e else x) = Inr p \<longleftrightarrow> \<not> c \<and> x = Inr p"
  by simp

lemma option_Inl_eq_Inr: "(case q of None \<Rightarrow> Inl e | Some y \<Rightarrow> Inr (f y)) = Inr p \<longleftrightarrow> (\<exists>y. q = Some y \<and> p = f y)"
  by (auto split: option.split)

text \<open>The checks of the parser for a metadata length \<open>m\<close> that leaves \<open>k\<close> bytes for the binary.\<close>

definition parsed_at :: "SignEnv \<Rightarrow> bytes \<Rightarrow> nat \<Rightarrow> nat \<Rightarrow> BinaryMetadata \<Rightarrow> ParsedEnvelope" where
  "parsed_at env sb k m md =
     \<lparr>pe_original = take k sb, pe_magic = take 8 (drop k sb), pe_version = sb ! (k + 8),
      pe_original_len_bytes = take 8 (drop (k + 9) sb), pe_meta_json = take m (drop (k + 17) sb),
      pe_meta_len_bytes = take 4 (drop (k + 17 + m) sb), pe_tag = drop (k + 21 + m) sb,
      pe_metadata = md\<lparr>integrity_tag := hex_encode (drop (k + 21 + m) sb)\<rparr>\<rparr>"

lemma parse_envelope_at:
  assumes "length sb = k + 8 + 1 + 8 + m + 4 + 32" and "unat (from_le_bytes (take 4 (drop (k + 17 + m) sb)) :: u32) = m"
  shows "parse_envelope env sb = Inr p \<longleftrightarrow>
    m \<le> MAX_META_LEN \<and> unat (from_le_bytes (take 8 (drop (k + 9) sb)) :: u64) = k \<and> sb ! (k + 8) = FOOTER_VERSION \<and>
    take 8 (drop k sb) = FOOTER_MAGIC \<and>
    (\<exists>md. json_from_slice env (take m (drop (k + 17) sb)) = Some md \<and> p = parsed_at env sb k m md)"
proof -
  have offs: "length sb - TAG_LEN = k + 21 + m" "k + 21 + m - 4 = k + 17 + m" "k + 17 + m - m = k + 17"
    "k + 17 - 8 = k + 9" "k + 9 - 1 = k + 8" "k + 8 - length FOOTER_MAGIC = k" "\<not> length sb < FIXED_FOOTER_OVERHEAD"
    using assms(1) by (simp_all add: TAG_LEN_def FIXED_FOOTER_OVERHEAD_def)
  have fits: "\<not> usize_max < unat w" for w :: u64 using unat_less_2p [of w] by (simp add: usize_max_def)
  have sat: "m \<le> k + 17 + m" "8 \<le> k + 17" "1 \<le> k + 9" "length FOOTER_MAGIC \<le> k + 8" by simp_all
  show ?thesis
    unfolding parse_envelope_def Let_def offs(1,2) assms(2) offs(3-6) if_Inl_eq_Inr option_Inl_eq_Inr
    unfolding not_less not_not length_footer_parts parsed_at_def
    using offs(7) fits sat by (simp only: not_less length_footer_parts simp_thms conj_ac)
qed

lemma parse_envelope_sizes:
  assumes "parse_envelope env sb = Inr p"
  obtains k m where "length sb = k + 8 + 1 + 8 + m + 4 + 32"
    "unat (from_le_bytes (take 4 (drop (k + 17 + m) sb)) :: u32) = m"
proof -
  define m where "m = unat (from_le_bytes (take 4 (drop (length sb - TAG_LEN - 4) sb)) :: u32)"
  have "\<not> length sb - TAG_LEN - 4 - m - 8 - 1 < length FOOTER_MAGIC"
    using assms unfolding parse_envelope_def Let_def m_def [symmetric] if_Inl_eq_Inr by (elim conjE)
  then have ge: "53 + m \<le> length sb" by (simp add: TAG_LEN_def)
  have "unat (from_le_bytes (take 4 (drop (length sb - 53 - m + 17 + m) sb)) :: u32) = m"
    using ge by (simp add: m_def TAG_LEN_def)
  with ge show thesis by (intro that [of "length sb - 53 - m" m]) simp_all
qed

lemma parse_envelope_Inr:
  assumes "parse_envelope env sb = Inr p"
  shows "sb = envelope (pe_original p) (pe_meta_json p) (pe_tag p) \<and> length (pe_tag p) = TAG_LEN \<and>
    length (pe_meta_json p) \<le> MAX_META_LEN \<and> length (pe_original p) < 2 ^ 64 \<and>
    (\<exists>md. json_from_slice env (pe_meta_json p) = Some md \<and> pe_metadata p = md\<lparr>integrity_tag := hex_encode (pe_tag p)\<rparr>) \<and>
    concat (envelope_parts p) @ pe_tag p = sb"
proof -
  obtain k m where km: "length sb = k + 8 + 1 + 8 + m + 4 + 32"
      "unat (from_le_bytes (take 4 (drop (k + 17 + m) sb)) :: u32) = m"
    by (rule parse_envelope_sizes [OF assms])
  obtain md where md: "json_from_slice env (take m (drop (k + 17) sb)) = Some md" and p: "p = parsed_at env sb k m md"
    and c: "m \<le> MAX_META_LEN" "unat (from_le_bytes (take 8 (drop (k + 9) sb)) :: u64) = k" "sb ! (k + 8) = FOOTER_VERSION"
      "take 8 (drop k sb) = FOOTER_MAGIC"
    using assms unfolding parse_envelope_at [OF km] by blast
  note split = split_envelope [OF km(1)]
  have len: "take 8 (drop (k + 9) sb) = u64_le_len k" "take 4 (drop (k + 17 + m) sb) = u32_le_len m"
    using u64_le_len_written [of "take 8 (drop (k + 9) sb)"] u32_le_len_written [of "take 4 (drop (k + 17 + m) sb)"] km c(2)
    by simp_all
  have sizes: "length (take k sb) = k" "length (take m (drop (k + 17) sb)) = m" "length (drop (k + 21 + m) sb) = 32"
    using km(1) by simp_all
  have "sb = envelope (take k sb) (take m (drop (k + 17) sb)) (drop (k + 21 + m) sb)"
    unfolding envelope_def sizes using split [unfolded c(3,4) len] .
  moreover have "k < 2 ^ 64"
    using unat_less_2p [of "from_le_bytes (take 8 (drop (k + 9) sb)) :: u64"] unfolding c(2) by simp
  ultimately show ?thesis
    using md c(1) sizes split by (simp add: p parsed_at_def envelope_parts_def TAG_LEN_def)
qed

lemma parse_envelope_envelope:
  assumes "length original < 2 ^ 64" and "length meta_json \<le> MAX_META_LEN" and "length tag = TAG_LEN"
    and "json_from_slice env meta_json = Some md"
  shows "\<exists>p. parse_envelope env (envelope original meta_json tag) = Inr p \<and> pe_original p = original \<and>
    pe_meta_json p = meta_json \<and> pe_tag p = tag \<and> pe_metadata p = md\<lparr>integrity_tag := hex_encode tag\<rparr> \<and>
    concat (envelope_parts p) @ tag = envelope original meta_json tag"
proof -
  let ?sb = "envelope original meta_json tag" let ?k = "length original" let ?m = "length meta_json"
  have m: "?m < 2 ^ 32" using assms(2) by (simp add: MAX_META_LEN_def)
  have km: "length ?sb = ?k + 8 + 1 + 8 + ?m + 4 + 32" using assms(3) by (simp add: envelope_def TAG_LEN_def)
  have cuts: "take ?k ?sb = original" "take 8 (drop ?k ?sb) = FOOTER_MAGIC" "?sb ! (?k + 8) = FOOTER_VERSION"
    "take 8 (drop (?k + 9) ?sb) = u64_le_len ?k" "take ?m (drop (?k + 17) ?sb) = meta_json"
    "take 4 (drop (?k + 17 + ?m) ?sb) = u32_le_len ?m" "drop (?k + 21 + ?m) ?sb = tag"
    by (simp_all add: envelope_def nth_append drop_Cons')
  have "parse_envelope env ?sb = Inr (parsed_at env ?sb ?k ?m md)"
    by (subst parse_envelope_at [OF km])
      (simp_all add: cuts u32_le_len_read [OF m] u64_le_len_read [OF assms(1)] assms(2,4))
  from this parse_envelope_Inr [OF this] show ?thesis
    by (simp add: parsed_at_def cuts)
qed

section \<open>The canonical encoding determines the metadata\<close>

text \<open>A reader of one escaped byte.\<close>

fun read_escaped :: "bytes \<Rightarrow> (u8 \<times> bytes) option" where
  "read_escaped (c # d # xs) =
     (if c \<noteq> 0x5C then Some (c, d # xs)
      else if d = 0x6E then Some (0x0A, xs)
      else if d = 0x72 then Some (0x0D, xs)
      else if d = 0x74 then Some (0x09, xs)
      else if d = 0x62 then Some (0x08, xs)
      else if d = 0x66 then Some (0x0C, xs)
      else if d = 0x75 then
        (case xs of
           _ # _ # h # l # ys \<Rightarrow> Some (or (push_bit 4 (HEX_REVERSE h)) (HEX_REVERSE l), ys)
         | _ \<Rightarrow> None)
      else Some (d, xs))"
| "read_escaped [c] = Some (c, [])"
| "read_escaped [] = None"

lemma read_json_escape: "read_escaped (json_escape b @ x) = Some (b, x)"
proof (cases "b < 0x20 \<and> b \<notin> {0x22, 0x5C, 0x0A, 0x0D, 0x09, 0x08, 0x0C}")
  case True
  then show ?thesis
    by (simp add: json_escape_def hex_digits_def hex_char_values high_nibble low_nibble join_nibbles)
next
  case False
  then show ?thesis by (cases x) (auto simp: json_escape_def)
qed

lemma json_escape_not_quote: "json_escape b @ x \<noteq> 0x22 # y"
  by (auto simp: json_escape_def)

lemma json_escapes_inject:
  "concat (map json_escape bs) @ 0x22 # x = concat (map json_escape bs') @ 0x22 # x' \<Longrightarrow> bs = bs' \<and> x = x'"
proof (induction bs arbitrary: bs')
  case Nil
  then show ?case
  proof (cases bs')
    case (Cons b' cs)
    with Nil json_escape_not_quote [of b' "concat (map json_escape cs) @ 0x22 # x'" x] show ?thesis by simp
  qed simp
next
  case (Cons b bs)
  show ?case
  proof (cases bs')
    case Nil
    with Cons.prems json_escape_not_quote [of b] show ?thesis by simp
  next
    case (Cons b' cs)
    with Cons.prems have eq: "json_escape b @ concat (map json_escape bs) @ 0x22 # x =
        json_escape b' @ concat (map json_escape cs) @ 0x22 # x'" by simp
    from arg_cong [OF eq, of read_escaped] have "b = b'" "concat (map json_escape bs) @ 0x22 # x = concat (map json_escape cs) @ 0x22 # x'"
      by (simp_all add: read_json_escape)
    with Cons.IH [of cs] Cons show ?thesis by simp
  qed
qed

lemma json_string_inject:
  "json_encode_string [] s @ x = json_encode_string [] s' @ x' \<longleftrightarrow> s = s' \<and> x = x'"
  using json_escapes_inject [of "as_bytes s" x "as_bytes s'" x'] by (auto simp: json_encode_string_def)

definition field_key :: "string \<Rightarrow> bytes" where
  "field_key key = [0x22] @ as_bytes key @ [0x22, 0x3A]"

lemma canonical_meta_json_eq:
  "canonical_meta_json m = [0x7B] @ field_key ''build_timestamp'' @ json_encode_string [] (build_timestamp m) @
     [0x2C] @ field_key ''git_commit'' @ json_encode_string [] (git_commit m) @
     [0x2C] @ field_key ''hmac_key_id'' @ json_encode_string [] (hmac_key_id m) @
     [0x2C] @ field_key ''integrity_tag'' @ json_encode_string [] '''' @
     [0x2C] @ field_key ''module_version'' @ json_encode_string [] (module_version m) @ [0x7D]"
  by (simp add: canonical_meta_json_def canonical_fields_def json_encode_string_def field_key_def)

lemma canonical_meta_json_tag [simp]: "canonical_meta_json (m\<lparr>integrity_tag := t\<rparr>) = canonical_meta_json m"
  by (simp add: canonical_meta_json_def canonical_fields_def)

lemma canonical_meta_json_inject:
  "canonical_meta_json m = canonical_meta_json m' \<Longrightarrow>
   build_timestamp m = build_timestamp m' \<and> git_commit m = git_commit m' \<and> hmac_key_id m = hmac_key_id m' \<and>
   module_version m = module_version m'"
  unfolding canonical_meta_json_eq by (simp only: same_append_eq json_string_inject)

section \<open>Signing and verification\<close>

lemma sign_and_embed_eq:
  assumes "\<And>k d. length (hmac_sign env k d) = TAG_LEN"
  shows "sign_and_embed env bin key v ts c kid =
    (if length key < MIN_HMAC_KEY_BYTES then Inl (KeyTooShort (length key) MIN_HMAC_KEY_BYTES)
     else let mj = canonical_meta_json \<lparr>module_version = v, build_timestamp = ts, git_commit = c, hmac_key_id = kid, integrity_tag = ''''\<rparr>
       in Inr (envelope bin mj (hmac_sign env key (envelope bin mj []))))"
proof -
  define stub where
    "stub = \<lparr>module_version = v, build_timestamp = ts, git_commit = c, hmac_key_id = kid, integrity_tag = ''''\<rparr>"
  have "embed_metadata bin (stub\<lparr>integrity_tag := hex_encode (hmac_sign env k d)\<rparr>) =
      Inr (envelope bin (canonical_meta_json stub) (hmac_sign env k d))" for k d
    using hex_decode_tag_hex_encode [OF assms, of k d] by (simp add: embed_metadata_def envelope_def Let_def)
  then show ?thesis
    unfolding sign_and_embed_def sign_binary_def stub_def [symmetric] Let_def
    by (simp add: compute_hmac_sha256_parts_def make_key_def) (simp add: envelope_def)
qed

lemma envelope_tag: "envelope bin mj tag = envelope bin mj [] @ tag"
  by (simp add: envelope_def)

lemma verify_parts_Inr:
  assumes "slices_equal env = (=)"
  shows "verify_hmac_sha256_parts env key parts tag = Inr () \<longleftrightarrow>
    MIN_HMAC_KEY_BYTES \<le> length key \<and> length tag = TAG_LEN \<and> hmac_sign env key (concat parts) = tag"
  using assms
  by (auto simp: verify_hmac_sha256_parts_def compute_hmac_sha256_parts_def make_key_def HMAC_SHA256_TAG_LEN_def
      TAG_LEN_def constant_time_verify_with_len_check_def)

lemma verify_envelope:
  assumes "slices_equal env = (=)" and "json_from_slice env (canonical_meta_json stub) = Some stub"
    and "length bin < 2 ^ 64" and "length (canonical_meta_json stub) \<le> MAX_META_LEN"
    and "MIN_HMAC_KEY_BYTES \<le> length key" and "length tag = TAG_LEN"
    and "tag = hmac_sign env key (envelope bin (canonical_meta_json stub) [])"
    and "sb = envelope bin (canonical_meta_json stub) tag"
  shows "verify_signed_binary env sb key = Inr () \<and> extract_original_binary env sb = Inr bin \<and>
    extract_metadata env sb = Inr (stub\<lparr>integrity_tag := hex_encode tag\<rparr>)"
proof -
  obtain p where p: "parse_envelope env sb = Inr p" "pe_original p = bin" "pe_meta_json p = canonical_meta_json stub"
      "pe_tag p = tag" "pe_metadata p = stub\<lparr>integrity_tag := hex_encode tag\<rparr>"
      "concat (envelope_parts p) = envelope bin (canonical_meta_json stub) []"
    using parse_envelope_envelope [OF assms(3,4,6,2)] unfolding assms(8) envelope_tag [of _ _ tag] by auto
  show ?thesis
    using assms(5,6) assms(7) [symmetric]
    by (simp add: verify_signed_binary_def extract_original_binary_def extract_metadata_def p verify_parts_Inr [OF assms(1)])
qed

text \<open>
  C30: what is signed verifies, within the limits of the format: the binary is shorter than
  \<open>2 ^ 64\<close> bytes, the canonical metadata is at most \<open>MAX_META_LEN\<close> (1 MiB) long, and the
  JSON parser reads the canonical metadata back.  Then the envelope that signing produces
  verifies under the same key; extraction gives back the binary, and the metadata that
  signing returned, its tag included.  Longer metadata is signed without an error but
  does not verify (\<open>oversized_metadata_signed_not_verifiable\<close>).
\<close>

theorem signed_binary_verifies:
  fixes v ts c kid :: string
  defines "stub \<equiv> \<lparr>module_version = v, build_timestamp = ts, git_commit = c, hmac_key_id = kid, integrity_tag = ''''\<rparr>"
  assumes hmac_length: "\<And>k d. length (hmac_sign env k d) = TAG_LEN" and equality: "slices_equal env = (=)"
    and json_parses: "json_from_slice env (canonical_meta_json stub) = Some stub"
    and signed: "sign_and_embed env bin key v ts c kid = Inr sb"
    and limits: "length bin < 2 ^ 64" "length (canonical_meta_json stub) \<le> MAX_META_LEN"
  shows "verify_signed_binary env sb key = Inr () \<and> extract_original_binary env sb = Inr bin \<and>
    verify_and_extract env sb key = sign_binary env bin key v ts c kid"
proof -
  let ?mj = "canonical_meta_json stub" let ?tag = "hmac_sign env key (envelope bin ?mj [])"
  have key: "MIN_HMAC_KEY_BYTES \<le> length key" and sb: "sb = envelope bin ?mj ?tag"
    using signed unfolding sign_and_embed_eq [OF hmac_length] stub_def [symmetric] Let_def by (simp_all split: if_splits)
  moreover have "sign_binary env bin key v ts c kid = Inr (stub\<lparr>integrity_tag := hex_encode ?tag\<rparr>)"
    using key by (simp add: sign_binary_def compute_hmac_sha256_parts_def make_key_def envelope_def Let_def stub_def)
  ultimately show ?thesis
    using verify_envelope [OF equality json_parses limits key hmac_length refl sb] by (simp add: verify_and_extract_def)
qed

definition example_meta :: BinaryMetadata where
  "example_meta = \<lparr>module_version = ''1.2.0'', build_timestamp = ''2026-01-01'', git_commit = ''abc'',
     hmac_key_id = ''k1'', integrity_tag = ''''\<rparr>"

definition example_key :: bytes where
  "example_key = replicate 32 7"

definition example_env :: SignEnv where
  "example_env = \<lparr>hmac_sign = \<lambda>k d. replicate 31 (fold (+) k 0) @ [fold (+) d 0], slices_equal = (=),
     json_from_slice = \<lambda>bs. if bs = canonical_meta_json example_meta then Some example_meta else None\<rparr>"

definition example_signed :: bytes where
  "example_signed = envelope [1, 2, 3] (canonical_meta_json example_meta)
     (hmac_sign example_env example_key (envelope [1, 2, 3] (canonical_meta_json example_meta) []))"

lemma example_meta_small: "length (canonical_meta_json example_meta) \<le> MAX_META_LEN"
proof -
  have "length (canonical_meta_json example_meta) = 114" by code_simp
  then show ?thesis by (simp add: MAX_META_LEN_def)
qed

lemma example_env_laws:
  "length (hmac_sign example_env k d) = TAG_LEN" "slices_equal example_env = (=)"
  "json_from_slice example_env (canonical_meta_json example_meta) = Some example_meta"
  by (simp_all add: example_env_def TAG_LEN_def)

lemma example_verifies: "verify_signed_binary example_env example_signed example_key = Inr ()"
  using verify_envelope [OF example_env_laws(2,3) _ example_meta_small _ example_env_laws(1) refl example_signed_def]
  by (simp add: example_key_def MIN_HMAC_KEY_BYTES_def)

theorem signed_binary_verifies_witness:
  "sign_and_embed example_env [1, 2, 3] example_key ''1.2.0'' ''2026-01-01'' ''abc'' ''k1'' = Inr example_signed \<and>
   extract_original_binary example_env example_signed = Inr [1, 2, 3]"
proof -
  have "sign_and_embed example_env [1, 2, 3] example_key ''1.2.0'' ''2026-01-01'' ''abc'' ''k1'' = Inr example_signed"
    unfolding sign_and_embed_eq [OF example_env_laws(1)]
    by (simp add: example_key_def MIN_HMAC_KEY_BYTES_def example_signed_def example_meta_def Let_def)
  with signed_binary_verifies [of example_env "''1.2.0''" "''2026-01-01''" "''abc''" "''k1''" "[1, 2, 3]" example_key example_signed]
  show ?thesis
    using example_env_laws example_meta_small unfolding example_meta_def by simp
qed

text \<open>
  C29: what verifies was signed.  Bytes that verify under a key are exactly an envelope that
  signing produces under that key, for the binary and the metadata that extraction returns.
  Nothing is accepted that differs from it in a single byte: no other serialisation of the
  metadata, no bytes around the binary, no other length fields.
\<close>

theorem verified_binary_was_signed:
  assumes "verify_signed_binary env sb key = Inr ()" and equality: "slices_equal env = (=)"
    and hmac_length: "\<And>k d. length (hmac_sign env k d) = TAG_LEN"
  shows "\<exists>bin meta. extract_original_binary env sb = Inr bin \<and> verify_and_extract env sb key = Inr meta \<and>
    sign_binary env bin key (module_version meta) (build_timestamp meta) (git_commit meta) (hmac_key_id meta) = Inr meta \<and>
    embed_metadata bin meta = Inr sb"
proof -
  obtain p where p: "parse_envelope env sb = Inr p" and canonical: "canonical_meta_json (pe_metadata p) = pe_meta_json p"
    and tag: "verify_hmac_sha256_parts env key (envelope_parts p) (pe_tag p) = Inr ()"
    using assms(1) by (auto simp: verify_signed_binary_def split: sum.splits if_splits)
  let ?meta = "pe_metadata p"
  have lay: "sb = envelope (pe_original p) (pe_meta_json p) (pe_tag p)"
      "concat (envelope_parts p) @ pe_tag p = sb" "length (pe_tag p) = TAG_LEN"
    and hex: "integrity_tag ?meta = hex_encode (pe_tag p)"
    using parse_envelope_Inr [OF p] by auto
  have mac: "hmac_sign env key (envelope (pe_original p) (pe_meta_json p) []) = pe_tag p" "MIN_HMAC_KEY_BYTES \<le> length key"
    using tag lay(1,2) unfolding verify_parts_Inr [OF equality] envelope_tag [of _ _ "pe_tag p"] by auto
  define stub where "stub = ?meta\<lparr>integrity_tag := ''''\<rparr>"
  have stub: "stub = \<lparr>module_version = module_version ?meta, build_timestamp = build_timestamp ?meta,
      git_commit = git_commit ?meta, hmac_key_id = hmac_key_id ?meta, integrity_tag = ''''\<rparr>"
    "canonical_meta_json stub = pe_meta_json p" "stub\<lparr>integrity_tag := hex_encode (pe_tag p)\<rparr> = ?meta"
    using canonical hex by (simp_all add: stub_def)
  have "sign_binary env (pe_original p) key (module_version ?meta) (build_timestamp ?meta) (git_commit ?meta) (hmac_key_id ?meta) = Inr ?meta"
    unfolding sign_binary_def stub(1) [symmetric] Let_def stub(2) using mac stub(3)
    by (simp add: compute_hmac_sha256_parts_def make_key_def envelope_def)
  moreover have "embed_metadata (pe_original p) ?meta = Inr sb"
    using lay hex_decode_tag_hex_encode [OF lay(3)] by (simp add: embed_metadata_def canonical hex envelope_def Let_def)
  ultimately show ?thesis
    using assms(1) by (auto simp: extract_original_binary_def verify_and_extract_def extract_metadata_def p)
qed

theorem verified_binary_was_signed_witness:
  "\<exists>bin meta. extract_original_binary example_env example_signed = Inr bin \<and>
     verify_and_extract example_env example_signed example_key = Inr meta \<and> embed_metadata bin meta = Inr example_signed"
  using verified_binary_was_signed [OF example_verifies example_env_laws(2,1)] by blast

text \<open>
  the authenticated bytes say one thing.  The byte string under the tag determines the
  binary and every metadata field, so a tag for one release is not a tag for another.
\<close>

theorem signing_input_determines_content:
  assumes same: "envelope bin (canonical_meta_json m) [] = envelope bin' (canonical_meta_json m') []"
    and limits: "length bin < 2 ^ 64" "length bin' < 2 ^ 64"
      "length (canonical_meta_json m) \<le> MAX_META_LEN" "length (canonical_meta_json m') \<le> MAX_META_LEN"
  shows "bin = bin' \<and> m\<lparr>integrity_tag := t\<rparr> = m'\<lparr>integrity_tag := t\<rparr>"
proof -
  define env :: SignEnv where "env = \<lparr>hmac_sign = \<lambda>_ _. [], slices_equal = (=), json_from_slice = \<lambda>_. Some m\<rparr>"
  define tag :: bytes where "tag = replicate TAG_LEN 0"
  have tag: "length tag = TAG_LEN" and json: "json_from_slice env x = Some m" for x by (simp_all add: tag_def env_def)
  have "bin = bin' \<and> canonical_meta_json m = canonical_meta_json m'"
    using parse_envelope_envelope [OF limits(1,3) tag json] parse_envelope_envelope [OF limits(2,4) tag json]
    unfolding envelope_tag [of _ _ tag] same by auto
  then show ?thesis using canonical_meta_json_inject [of m m'] by simp
qed

theorem signing_input_determines_content_witness:
  "envelope [1, 2] (canonical_meta_json example_meta) [] =
     envelope [1, 2] (canonical_meta_json (example_meta\<lparr>integrity_tag := ''ab''\<rparr>)) [] \<and>
   ([1, 2] :: bytes) = [1, 2] \<and> example_meta\<lparr>integrity_tag := ''x''\<rparr> = example_meta\<lparr>integrity_tag := ''ab''\<rparr>\<lparr>integrity_tag := ''x''\<rparr>"
  using signing_input_determines_content [of "[1, 2]" example_meta "[1, 2]" "example_meta\<lparr>integrity_tag := ''ab''\<rparr>" "''x''"]
    example_meta_small by simp

text \<open>
  the rollback floor.  A policy with a minimum major version accepts exactly the
  binaries that verify and whose authenticated metadata has a numeric version of at least
  that major; the permissive policy accepts exactly what verifies, and the deprecated entry
  point maps to the two.
\<close>

theorem rollback_floor:
  "(verify_signed_binary_with_rollback_policy env sb key (AtLeast n) = Inr () \<longleftrightarrow>
      verify_signed_binary env sb key = Inr () \<and>
      (\<exists>meta a b c. verify_and_extract env sb key = Inr meta \<and>
         semver_parse (module_version meta) = Inr (SemVerTriple a b c) \<and> n \<le> a)) \<and>
   (verify_signed_binary_with_rollback_policy env sb key AnyVersion = verify_signed_binary env sb key) \<and>
   verify_signed_binary_with_policy env sb key (Some n) = verify_signed_binary_with_rollback_policy env sb key (AtLeast n) \<and>
   verify_signed_binary_with_policy env sb key None = verify_signed_binary env sb key"
proof -
  have floor: "\<not> SemVerTriple a b c < SemVerTriple n 0 0 \<longleftrightarrow> n \<le> a" for a b c
    unfolding less_SemVerTriple.simps by auto
  have split: "(case semver_parse s of Inl x \<Rightarrow> Inl e | Inr v \<Rightarrow> if v < SemVerTriple n 0 0 then Inl e' else Inr ()) = Inr () \<longleftrightarrow>
      (\<exists>a b c. semver_parse s = Inr (SemVerTriple a b c) \<and> n \<le> a)" for s and e e' :: CertError
    by (cases "semver_parse s"; simp; metis SemVerTriple.exhaust floor)
  have any: "verify_signed_binary_with_rollback_policy env sb key AnyVersion = verify_signed_binary env sb key"
    by (simp add: verify_signed_binary_with_rollback_policy_def verify_signed_binary_with_min_version_def
        verify_signed_binary_def split: sum.split)
  have "verify_signed_binary_with_rollback_policy env sb key (AtLeast n) = Inr () \<longleftrightarrow>
      verify_signed_binary env sb key = Inr () \<and>
      (\<exists>meta a b c. verify_and_extract env sb key = Inr meta \<and>
         semver_parse (module_version meta) = Inr (SemVerTriple a b c) \<and> n \<le> a)"
    by (auto simp: verify_signed_binary_with_rollback_policy_def verify_signed_binary_with_min_version_def
        verify_signed_binary_def verify_and_extract_def extract_metadata_def split split: sum.splits)
  with any show ?thesis by (simp add: verify_signed_binary_with_policy_def)
qed

text \<open>
  Signing has no limit on the metadata, while the parser refuses more than a mebibyte: such
  an envelope is signed without error and never verifies.
\<close>

theorem oversized_metadata_signed_not_verifiable:
  fixes v ts c kid :: string
  defines "stub \<equiv> \<lparr>module_version = v, build_timestamp = ts, git_commit = c, hmac_key_id = kid, integrity_tag = ''''\<rparr>"
  assumes "\<And>k d. length (hmac_sign env k d) = TAG_LEN" and "MIN_HMAC_KEY_BYTES \<le> length key"
    and "MAX_META_LEN < length (canonical_meta_json stub)" and "length (canonical_meta_json stub) < 2 ^ 32"
  shows "\<exists>sb. sign_and_embed env bin key v ts c kid = Inr sb \<and>
    verify_signed_binary env sb key = Inl (BadEnvelope ''metadata length exceeds 1 MiB cap'')"
proof -
  let ?mj = "canonical_meta_json stub" let ?tag = "hmac_sign env key (envelope bin ?mj [])"
  let ?sb = "envelope bin ?mj ?tag"
  have "take 4 (drop (length ?sb - TAG_LEN - 4) ?sb) = u32_le_len (length ?mj)"
    unfolding envelope_def by (simp add: assms(2) drop_Cons')
  moreover have "\<not> length ?sb < FIXED_FOOTER_OVERHEAD" by (simp add: envelope_def FIXED_FOOTER_OVERHEAD_def assms(2))
  ultimately have "parse_envelope env ?sb = Inl (BadEnvelope ''metadata length exceeds 1 MiB cap'')"
    unfolding parse_envelope_def Let_def using assms(4) by (simp add: u32_le_len_read [OF assms(5)])
  then show ?thesis
    using assms(3) by (simp add: sign_and_embed_eq [OF assms(2)] stub_def [symmetric] verify_signed_binary_def Let_def)
qed

end
