(* ===== verification/Gcm_Journal.thy ===== *)
theory Gcm_Journal
  imports Rust_Strings
begin

text \<open>
  The journal behind the AES-GCM usage counters, \<open>craton-hsm-awslc/src/gcm_counter.rs\<close>: its
  text format with an integrity footer, loading, rewriting, and the operations of
  \<open>PersistentGcmCounter\<close>.  A file is its bytes.  Hashing, HMAC, constant-time equality and the
  derivation of MAC keys from paths are parameters.  Of the file operations, the lock and the
  writes can fail; reading, seeking and cutting at open are taken to succeed.
\<close>

section \<open>Constants and state\<close>

type_synonym fingerprint = bytes

datatype HsmError = GeneralError | AlreadyInitialized

definition BATCH_THRESHOLD :: u64 where
  "BATCH_THRESHOLD = 1024"

definition AES_GCM_NONCE_LIMIT :: u64 where
  "AES_GCM_NONCE_LIMIT = 2 ^ 32"

definition JOURNAL_VERSION_MARKER :: bytes where
  "JOURNAL_VERSION_MARKER = as_bytes ''craton-hsm-gcm-journal v1'' @ [10]"

definition MAX_MALFORMED_RECORDS :: nat where
  "MAX_MALFORMED_RECORDS = 16"

record PersistEntry =
  persisted :: u64
  poisoned :: bool

definition entry_default :: PersistEntry where
  "entry_default = \<lparr>persisted = 0, poisoned = False\<rparr>"

type_synonym known_map = "fingerprint \<rightharpoonup> PersistEntry"

record FileBacked =
  fb_file :: bytes
  fb_mac_key :: bytes
  fb_known :: known_map
  fb_integrity_failed :: bool

datatype PersistentGcmCounter = InMemory | Journal FileBacked

datatype RecordKind = Count u64 | Poisoned

text \<open>The library functions: HMAC-SHA-256, constant-time equality and SHA-256.\<close>

record MacEnv =
  mac :: "bytes \<Rightarrow> bytes \<Rightarrow> bytes"
  mac_eq :: "bytes \<Rightarrow> bytes \<Rightarrow> bool"
  sha256 :: "bytes \<Rightarrow> bytes"

definition fingerprint_of :: "MacEnv \<Rightarrow> bytes \<Rightarrow> fingerprint" where
  "fingerprint_of env key = sha256 env key"

section \<open>Hexadecimal text\<close>

definition hex_bytes :: "bytes \<Rightarrow> bytes" where
  "hex_bytes b = concat (map hex02 b)"

definition hex_nib :: "u8 \<Rightarrow> u8 option" where
  "hex_nib b =
     (if 0x30 \<le> b \<and> b \<le> 0x39 then Some (b - 0x30)
      else if 0x61 \<le> b \<and> b \<le> 0x66 then Some (b - 0x61 + 10)
      else if 0x41 \<le> b \<and> b \<le> 0x46 then Some (b - 0x41 + 10)
      else None)"

text \<open>The loop over pairs of digits; both callers check that the length is even.\<close>

fun hex_pairs :: "bytes \<Rightarrow> bytes option" where
  "hex_pairs (h # l # rest) =
     (case hex_nib h of
        None \<Rightarrow> None
      | Some hi \<Rightarrow>
         (case hex_nib l of None \<Rightarrow> None | Some lo \<Rightarrow> map_option (\<lambda>out. or (push_bit 4 hi) lo # out) (hex_pairs rest)))"
| "hex_pairs _ = Some []"

definition parse_hex32 :: "bytes \<Rightarrow> fingerprint option" where
  "parse_hex32 s = (if length s \<noteq> 64 then None else hex_pairs s)"

definition decode_hex_bytes :: "bytes \<Rightarrow> bytes option" where
  "decode_hex_bytes s = (if length s mod 2 \<noteq> 0 then None else hex_pairs s)"

section \<open>Records\<close>

definition poisoned_text :: bytes where
  "poisoned_text = as_bytes ''POISONED''"

definition value_text :: "RecordKind \<Rightarrow> bytes" where
  "value_text kind = (case kind of Count n \<Rightarrow> as_bytes (decimal (unat n)) | Poisoned \<Rightarrow> poisoned_text)"

definition record_line :: "fingerprint \<Rightarrow> RecordKind \<Rightarrow> bytes" where
  "record_line fp kind = hex_bytes fp @ [32] @ value_text kind"

definition entry_of :: "known_map \<Rightarrow> fingerprint \<Rightarrow> PersistEntry" where
  "entry_of known fp = (case known fp of Some e \<Rightarrow> e | None \<Rightarrow> entry_default)"

text \<open>One turn of the loop of \<open>parse_records\<close>: the map and the number of malformed lines.\<close>

definition parse_line :: "bytes \<Rightarrow> known_map \<times> nat \<Rightarrow> known_map \<times> nat" where
  "parse_line line acc =
     (let (out, malformed) = acc; trimmed = trim line in
      if trimmed = [] \<or> hd trimmed = 35 then (out, malformed)
      else
        let hex = takeWhile (\<lambda>b. b \<noteq> 32) trimmed; rest = dropWhile (\<lambda>b. b \<noteq> 32) trimmed in
        if rest = [] then (out, malformed + 1)
        else
          let val = tl rest in
          case parse_hex32 hex of
            None \<Rightarrow> (out, malformed + 1)
          | Some fp \<Rightarrow>
              let entry = entry_of out fp in
              if val = poisoned_text
              then (out(fp \<mapsto> entry\<lparr>poisoned := True, persisted := AES_GCM_NONCE_LIMIT\<rparr>), malformed)
              else case parse_unsigned (2 ^ 64) val of
                Some n \<Rightarrow>
                  let w = word_of_nat n;
                      e1 = (if w > persisted entry then entry\<lparr>persisted := w\<rparr> else entry);
                      e2 = (if w \<ge> AES_GCM_NONCE_LIMIT then e1\<lparr>poisoned := True\<rparr> else e1)
                  in (out(fp \<mapsto> e2), malformed)
              | None \<Rightarrow> (out(fp \<mapsto> entry), malformed + 1))"

definition parse_records :: "bytes \<Rightarrow> known_map \<times> nat" where
  "parse_records body = fold parse_line (read_lines body) (Map.empty, 0)"

section \<open>The footer\<close>

definition find_last_subslice :: "bytes \<Rightarrow> bytes \<Rightarrow> nat option" where
  "find_last_subslice haystack needle =
     (if needle = [] \<or> length haystack < length needle then None
      else case filter (\<lambda>i. take (length needle) (drop i haystack) = needle) [0..<length haystack - length needle + 1] of
          [] \<Rightarrow> None
        | is \<Rightarrow> Some (last is))"

definition footer_prefix :: bytes where
  "footer_prefix = as_bytes ''#MAC ''"

text \<open>The usable footer line at \<open>idx\<close>, if there is one.\<close>

definition footer_at :: "bytes \<Rightarrow> nat \<Rightarrow> (bytes \<times> bytes) option" where
  "footer_at all idx =
     (let after = drop idx all; line = takeWhile (\<lambda>b. b \<noteq> 10) after; tag = drop 5 line in
      if 10 \<in> set after \<and> take 5 line = footer_prefix \<and> utf8_valid tag then Some (take idx all, tag) else None)"

lemma find_last_subslice_bound:
  assumes "find_last_subslice h n = Some i"
  shows "i + length n \<le> length h \<and> n \<noteq> []"
proof -
  define ok where "ok = filter (\<lambda>i. take (length n) (drop i h) = n) [0..<length h - length n + 1]"
  have len: "n \<noteq> []" "length n \<le> length h" "ok \<noteq> []" "i = last ok"
    using assms unfolding find_last_subslice_def ok_def [symmetric] by (auto split: if_splits list.splits)
  then have "i \<in> set ok" using last_in_set by auto
  then have "i < length h - length n + 1" unfolding ok_def by (simp del: upt_Suc)
  with len show ?thesis by simp
qed

function split_footer_from :: "bytes \<Rightarrow> nat \<Rightarrow> (bytes \<times> bytes) option" where
  "split_footer_from all search_end =
     (case find_last_subslice (take search_end all) (10 # footer_prefix) of
        Some i \<Rightarrow>
          (case footer_at all (i + 1) of
             Some r \<Rightarrow> Some r
           | None \<Rightarrow> split_footer_from all i)
      | None \<Rightarrow>
          if take 5 all = footer_prefix \<and> search_end \<ge> 5 then footer_at all 0 else None)"
  by pat_completeness auto
termination
proof (relation "measure snd", goal_cases)
  case (2 all search_end i)
  from find_last_subslice_bound [OF this(1)] show ?case by (simp add: footer_prefix_def)
qed simp

declare split_footer_from.simps [simp del]

definition split_footer :: "bytes \<Rightarrow> (bytes \<times> bytes) option" where
  "split_footer all = split_footer_from all (length all)"

section \<open>Loading and rewriting the file\<close>

datatype VersionCheck = V1 nat bytes | Legacy bytes

definition check_version :: "bytes \<Rightarrow> HsmError + VersionCheck" where
  "check_version all =
     (let off = length JOURNAL_VERSION_MARKER; prefix = as_bytes ''craton-hsm-gcm-journal '' in
      if take off all = JOURNAL_VERSION_MARKER then Inr (V1 off (drop off all))
      else if take (length prefix) all = prefix then Inl GeneralError
      else Inr (Legacy all))"

definition parse_and_check :: "bytes \<Rightarrow> HsmError + known_map" where
  "parse_and_check bytes =
     (let (known, malformed) = parse_records bytes in
      if malformed > MAX_MALFORMED_RECORDS then Inl GeneralError else Inr known)"

definition load_and_verify :: "MacEnv \<Rightarrow> bytes \<Rightarrow> bytes \<Rightarrow> HsmError + known_map \<times> bool \<times> nat" where
  "load_and_verify env file mac_key =
     (if file = [] then Inr (Map.empty, False, 0)
      else case check_version file of
        Inl e \<Rightarrow> Inl e
      | Inr v \<Rightarrow>
          let (body_offset, body_slice) = (case v of V1 off body \<Rightarrow> (off, body) | Legacy body \<Rightarrow> (0, body)) in
          case split_footer body_slice of
            None \<Rightarrow> map_sum id (\<lambda>known. (known, False, length file)) (parse_and_check body_slice)
          | Some (body, footer_tag) \<Rightarrow>
              let expected = mac env mac_key (take body_offset file @ body);
                  failed = map_sum id (\<lambda>known. (known, True, 0)) (parse_and_check body)
              in (case decode_hex_bytes footer_tag of
                    None \<Rightarrow> failed
                  | Some footer_bytes \<Rightarrow>
                      if length footer_bytes \<noteq> length expected then failed
                      else if \<not> mac_eq env expected footer_bytes then failed
                      else map_sum id (\<lambda>known. (known, False, body_offset + length body + 5 + length footer_tag + 1))
                             (parse_and_check body)))"

definition read_without_footer_or_marker :: "bytes \<Rightarrow> bytes" where
  "read_without_footer_or_marker all =
     (let off = length JOURNAL_VERSION_MARKER;
          marker_stripped = (if take off all = JOURNAL_VERSION_MARKER then drop off all else all)
      in case split_footer marker_stripped of Some (body, _) \<Rightarrow> body | None \<Rightarrow> marker_stripped)"

text \<open>What \<open>write_record\<close> writes: marker, records and footer.\<close>

definition rewritten :: "MacEnv \<Rightarrow> bytes \<Rightarrow> bytes \<Rightarrow> fingerprint \<Rightarrow> RecordKind \<Rightarrow> bytes" where
  "rewritten env file mac_key fp kind =
     (let new_body = read_without_footer_or_marker file @ record_line fp kind @ [10];
          tag = mac env mac_key (JOURNAL_VERSION_MARKER @ new_body)
      in JOURNAL_VERSION_MARKER @ new_body @ footer_prefix @ hex_bytes tag @ [10])"

text \<open>
  How the file operations of \<open>write_record\<close> end: all succeed; one fails before the file is
  cut to length zero; or an error, or the end of the process, comes when \<open>n\<close> bytes of the new
  contents are in the file.
\<close>

datatype WriteOutcome = Written | Refused | Torn nat

definition write_record ::
  "MacEnv \<Rightarrow> WriteOutcome \<Rightarrow> bytes \<Rightarrow> bytes \<Rightarrow> fingerprint \<Rightarrow> RecordKind \<Rightarrow> bytes \<times> (HsmError + unit)" where
  "write_record env io file mac_key fp kind =
     (let contents = rewritten env file mac_key fp kind in
      case io of
        Written \<Rightarrow> (contents, Inr ())
      | Refused \<Rightarrow> (file, Inl GeneralError)
      | Torn n \<Rightarrow> (take n contents, Inl GeneralError))"

definition file_has_version_marker :: "bytes \<Rightarrow> bool" where
  "file_has_version_marker file = (take (length JOURNAL_VERSION_MARKER) file = JOURNAL_VERSION_MARKER)"

section \<open>The persistent counter\<close>

text \<open>
  Opening: \<open>locked\<close> says whether another process holds the lock.  The result carries the file,
  cut after the last valid footer.
\<close>

definition file_backed :: "MacEnv \<Rightarrow> bool \<Rightarrow> bytes \<Rightarrow> bytes \<Rightarrow> bytes \<Rightarrow> HsmError + PersistentGcmCounter" where
  "file_backed env locked mac_key legacy_key file =
     (if locked then Inl AlreadyInitialized
      else case load_and_verify env file mac_key of
        Inl e \<Rightarrow> Inl e
      | Inr first \<Rightarrow>
          let (known, integrity_failed, valid_len) =
                (if fst (snd first) \<and> \<not> file_has_version_marker file then
                   (case load_and_verify env file legacy_key of
                      Inr (k, False, v) \<Rightarrow> (k, False, v)
                    | _ \<Rightarrow> first)
                 else first);
              file' = (if \<not> integrity_failed \<and> valid_len < length file then take valid_len file else file)
          in Inr (Journal \<lparr>fb_file = file', fb_mac_key = mac_key, fb_known = known,
               fb_integrity_failed = integrity_failed\<rparr>))"

definition persisted_state :: "PersistentGcmCounter \<Rightarrow> fingerprint \<Rightarrow> u64 \<times> bool" where
  "persisted_state p fp =
     (case p of
        InMemory \<Rightarrow> (0, False)
      | Journal fb \<Rightarrow>
          if fb_integrity_failed fb \<and> fb_known fb fp \<noteq> None then (AES_GCM_NONCE_LIMIT, True)
          else case fb_known fb fp of Some e \<Rightarrow> (persisted e, poisoned e) | None \<Rightarrow> (0, False))"

definition record_advance ::
  "MacEnv \<Rightarrow> WriteOutcome \<Rightarrow> PersistentGcmCounter \<Rightarrow> fingerprint \<Rightarrow> u64 \<Rightarrow> PersistentGcmCounter \<times> (HsmError + unit)" where
  "record_advance env io p fp new_count =
     (case p of
        InMemory \<Rightarrow> (p, Inr ())
      | Journal fb \<Rightarrow>
          if fb_integrity_failed fb then (p, Inl GeneralError)
          else
            let entry = entry_of (fb_known fb) fp;
                fb1 = fb\<lparr>fb_known := (fb_known fb)(fp \<mapsto> entry)\<rparr>;
                is_new = (persisted entry = 0)
            in if \<not> is_new \<and> new_count < persisted entry then (Journal fb1, Inr ())
               else
                 let ceiling = min (saturating_add new_count BATCH_THRESHOLD) AES_GCM_NONCE_LIMIT;
                     (file', res) = write_record env io (fb_file fb) (fb_mac_key fb) fp (Count ceiling);
                     fb2 = fb1\<lparr>fb_file := file'\<rparr>
                 in (case res of
                       Inl e \<Rightarrow> (Journal fb2, Inl e)
                     | Inr _ \<Rightarrow>
                         (Journal (fb2\<lparr>fb_known := (fb_known fb2)(fp \<mapsto> entry\<lparr>persisted := ceiling\<rparr>)\<rparr>), Inr ())))"

definition flush_fingerprint ::
  "MacEnv \<Rightarrow> WriteOutcome \<Rightarrow> PersistentGcmCounter \<Rightarrow> fingerprint \<Rightarrow> u64 \<Rightarrow> PersistentGcmCounter \<times> (HsmError + unit)" where
  "flush_fingerprint env io p fp new_count =
     (case p of
        InMemory \<Rightarrow> (p, Inr ())
      | Journal fb \<Rightarrow>
          if fb_integrity_failed fb then (p, Inl GeneralError)
          else
            let entry = entry_of (fb_known fb) fp;
                fb1 = fb\<lparr>fb_known := (fb_known fb)(fp \<mapsto> entry)\<rparr>
            in if new_count \<le> persisted entry then (Journal fb1, Inr ())
               else
                 let (file', res) = write_record env io (fb_file fb) (fb_mac_key fb) fp (Count new_count);
                     fb2 = fb1\<lparr>fb_file := file'\<rparr>
                 in (case res of
                       Inl e \<Rightarrow> (Journal fb2, Inl e)
                     | Inr _ \<Rightarrow>
                         (Journal (fb2\<lparr>fb_known := (fb_known fb2)(fp \<mapsto> entry\<lparr>persisted := new_count\<rparr>)\<rparr>), Inr ())))"

definition record_poison ::
  "MacEnv \<Rightarrow> WriteOutcome \<Rightarrow> PersistentGcmCounter \<Rightarrow> fingerprint \<Rightarrow> PersistentGcmCounter \<times> (HsmError + unit)" where
  "record_poison env io p fp =
     (case p of
        InMemory \<Rightarrow> (p, Inr ())
      | Journal fb \<Rightarrow>
          if fb_integrity_failed fb then (p, Inr ())
          else
            let (file', res) = write_record env io (fb_file fb) (fb_mac_key fb) fp Poisoned;
                fb1 = fb\<lparr>fb_file := file'\<rparr>
            in (case res of
                  Inl e \<Rightarrow> (Journal fb1, Inl e)
                | Inr _ \<Rightarrow>
                    (Journal (fb1\<lparr>fb_known := (fb_known fb)(fp \<mapsto> (entry_of (fb_known fb) fp)
                       \<lparr>poisoned := True, persisted := AES_GCM_NONCE_LIMIT\<rparr>)\<rparr>), Inr ())))"

section \<open>The journal as a list of records\<close>

type_synonym journal_record = "fingerprint \<times> RecordKind"

text \<open>The specification: a journal is the list of the records written to it.\<close>

definition apply_record :: "journal_record \<Rightarrow> known_map \<Rightarrow> known_map" where
  "apply_record r known =
     (let (fp, kind) = r; e = entry_of known fp in
      known(fp \<mapsto> (case kind of
         Poisoned \<Rightarrow> \<lparr>persisted = AES_GCM_NONCE_LIMIT, poisoned = True\<rparr>
       | Count n \<Rightarrow> \<lparr>persisted = max n (persisted e), poisoned = poisoned e \<or> n \<ge> AES_GCM_NONCE_LIMIT\<rparr>)))"

definition replay :: "journal_record list \<Rightarrow> known_map" where
  "replay recs = fold apply_record recs Map.empty"

definition journal_body :: "journal_record list \<Rightarrow> bytes" where
  "journal_body recs = concat (map (\<lambda>(fp, kind). record_line fp kind @ [10]) recs)"

definition journal_file :: "MacEnv \<Rightarrow> bytes \<Rightarrow> journal_record list \<Rightarrow> bytes" where
  "journal_file env mac_key recs =
     (if recs = [] then []
      else JOURNAL_VERSION_MARKER @ journal_body recs @ footer_prefix @
        hex_bytes (mac env mac_key (JOURNAL_VERSION_MARKER @ journal_body recs)) @ [10])"

definition records_ok :: "journal_record list \<Rightarrow> bool" where
  "records_ok recs \<longleftrightarrow> list_all (\<lambda>(fp, _). length fp = 32) recs"

text \<open>Hexadecimal digits, decimal digits and capital letters lie in one range of visible characters.\<close>

definition plain :: "u8 \<Rightarrow> bool" where
  "plain c \<longleftrightarrow> 48 \<le> c \<and> c \<le> 102"

lemma plain_simps:
  assumes "plain c"
  shows "c \<noteq> 10" "c \<noteq> 13" "c \<noteq> 32" "c \<noteq> 35" "c \<le> 0x7F" "graphic c"
  using assms by (auto simp: plain_def graphic_def word_le_nat_alt)

lemma lower_hex_digit:
  assumes "unat x < 16"
  shows "hex_nib (lower_hex x) = Some x" and "plain (lower_hex x)"
proof -
  have "list_all (\<lambda>n. hex_nib (lower_hex (word_of_nat n)) = Some (word_of_nat n) \<and> plain (lower_hex (word_of_nat n))) [0..<16]"
    by code_simp
  then have "\<forall>n < 16. hex_nib (lower_hex (word_of_nat n)) = Some (word_of_nat n) \<and> plain (lower_hex (word_of_nat n))"
    by (simp add: list_all_iff)
  with assms have "hex_nib (lower_hex (word_of_nat (unat x))) = Some (word_of_nat (unat x)) \<and> plain (lower_hex (word_of_nat (unat x)))"
    by blast
  then show "hex_nib (lower_hex x) = Some x" "plain (lower_hex x)" by simp_all
qed

lemma length_hex_bytes [simp]: "length (hex_bytes b) = 2 * length b"
  by (induction b) (simp_all add: hex_bytes_def hex02_def)

lemma hex_pairs_hex_bytes: "hex_pairs (hex_bytes b) = Some b"
  by (induction b) (simp_all add: hex_bytes_def hex02_def lower_hex_digit high_nibble low_nibble join_nibbles)

lemma hex_bytes_plain: "list_all plain (hex_bytes b)"
  by (induction b) (simp_all add: hex_bytes_def hex02_def lower_hex_digit high_nibble low_nibble)

lemma value_text_plain: "list_all plain (value_text kind)" and value_text_nonempty: "value_text kind \<noteq> []"
proof -
  have "plain b" if "48 \<le> b" "b \<le> 57" for b :: u8 using that by (auto simp: plain_def word_le_nat_alt)
  then have "list_all plain (as_bytes (decimal n))" for n using decimal_graphic [of n] by (auto simp: list_all_iff)
  moreover have "list_all plain poisoned_text" by code_simp
  ultimately show "list_all plain (value_text kind)" by (simp add: value_text_def split: RecordKind.split)
  show "value_text kind \<noteq> []" by (auto simp: value_text_def poisoned_text_def as_bytes_def split: RecordKind.split)
qed

lemma value_text_poisoned: "value_text (Count n) \<noteq> poisoned_text"
proof
  assume "value_text (Count n) = poisoned_text"
  then have "hd (as_bytes (decimal (unat n))) = hd poisoned_text" by (simp add: value_text_def)
  moreover have "hd poisoned_text = 80" by code_simp
  moreover have "hd (as_bytes (decimal (unat n))) \<le> 57"
    using decimal_graphic [of "unat n"] by (cases "as_bytes (decimal (unat n))") (auto simp: as_bytes_def)
  ultimately show False by simp
qed

lemma record_line_trim: "fp \<noteq> [] \<Longrightarrow> trim (record_line fp kind) = record_line fp kind"
proof (rule trim_graphic)
  assume fp: "fp \<noteq> []"
  then have hex: "hex_bytes fp \<noteq> []" by (metis length_hex_bytes length_0_conv mult_is_0 zero_neq_numeral)
  show "record_line fp kind \<noteq> []" by (simp add: record_line_def)
  have "plain (hd (hex_bytes fp))" using hex hex_bytes_plain [of fp] by (cases "hex_bytes fp") auto
  then show "graphic (hd (record_line fp kind))" using hex by (simp add: record_line_def plain_simps)
  have "plain (last (value_text kind))"
    using value_text_nonempty [of kind] value_text_plain [of kind] by (auto simp: list_all_iff)
  then show "graphic (last (record_line fp kind))" using value_text_nonempty by (simp add: record_line_def plain_simps)
qed

lemma takeWhile_plain: "list_all plain xs \<Longrightarrow> takeWhile (\<lambda>b. b \<noteq> 32) (xs @ 32 # ys) = xs"
  and dropWhile_plain: "list_all plain xs \<Longrightarrow> dropWhile (\<lambda>b. b \<noteq> 32) (xs @ 32 # ys) = 32 # ys"
  by (induction xs) (auto simp: plain_simps)

lemma parse_record_line:
  assumes "length fp = 32"
  shows "parse_line (record_line fp kind) (out, m) = (apply_record (fp, kind) out, m)"
proof -
  have fp: "fp \<noteq> []" using assms by auto
  have hd: "hd (record_line fp kind) \<noteq> 35" "record_line fp kind \<noteq> []"
    using hex_bytes_plain [of fp] assms by (cases "hex_bytes fp"; auto simp: record_line_def plain_simps)+
  have parts: "takeWhile (\<lambda>b. b \<noteq> 32) (record_line fp kind) = hex_bytes fp"
      "dropWhile (\<lambda>b. b \<noteq> 32) (record_line fp kind) = 32 # value_text kind"
    by (simp_all add: record_line_def takeWhile_plain dropWhile_plain hex_bytes_plain)
  have fp32: "parse_hex32 (hex_bytes fp) = Some fp" using assms by (simp add: parse_hex32_def hex_pairs_hex_bytes)
  have num: "parse_unsigned (2 ^ 64) (value_text (Count n)) = Some (unat n)" for n
    using parse_unsigned_decimal [of "unat n" "2 ^ 64"] unat_less_2p [of n] by (simp add: value_text_def)
  show ?thesis
  proof (cases kind)
    case (Count n)
    show ?thesis
      unfolding parse_line_def record_line_trim [OF fp] parts fp32 Let_def apply_record_def
      using hd value_text_poisoned [of n] num [of n] Count
      by (cases "entry_of out fp") (auto simp: max_def)
  next
    case Poisoned
    then show ?thesis
      unfolding parse_line_def record_line_trim [OF fp] parts fp32 Let_def apply_record_def
      using hd by (cases "entry_of out fp") (simp add: value_text_def)
  qed
qed

lemma split_lines_body: "split_lines (journal_body recs) = map (\<lambda>(fp, kind). record_line fp kind) recs"
proof (induction recs)
  case (Cons r recs)
  obtain fp kind where r: "r = (fp, kind)" by (cases r)
  have "list_all (\<lambda>c. c = 32 \<or> plain c) (record_line fp kind)"
    using hex_bytes_plain [of fp] value_text_plain [of kind] by (auto simp: record_line_def list_all_iff)
  then have "10 \<notin> set (record_line fp kind)" "13 \<notin> set (record_line fp kind)"
    by (auto simp: list_all_iff plain_def word_le_nat_alt dest!: bspec)
  moreover have "last (record_line fp kind) \<in> set (record_line fp kind)" by (simp add: record_line_def)
  ultimately have "split_lines (record_line fp kind @ 10 # journal_body recs) = record_line fp kind # split_lines (journal_body recs)"
    by (intro split_lines_Cons) auto
  with Cons r show ?case by (simp add: journal_body_def)
qed (simp add: journal_body_def)

lemma record_line_utf8: "utf8_valid (record_line fp kind)"
  using hex_bytes_plain [of fp] value_text_plain [of kind]
  by (intro utf8_valid_ascii) (auto simp: record_line_def list_all_iff plain_simps)

lemma parse_records_body: "records_ok recs \<Longrightarrow> parse_records (journal_body recs) = (replay recs, 0)"
proof -
  assume ok: "records_ok recs"
  have "fold parse_line (map (\<lambda>(fp, kind). record_line fp kind) recs) (out, 0) = (fold apply_record recs out, 0)" for out
    using ok unfolding records_ok_def
    by (induction recs arbitrary: out) (auto simp: parse_record_line)
  moreover have "read_lines (journal_body recs) = map (\<lambda>(fp, kind). record_line fp kind) recs"
    unfolding read_lines_def split_lines_body by (rule takeWhile_eq_all_conv [THEN iffD2]) (auto simp: record_line_utf8)
  ultimately show ?thesis by (simp add: parse_records_def replay_def)
qed

lemma last_filter_upt:
  assumes "P k" and "k < n" and "\<And>i. k < i \<Longrightarrow> i < n \<Longrightarrow> \<not> P i"
  shows "filter P [0..<n] \<noteq> [] \<and> last (filter P [0..<n]) = k"
proof -
  have "[0..<n] = [0..<k] @ k # [Suc k..<n]"
    using assms(2) upt_add_eq_append [of 0 k "n - k"] by (simp add: upt_conv_Cons)
  moreover have "filter P [Suc k..<n] = []" using assms(3) by (simp add: filter_empty_conv)
  ultimately show ?thesis using assms(1) by simp
qed

lemma footer_prefix_eq: "footer_prefix = [35, 77, 65, 67, 32]"
  by code_simp

lemma footer_prefix_simps [simp]: "length footer_prefix = 5" "10 \<notin> set footer_prefix" "footer_prefix \<noteq> []"
  unfolding footer_prefix_eq by simp_all

lemma find_footer:
  assumes "10 \<notin> set hx"
  shows "find_last_subslice (b @ [10] @ footer_prefix @ hx @ [10]) (10 # footer_prefix) = Some (length b)"
proof -
  let ?h = "b @ [10] @ footer_prefix @ hx @ [10]" and ?n = "10 # footer_prefix"
  let ?P = "\<lambda>i. take (length ?n) (drop i ?h) = ?n"
  have "\<not> ?P i" if "length b < i" "i < length ?h - length ?n + 1" for i
  proof
    assume "?P i"
    then have "take (length ?n) (drop i ?h) ! 0 = 10" by simp
    then have "(footer_prefix @ hx @ [10]) ! (i - length b - 1) = 10" using that by (simp add: nth_append)
    then have "(footer_prefix @ hx) ! (i - length b - 1) = 10" using that by (auto simp: nth_append split: if_splits)
    moreover have "i - length b - 1 < length (footer_prefix @ hx)" using that by simp
    ultimately show False using assms by (metis Un_iff footer_prefix_simps(2) nth_mem set_append)
  qed
  then have "filter ?P [0..<length ?h - length ?n + 1] \<noteq> [] \<and> last (filter ?P [0..<length ?h - length ?n + 1]) = length b"
    by (intro last_filter_upt) simp_all
  then obtain x xs where f: "filter ?P [0..<length ?h - length ?n + 1] = x # xs" "last (x # xs) = length b"
    by (metis list.exhaust)
  show ?thesis unfolding find_last_subslice_def f(1) list.case f(2) by simp
qed

lemma footer_at_end:
  assumes "10 \<notin> set hx" and "utf8_valid hx"
  shows "footer_at (body @ footer_prefix @ hx @ [10]) (length body) = Some (body, hx)"
proof -
  have "takeWhile (\<lambda>b. b \<noteq> 10) ((footer_prefix @ hx) @ 10 # []) = footer_prefix @ hx"
    using assms(1) footer_prefix_simps(2) by (subst takeWhile_append2) auto
  then show ?thesis using assms(2) by (simp add: footer_at_def Let_def)
qed

lemma split_footer_written:
  assumes "10 \<notin> set hx" and "utf8_valid hx"
  shows "split_footer ((b @ [10]) @ footer_prefix @ hx @ [10]) = Some (b @ [10], hx)"
  using find_footer [OF assms(1), of b] footer_at_end [OF assms, of "b @ [10]"]
  by (simp add: split_footer_def split_footer_from.simps)

lemma hex_bytes_line: "10 \<notin> set (hex_bytes t)" "utf8_valid (hex_bytes t)"
proof -
  have all: "plain c" if "c \<in> set (hex_bytes t)" for c using that hex_bytes_plain [of t] by (simp add: list_all_iff)
  show "10 \<notin> set (hex_bytes t)" using all plain_simps(1) by blast
  show "utf8_valid (hex_bytes t)" using all plain_simps(5) by (auto intro!: utf8_valid_ascii simp: list_all_iff)
qed

lemma journal_body_snoc: "journal_body (recs @ [(fp, kind)]) = journal_body recs @ record_line fp kind @ [10]"
  by (simp add: journal_body_def)

lemma journal_body_newline: "recs \<noteq> [] \<Longrightarrow> \<exists>b. journal_body recs = b @ [10]"
  by (cases recs rule: rev_cases) (auto simp: journal_body_snoc)

lemma split_footer_journal:
  "recs \<noteq> [] \<Longrightarrow> split_footer (journal_body recs @ footer_prefix @ hex_bytes t @ [10]) = Some (journal_body recs, hex_bytes t)"
  using journal_body_newline [of recs] split_footer_written [OF hex_bytes_line] by auto

lemma load_journal:
  assumes "records_ok recs" and "mac_eq env = (=)"
  shows "load_and_verify env (journal_file env mac_key recs) mac_key =
    Inr (replay recs, False, length (journal_file env mac_key recs))"
proof (cases "recs = []")
  case True
  then show ?thesis by (simp add: journal_file_def load_and_verify_def replay_def)
next
  case False
  let ?body = "journal_body recs" let ?tag = "mac env mac_key (JOURNAL_VERSION_MARKER @ ?body)"
  have ver: "check_version (JOURNAL_VERSION_MARKER @ xs) = Inr (V1 (length JOURNAL_VERSION_MARKER) xs)" for xs
    by (simp add: check_version_def Let_def)
  have "JOURNAL_VERSION_MARKER \<noteq> []" by (simp add: JOURNAL_VERSION_MARKER_def)
  moreover have "parse_and_check ?body = Inr (replay recs)"
    using parse_records_body [OF assms(1)] by (simp add: parse_and_check_def)
  moreover have "decode_hex_bytes (hex_bytes ?tag) = Some ?tag" by (simp add: decode_hex_bytes_def hex_pairs_hex_bytes)
  ultimately show ?thesis
    using False assms(2) split_footer_journal [OF False, of ?tag]
    by (simp add: load_and_verify_def journal_file_def ver Let_def)
qed

lemma rewritten_journal:
  "rewritten env (journal_file env mac_key recs) mac_key fp kind = journal_file env mac_key (recs @ [(fp, kind)])"
proof -
  have "read_without_footer_or_marker (journal_file env mac_key recs) = journal_body recs"
  proof (cases "recs = []")
    case True
    have "split_footer [] = None"
      by (simp add: split_footer_def split_footer_from.simps find_last_subslice_def)
    with True show ?thesis
      by (simp add: read_without_footer_or_marker_def journal_file_def journal_body_def JOURNAL_VERSION_MARKER_def Let_def)
  next
    case False
    then show ?thesis
      using split_footer_journal [OF False] by (simp add: read_without_footer_or_marker_def journal_file_def Let_def)
  qed
  then show ?thesis by (simp add: rewritten_def journal_file_def journal_body_snoc Let_def)
qed

section \<open>Refinement\<close>

text \<open>
  What memory knows agrees with what the records say.  A ceiling of \<open>AES_GCM_NONCE_LIMIT\<close> counts
  as poison when the file is read again, so the file may know of poison that memory does not.
\<close>

definition agrees :: "known_map \<Rightarrow> known_map \<Rightarrow> bool" where
  "agrees m d \<longleftrightarrow> (\<forall>fp. persisted (entry_of m fp) = persisted (entry_of d fp) \<and>
     (poisoned (entry_of m fp) \<longrightarrow> poisoned (entry_of d fp)) \<and> persisted (entry_of d fp) \<le> AES_GCM_NONCE_LIMIT)"

definition journal_rel :: "MacEnv \<Rightarrow> bytes \<Rightarrow> journal_record list \<Rightarrow> PersistentGcmCounter \<Rightarrow> bool" where
  "journal_rel env key recs p \<longleftrightarrow>
     (case p of
        InMemory \<Rightarrow> False
      | Journal fb \<Rightarrow>
          records_ok recs \<and> fb_mac_key fb = key \<and> fb_file fb = journal_file env key recs \<and>
          \<not> fb_integrity_failed fb \<and> agrees (fb_known fb) (replay recs))"

text \<open>The contract: the operations of the counter, and the record that each of them must append.\<close>

datatype JournalOp = Advance fingerprint u64 | Flush fingerprint u64 | Poison fingerprint

fun op_ok :: "JournalOp \<Rightarrow> bool" where
  "op_ok (Advance fp n) \<longleftrightarrow> length fp = 32 \<and> n \<le> AES_GCM_NONCE_LIMIT"
| "op_ok (Flush fp n) \<longleftrightarrow> length fp = 32 \<and> n \<le> AES_GCM_NONCE_LIMIT"
| "op_ok (Poison fp) \<longleftrightarrow> length fp = 32"

definition ceiling_of :: "journal_record list \<Rightarrow> fingerprint \<Rightarrow> u64" where
  "ceiling_of recs fp = persisted (entry_of (replay recs) fp)"

fun required_record :: "journal_record list \<Rightarrow> JournalOp \<Rightarrow> journal_record option" where
  "required_record recs (Advance fp n) =
     (if ceiling_of recs fp \<noteq> 0 \<and> n < ceiling_of recs fp then None
      else Some (fp, Count (min (n + BATCH_THRESHOLD) AES_GCM_NONCE_LIMIT)))"
| "required_record recs (Flush fp n) = (if n \<le> ceiling_of recs fp then None else Some (fp, Count n))"
| "required_record recs (Poison fp) = Some (fp, Poisoned)"

fun perform ::
  "MacEnv \<Rightarrow> WriteOutcome \<Rightarrow> PersistentGcmCounter \<Rightarrow> JournalOp \<Rightarrow> PersistentGcmCounter \<times> (HsmError + unit)" where
  "perform env io p (Advance fp n) = record_advance env io p fp n"
| "perform env io p (Flush fp n) = flush_fingerprint env io p fp n"
| "perform env io p (Poison fp) = record_poison env io p fp"

lemma replay_snoc: "replay (recs @ [r]) = apply_record r (replay recs)"
  by (simp add: replay_def)

lemma entry_of_update [simp]: "entry_of (m(fp \<mapsto> e)) x = (if x = fp then e else entry_of m x)"
  by (simp add: entry_of_def)

lemma agrees_touch: "agrees m d \<Longrightarrow> agrees (m(fp \<mapsto> entry_of m fp)) d"
  by (simp add: agrees_def)

lemma agrees_count:
  assumes "agrees m d" and "persisted (entry_of d fp) \<le> n" and "n \<le> AES_GCM_NONCE_LIMIT"
  shows "agrees (m(fp \<mapsto> (entry_of m fp)\<lparr>persisted := n\<rparr>)) (apply_record (fp, Count n) d)"
  using assms by (simp add: agrees_def apply_record_def max_def)

lemma agrees_poison:
  assumes "agrees m d"
  shows "agrees (m(fp \<mapsto> (entry_of m fp)\<lparr>poisoned := True, persisted := AES_GCM_NONCE_LIMIT\<rparr>)) (apply_record (fp, Poisoned) d)"
  using assms by (simp add: agrees_def apply_record_def)

lemma advance_ceiling:
  assumes "n \<le> AES_GCM_NONCE_LIMIT"
  shows "saturating_add n BATCH_THRESHOLD = n + BATCH_THRESHOLD" and "n \<le> n + BATCH_THRESHOLD"
proof -
  have "unat n \<le> 2 ^ 32" using assms by (simp add: AES_GCM_NONCE_LIMIT_def word_le_nat_alt)
  then have "unat n + unat BATCH_THRESHOLD < 2 ^ 64" by (simp add: BATCH_THRESHOLD_def)
  then show "saturating_add n BATCH_THRESHOLD = n + BATCH_THRESHOLD" "n \<le> n + BATCH_THRESHOLD"
    by (simp_all add: saturating_add_def word_le_nat_alt unat_word_ariths)
qed

lemma records_ok_snoc: "records_ok (recs @ [(fp, kind)]) \<longleftrightarrow> records_ok recs \<and> length fp = 32"
  by (auto simp: records_ok_def)

lemma journal_relE:
  assumes "journal_rel env key recs p"
  obtains fb where "p = Journal fb" "records_ok recs" "fb_mac_key fb = key" "fb_file fb = journal_file env key recs"
    "\<not> fb_integrity_failed fb" "agrees (fb_known fb) (replay recs)"
  using assms by (cases p) (auto simp: journal_rel_def)

lemma journal_rel_ceiling:
  assumes "journal_rel env key recs p"
  shows "fst (persisted_state p fp) = ceiling_of recs fp" and "ceiling_of recs fp \<le> AES_GCM_NONCE_LIMIT"
proof -
  from assms obtain fb where fb: "p = Journal fb" "\<not> fb_integrity_failed fb" "agrees (fb_known fb) (replay recs)"
    by (rule journal_relE)
  have "persisted (entry_of (fb_known fb) fp) = ceiling_of recs fp" using fb(3) by (simp add: agrees_def ceiling_of_def)
  then show "fst (persisted_state p fp) = ceiling_of recs fp"
    using fb(1,2) by (cases "fb_known fb fp") (simp_all add: persisted_state_def entry_of_def entry_default_def)
  from fb(3) show "ceiling_of recs fp \<le> AES_GCM_NONCE_LIMIT" by (simp add: agrees_def ceiling_of_def)
qed

lemma write_journal:
  "write_record env Written (journal_file env key recs) key fp kind = (journal_file env key (recs @ [(fp, kind)]), Inr ())"
  "write_record env Refused file key fp kind = (file, Inl GeneralError)"
  by (simp_all add: write_record_def rewritten_journal Let_def)

text \<open>An operation that needs no record succeeds whatever the disk does.\<close>

lemma perform_no_record:
  assumes "journal_rel env key recs p" and "required_record recs op = None"
  shows "journal_rel env key recs (fst (perform env io p op))" and "snd (perform env io p op) = Inr ()"
proof -
  from assms(1) obtain fb where fb: "p = Journal fb" "records_ok recs" "fb_mac_key fb = key"
      "fb_file fb = journal_file env key recs" "\<not> fb_integrity_failed fb" "agrees (fb_known fb) (replay recs)"
    by (rule journal_relE)
  have c: "persisted (entry_of (fb_known fb) fp) = ceiling_of recs fp" for fp
    using fb(6) by (simp add: agrees_def ceiling_of_def)
  let ?touched = "\<lambda>fp. Journal (fb\<lparr>fb_known := (fb_known fb)(fp \<mapsto> entry_of (fb_known fb) fp)\<rparr>)"
  have adv: "record_advance env io p fp n = (?touched fp, Inr ())" if "required_record recs (Advance fp n) = None" for fp n
    using that unfolding fb(1) record_advance_def required_record.simps
    by (simp add: fb(5) c Let_def split: if_splits)
  have flush: "flush_fingerprint env io p fp n = (?touched fp, Inr ())" if "required_record recs (Flush fp n) = None" for fp n
    using that unfolding fb(1) flush_fingerprint_def required_record.simps
    by (simp add: fb(5) c Let_def split: if_splits)
  have rel: "journal_rel env key recs (?touched fp)" for fp
    using fb agrees_touch [OF fb(6)] by (simp add: journal_rel_def)
  show "journal_rel env key recs (fst (perform env io p op))" "snd (perform env io p op) = Inr ()"
    using assms(2) by (cases op; simp add: adv flush rel del: required_record.simps(1,2))+
qed

lemma perform_refused:
  assumes "journal_rel env key recs p" and "required_record recs op = Some r"
  shows "journal_rel env key recs (fst (perform env Refused p op))" and "snd (perform env Refused p op) = Inl GeneralError"
proof -
  from assms(1) obtain fb where fb: "p = Journal fb" "records_ok recs" "fb_mac_key fb = key"
      "fb_file fb = journal_file env key recs" "\<not> fb_integrity_failed fb" "agrees (fb_known fb) (replay recs)"
    by (rule journal_relE)
  have c: "persisted (entry_of (fb_known fb) fp) = ceiling_of recs fp" for fp
    using fb(6) by (simp add: agrees_def ceiling_of_def)
  let ?touched = "\<lambda>fp. Journal (fb\<lparr>fb_known := (fb_known fb)(fp \<mapsto> entry_of (fb_known fb) fp)\<rparr>)"
  have adv: "record_advance env Refused p fp n = (?touched fp, Inl GeneralError)" if "required_record recs (Advance fp n) = Some r" for fp n
    using that unfolding fb(1) record_advance_def required_record.simps
    by (simp add: fb(5) c Let_def write_journal split: if_splits)
  have flush: "flush_fingerprint env Refused p fp n = (?touched fp, Inl GeneralError)" if "required_record recs (Flush fp n) = Some r" for fp n
    using that unfolding fb(1) flush_fingerprint_def required_record.simps
    by (simp add: fb(5) c Let_def write_journal split: if_splits)
  have poison: "record_poison env Refused p fp = (p, Inl GeneralError)" for fp
    unfolding fb(1) record_poison_def by (simp add: fb(5) write_journal Let_def)
  have rel: "journal_rel env key recs (?touched fp)" for fp
    using fb agrees_touch [OF fb(6)] by (simp add: journal_rel_def)
  show "journal_rel env key recs (fst (perform env Refused p op))" "snd (perform env Refused p op) = Inl GeneralError"
    using assms by (cases op; simp add: adv flush poison rel del: required_record.simps(1,2))+
qed

lemma perform_written:
  assumes "journal_rel env key recs p" and "op_ok op" and "required_record recs op = Some r"
  shows "journal_rel env key (recs @ [r]) (fst (perform env Written p op))" and "snd (perform env Written p op) = Inr ()"
proof -
  from assms(1) obtain fb where fb: "p = Journal fb" "records_ok recs" "fb_mac_key fb = key"
      "fb_file fb = journal_file env key recs" "\<not> fb_integrity_failed fb" and ag: "agrees (fb_known fb) (replay recs)"
    by (rule journal_relE)
  have c: "persisted (entry_of (fb_known fb) fp) = ceiling_of recs fp" "ceiling_of recs fp \<le> AES_GCM_NONCE_LIMIT" for fp
    using ag by (simp_all add: agrees_def ceiling_of_def)
  have count: "perform env Written p op = (Journal (fb\<lparr>fb_file := journal_file env key (recs @ [r]),
        fb_known := (fb_known fb)(fp \<mapsto> (entry_of (fb_known fb) fp)\<lparr>persisted := k\<rparr>)\<rparr>), Inr ())
      \<and> length fp = 32 \<and> ceiling_of recs fp \<le> k \<and> k \<le> AES_GCM_NONCE_LIMIT"
    if "op = Advance fp n \<and> r = (fp, Count k) \<or> op = Flush fp n \<and> r = (fp, Count k)" for fp n k
    using that assms(2,3) fb c [of fp] advance_ceiling [of n]
    by (auto simp: record_advance_def flush_fingerprint_def write_journal Let_def min_le_iff_disj split: if_splits)
  have poison: "perform env Written p (Poison fp) = (Journal (fb\<lparr>fb_file := journal_file env key (recs @ [(fp, Poisoned)]),
        fb_known := (fb_known fb)(fp \<mapsto> (entry_of (fb_known fb) fp)\<lparr>poisoned := True, persisted := AES_GCM_NONCE_LIMIT\<rparr>)\<rparr>), Inr ())" for fp
    using fb by (simp add: record_poison_def write_journal Let_def)
  consider (C) fp n k where "op = Advance fp n \<and> r = (fp, Count k) \<or> op = Flush fp n \<and> r = (fp, Count k)"
    | (P) fp where "op = Poison fp" "r = (fp, Poisoned)"
    using assms(3) by (cases op) (auto split: if_splits)
  then have "journal_rel env key (recs @ [r]) (fst (perform env Written p op)) \<and> snd (perform env Written p op) = Inr ()"
  proof cases
    case C
    with count [OF C] fb agrees_count [OF ag, of fp k] show ?thesis
      by (auto simp: journal_rel_def records_ok_snoc replay_snoc ceiling_of_def)
  next
    case P
    with poison fb agrees_poison [OF ag, of fp] assms(2) show ?thesis
      by (simp add: journal_rel_def records_ok_snoc replay_snoc)
  qed
  then show "journal_rel env key (recs @ [r]) (fst (perform env Written p op))" "snd (perform env Written p op) = Inr ()"
    by simp_all
qed

lemma agrees_refl: "agrees m d \<Longrightarrow> agrees d d"
  by (simp add: agrees_def)

lemma reopen_journal:
  assumes "agrees m (replay recs)" and "records_ok recs" and "mac_eq env = (=)"
  shows "\<exists>q. file_backed env False key legacy (journal_file env key recs) = Inr q \<and> journal_rel env key recs q \<and>
    (\<forall>fp. persisted_state q fp = (persisted (entry_of (replay recs) fp), poisoned (entry_of (replay recs) fp)))"
  using load_journal [OF assms(2,3), of key] agrees_refl [OF assms(1)] assms(2)
  by (simp add: file_backed_def journal_rel_def persisted_state_def entry_of_def entry_default_def split: option.splits)

text \<open>
  Without the footer line nothing is verified: the records are taken as they stand, whatever
  the key, and the journal counts as sound.
\<close>

lemma footerless_body:
  assumes "35 \<notin> set b"
  shows "split_footer b = None"
proof -
  have no: "take (length n) (drop i b) \<noteq> n" if "35 \<in> set n" for n i
    using assms that by (metis in_set_dropD in_set_takeD)
  have "35 \<in> set (10 # footer_prefix)" "35 \<in> set footer_prefix" by (simp_all add: footer_prefix_eq)
  then have "find_last_subslice b (10 # footer_prefix) = None" "take 5 b \<noteq> footer_prefix"
    using no [of "10 # footer_prefix"] no [of footer_prefix 0]
    by (simp_all add: find_last_subslice_def split: list.split del: upt_Suc)
  then show ?thesis by (simp add: split_footer_def split_footer_from.simps)
qed

lemma journal_body_no_hash: "35 \<notin> set (journal_body recs)"
proof -
  have "35 \<notin> set (record_line fp kind)" for fp kind
    using hex_bytes_plain [of fp] value_text_plain [of kind] by (auto simp: record_line_def list_all_iff dest!: bspec plain_simps(4))
  then show ?thesis by (auto simp: journal_body_def)
qed

theorem footerless_journal_accepted:
  assumes "records_ok recs"
  shows "load_and_verify env (JOURNAL_VERSION_MARKER @ journal_body recs) mac_key =
    Inr (replay recs, False, length (JOURNAL_VERSION_MARKER @ journal_body recs))"
proof -
  have "JOURNAL_VERSION_MARKER \<noteq> []" by (simp add: JOURNAL_VERSION_MARKER_def)
  then show ?thesis
    using parse_records_body [OF assms] footerless_body [OF journal_body_no_hash]
    by (simp add: load_and_verify_def check_version_def parse_and_check_def Let_def)
qed

text \<open>
  A rewrite that stops right after the file was cut loses every record, and the journal opens
  again as an empty one.
\<close>

theorem torn_write_forgets:
  "\<exists>q. file_backed env False key legacy (fst (write_record env (Torn 0) file key fp kind)) = Inr q \<and>
    (\<forall>x. persisted_state q x = (0, False))"
  by (simp add: write_record_def file_backed_def load_and_verify_def persisted_state_def Let_def)

text \<open>
  C33: The journal refines the list of its records.  From a counter whose file and memory stand
  for the records \<open>recs\<close>, an operation that needs no record succeeds without one; an operation
  that needs a record appends exactly that record when the write succeeds, and reports an error
  and changes nothing when the write is refused.  Opening the file again, after a restart, gives a counter that
  stands for the same records, and what it reports for every fingerprint is what the records say.
\<close>

theorem journal_refines_records:
  assumes "journal_rel env key recs p" and "op_ok op" and "mac_eq env = (=)"
  shows "(case required_record recs op of
      None \<Rightarrow> journal_rel env key recs (fst (perform env io p op)) \<and> snd (perform env io p op) = Inr ()
    | Some r \<Rightarrow>
        journal_rel env key (recs @ [r]) (fst (perform env Written p op)) \<and> snd (perform env Written p op) = Inr () \<and>
        journal_rel env key recs (fst (perform env Refused p op)) \<and> snd (perform env Refused p op) = Inl GeneralError) \<and>
    (\<exists>q. file_backed env False key legacy (journal_file env key recs) = Inr q \<and> journal_rel env key recs q \<and>
      (\<forall>fp. persisted_state q fp = (persisted (entry_of (replay recs) fp), poisoned (entry_of (replay recs) fp))))"
  using perform_no_record [OF assms(1)] perform_refused [OF assms(1)] perform_written [OF assms(1,2)]
    assms(1,3) reopen_journal
  by (auto split: option.split elim!: journal_relE)

definition xor_env :: MacEnv where
  "xor_env = \<lparr>mac = (\<lambda>key msg. [fold xor (key @ msg) 0]), mac_eq = (=), sha256 = (\<lambda>b. take 32 (b @ replicate 32 0))\<rparr>"

theorem journal_refines_records_witness:
  "journal_rel xor_env [7] [(replicate 32 1, Count 1025)]
     (fst (perform xor_env Written (Journal \<lparr>fb_file = [], fb_mac_key = [7], fb_known = Map.empty, fb_integrity_failed = False\<rparr>)
       (Advance (replicate 32 1) 1)))"
proof -
  let ?p = "Journal \<lparr>fb_file = [], fb_mac_key = [7], fb_known = Map.empty, fb_integrity_failed = False\<rparr>"
  have rel: "journal_rel xor_env [7] [] ?p"
    by (simp add: journal_rel_def records_ok_def journal_file_def agrees_def replay_def entry_of_def entry_default_def)
  have "op_ok (Advance (replicate 32 1) 1)" by (simp add: AES_GCM_NONCE_LIMIT_def)
  moreover have "required_record [] (Advance (replicate 32 1) 1) = Some (replicate 32 1, Count 1025)"
    by (simp add: ceiling_of_def replay_def entry_of_def entry_default_def BATCH_THRESHOLD_def AES_GCM_NONCE_LIMIT_def)
  moreover have "mac_eq xor_env = (=)" by (simp add: xor_env_def)
  ultimately show ?thesis using journal_refines_records [OF rel] by fastforce
qed

end
