(* ===== verification/Gcm_Counter.thy ===== *)
theory Gcm_Counter
  imports Gcm_Journal
begin

text \<open>
  The per-key AES-GCM usage counters of \<open>craton-hsm-awslc/src/lib.rs\<close>: reservation, reset and
  eviction over the persistent journal, and their runs, which may restart the process.  The
  static maps are one state record.  The order in which a map is walked and the outcomes of the
  file writes are arguments.
\<close>

section \<open>State\<close>

definition GCM_COUNTER_MAP_MAX :: nat where
  "GCM_COUNTER_MAP_MAX = 10000"

definition GCM_WARN_THRESHOLDS :: "u64 list" where
  "GCM_WARN_THRESHOLDS = [50, 75, 90, 95, 99]"

definition GCM_FLUSH_FAILURE_POISON_THRESHOLD :: u32 where
  "GCM_FLUSH_FAILURE_POISON_THRESHOLD = 5"

definition GCM_EVICT_INTERVAL :: u64 where
  "GCM_EVICT_INTERVAL = 1024"

record GcmCounter =
  count :: u64
  warn_mask :: u64
  flush_failure_streak :: u32

definition GcmCounter_new :: GcmCounter where
  "GcmCounter_new = \<lparr>count = 0, warn_mask = 0, flush_failure_streak = 0\<rparr>"

text \<open>
  The statics \<open>AES_GCM_COUNTERS\<close>, \<open>GCM_KEY_LOCKS\<close> and \<open>GCM_EVICT_TICK\<close>, and the process-wide
  journal.  A lock is a number; \<open>next_lock\<close> is the number of the next mutex created.
\<close>

record GcmState =
  counters :: "fingerprint \<rightharpoonup> GcmCounter"
  key_locks :: "fingerprint \<rightharpoonup> nat"
  next_lock :: nat
  evict_tick :: u64
  journal :: PersistentGcmCounter

section \<open>Operations\<close>

definition remove_counter :: "fingerprint \<Rightarrow> GcmState \<Rightarrow> GcmState" where
  "remove_counter fp st = st\<lparr>counters := (counters st)(fp := None), key_locks := (key_locks st)(fp := None)\<rparr>"

definition reset_gcm_counter :: "MacEnv \<Rightarrow> bytes \<Rightarrow> GcmState \<Rightarrow> GcmState" where
  "reset_gcm_counter env key st = remove_counter (fingerprint_of env key) st"

text \<open>One candidate of the eviction: \<open>ios\<close> gives the outcomes of its flush and of its poison record.\<close>

definition evict_one :: "MacEnv \<Rightarrow> (fingerprint \<Rightarrow> WriteOutcome \<times> WriteOutcome) \<Rightarrow> fingerprint \<times> u64 \<Rightarrow> GcmState \<Rightarrow> GcmState" where
  "evict_one env ios row st =
     (let (fp, cnt) = row; (p1, res) = flush_fingerprint env (fst (ios fp)) (journal st) fp cnt; st1 = st\<lparr>journal := p1\<rparr> in
      case res of
        Inr _ \<Rightarrow> remove_counter fp st1
      | Inl e \<Rightarrow>
          (case counters st fp of
             None \<Rightarrow> st1
           | Some c \<Rightarrow>
               let streak = flush_failure_streak c + 1;
                   st2 = st1\<lparr>counters := (counters st)(fp \<mapsto> c\<lparr>flush_failure_streak := streak\<rparr>)\<rparr>
               in if streak \<ge> GCM_FLUSH_FAILURE_POISON_THRESHOLD
                  then st2\<lparr>journal := fst (record_poison env (snd (ios fp)) p1 fp)\<rparr>
                  else st2))"

text \<open>\<open>order\<close> lists the keys of the counter map as its iterator yields them.\<close>

definition evict_gcm_counters ::
  "MacEnv \<Rightarrow> (fingerprint \<Rightarrow> WriteOutcome \<times> WriteOutcome) \<Rightarrow> fingerprint list \<Rightarrow> nat \<Rightarrow> GcmState \<Rightarrow> GcmState" where
  "evict_gcm_counters env ios order max_entries st =
     (let items = List.map_filter (\<lambda>fp. map_option (\<lambda>c. (fp, count c)) (counters st fp)) order;
          exhausted = filter (\<lambda>(_, cnt). cnt \<ge> AES_GCM_NONCE_LIMIT) items;
          snapshot = filter (\<lambda>(_, cnt). \<not> cnt \<ge> AES_GCM_NONCE_LIMIT) items;
          st1 = fold (\<lambda>(fp, _). remove_counter fp) exhausted st
      in if length snapshot \<le> max_entries then st1
         else
           let threshold = sort (map snd snapshot) ! max_entries
           in fold (evict_one env ios) (filter (\<lambda>(_, cnt). cnt < threshold) snapshot) st1)"

definition acquire_key_lock :: "fingerprint \<Rightarrow> GcmState \<Rightarrow> GcmState \<times> nat" where
  "acquire_key_lock fp st =
     (case key_locks st fp of
        Some l \<Rightarrow> (st, l)
      | None \<Rightarrow> (st\<lparr>key_locks := (key_locks st)(fp \<mapsto> next_lock st), next_lock := next_lock st + 1\<rparr>, next_lock st))"

definition warned :: "u64 \<Rightarrow> u64 \<Rightarrow> u64" where
  "warned new_count old_mask =
     (let pct = new_count * 100 div AES_GCM_NONCE_LIMIT in
      fold (\<lambda>(i, t) m. if pct \<ge> t \<and> and old_mask (push_bit i 1) = 0 then or m (push_bit i 1) else m)
        (enumerate 0 GCM_WARN_THRESHOLDS) old_mask)"

text \<open>
  The reservation proper, under the key's lock, from the \<open>snapshot\<close> of the journal to the
  throttled warnings.  The result carries the local \<open>new_count\<close>.
\<close>

definition reserve_count :: "MacEnv \<Rightarrow> WriteOutcome \<Rightarrow> fingerprint \<Rightarrow> u64 \<Rightarrow> GcmState \<Rightarrow> GcmState \<times> (HsmError + u64)" where
  "reserve_count env io fp snapshot st =
     (let counter = (case counters st fp of
            Some c \<Rightarrow> c
          | None \<Rightarrow> if snapshot > 0 then GcmCounter_new\<lparr>count := snapshot\<rparr> else GcmCounter_new);
          current = count counter;
          st1 = st\<lparr>counters := (counters st)(fp \<mapsto> counter)\<rparr>
      in if current \<ge> AES_GCM_NONCE_LIMIT
         then (st1\<lparr>journal := fst (record_poison env io (journal st) fp)\<rparr>, Inl GeneralError)
         else
           let (p1, res) = record_advance env io (journal st) fp (current + 1) in
           case res of
             Inl e \<Rightarrow> (st1\<lparr>journal := p1\<rparr>, Inl e)
           | Inr _ \<Rightarrow>
               let new_count = current + 1;
                   counter1 = counter\<lparr>count := new_count, warn_mask := warned new_count (warn_mask counter)\<rparr>
               in (st\<lparr>counters := (counters st)(fp \<mapsto> counter1), journal := p1\<rparr>, Inr new_count))"

text \<open>Everything up to the eviction.\<close>

definition reserve_locked :: "MacEnv \<Rightarrow> WriteOutcome \<Rightarrow> fingerprint \<Rightarrow> GcmState \<Rightarrow> GcmState \<times> (HsmError + u64)" where
  "reserve_locked env io fp st =
     (let st1 = fst (acquire_key_lock fp st); (snapshot, disk_poisoned) = persisted_state (journal st1) fp in
      if disk_poisoned then (st1, Inl GeneralError) else reserve_count env io fp snapshot st1)"

definition evict_opportunistically ::
  "MacEnv \<Rightarrow> (fingerprint \<Rightarrow> WriteOutcome \<times> WriteOutcome) \<Rightarrow> fingerprint list \<Rightarrow> GcmState \<Rightarrow> GcmState" where
  "evict_opportunistically env ios order st =
     (let st1 = st\<lparr>evict_tick := evict_tick st + 1\<rparr> in
      if evict_tick st mod GCM_EVICT_INTERVAL = 0 \<and> length order > GCM_COUNTER_MAP_MAX
      then evict_gcm_counters env ios order GCM_COUNTER_MAP_MAX st1
      else st1)"

definition reserve_gcm_nonce ::
  "MacEnv \<Rightarrow> WriteOutcome \<Rightarrow> (fingerprint \<Rightarrow> WriteOutcome \<times> WriteOutcome) \<Rightarrow> fingerprint list \<Rightarrow> bytes \<Rightarrow> GcmState
     \<Rightarrow> GcmState \<times> (HsmError + unit)" where
  "reserve_gcm_nonce env io ios order key st =
     (case reserve_locked env io (fingerprint_of env key) st of
        (st1, Inl e) \<Rightarrow> (st1, Inl e)
      | (st1, Inr _) \<Rightarrow> (evict_opportunistically env ios order st1, Inr ()))"

section \<open>The interface to the journal\<close>

text \<open>
  Counts handed out under a key, with the counters in memory and the ceilings of the store:
  no count was handed out twice, and every one is at most the ceiling and the counter.
\<close>

definition covered :: "('k \<rightharpoonup> u64) \<Rightarrow> ('k \<Rightarrow> u64) \<Rightarrow> ('k \<times> u64) list \<Rightarrow> bool" where
  "covered counts ceil log \<longleftrightarrow> distinct log \<and>
     (\<forall>k n. (k, n) \<in> set log \<longrightarrow> 0 < n \<and> n \<le> ceil k \<and> (\<forall>c. counts k = Some c \<longrightarrow> n \<le> c)) \<and>
     (\<forall>k c. counts k = Some c \<longrightarrow> c \<le> ceil k)"

lemma covered_forget: "covered counts ceil log \<Longrightarrow> covered (counts(k := None)) ceil log"
  by (auto simp: covered_def)

lemma covered_hydrate: "covered counts ceil log \<Longrightarrow> counts k = None \<Longrightarrow> covered (counts(k \<mapsto> ceil k)) ceil log"
  by (auto simp: covered_def)

lemma covered_take:
  assumes "covered counts ceil log" and "counts k = Some c" and "c < c + 1" and "c + 1 \<le> ceil k"
  shows "covered (counts(k \<mapsto> c + 1)) ceil (log @ [(k, c + 1)])"
proof -
  have "(k, c + 1) \<notin> set log" using assms unfolding covered_def by (meson leD)
  moreover have "0 < c + 1" using assms(3) by (metis word_gt_0 word_not_simps(1))
  moreover have "n \<le> c + 1" if "(k, n) \<in> set log" for n
    using that assms unfolding covered_def by (meson less_imp_le order_trans)
  ultimately show ?thesis using assms(1,4) by (simp add: covered_def)
qed

text \<open>
  What the reservation relies on: the states of the store that are sound stay so, and no
  ceiling ever falls.
\<close>

locale ceiling_store =
  fixes good :: "'s \<Rightarrow> bool"
    and ceiling :: "'s \<Rightarrow> 'k \<Rightarrow> u64"
    and later :: "'s \<Rightarrow> 's \<Rightarrow> bool"
  assumes good_later: "good s \<Longrightarrow> later s t \<Longrightarrow> good t"
    and ceiling_later: "good s \<Longrightarrow> later s t \<Longrightarrow> ceiling s k \<le> ceiling t k"
begin

lemma covered_later:
  assumes "good s" and "later s t" and "covered counts (ceiling s) log"
  shows "good t" and "covered counts (ceiling t) log"
proof -
  show "good t" using assms(1,2) by (rule good_later)
  have "ceiling s k \<le> ceiling t k" for k using assms(1,2) by (rule ceiling_later)
  then show "covered counts (ceiling t) log"
    using assms(3) unfolding covered_def by (meson order_trans)
qed

lemma covered_restart:
  assumes "good s" and "later s t" and "covered counts (ceiling s) log"
  shows "good t" and "covered Map.empty (ceiling t) log"
  using covered_later [OF assms] by (auto simp: covered_def)

end

text \<open>
  The journal is such a store: its sound states stand for a list of records, and it moves by its
  operations, with writes that happen or are refused, and by opening the file again.
\<close>

definition journal_good :: "MacEnv \<Rightarrow> bytes \<Rightarrow> PersistentGcmCounter \<Rightarrow> bool" where
  "journal_good env mac_key p \<longleftrightarrow> mac_eq env = (=) \<and> (\<exists>recs. journal_rel env mac_key recs p)"

definition journal_ceiling :: "PersistentGcmCounter \<Rightarrow> fingerprint \<Rightarrow> u64" where
  "journal_ceiling p fp = fst (persisted_state p fp)"

fun not_torn :: "WriteOutcome \<Rightarrow> bool" where
  "not_torn (Torn n) \<longleftrightarrow> False"
| "not_torn _ \<longleftrightarrow> True"

fun file_of :: "PersistentGcmCounter \<Rightarrow> bytes" where
  "file_of (Journal fb) = fb_file fb"
| "file_of InMemory = []"

definition journal_later :: "MacEnv \<Rightarrow> bytes \<Rightarrow> PersistentGcmCounter \<Rightarrow> PersistentGcmCounter \<Rightarrow> bool" where
  "journal_later env mac_key p q \<longleftrightarrow>
     (\<exists>io op. not_torn io \<and> op_ok op \<and> q = fst (perform env io p op)) \<or>
     (\<exists>legacy. file_backed env False mac_key legacy (file_of p) = Inr q)"

lemma apply_record_mono:
  assumes "persisted (entry_of known fp) \<le> AES_GCM_NONCE_LIMIT"
  shows "persisted (entry_of known fp) \<le> persisted (entry_of (apply_record r known) fp)"
  using assms by (cases r; cases "snd r") (auto simp: apply_record_def Let_def)

lemma ceiling_of_snoc:
  assumes "journal_rel env mac_key recs p"
  shows "ceiling_of recs fp \<le> ceiling_of (recs @ [r]) fp"
  using journal_rel_ceiling(2) [OF assms, of fp] apply_record_mono by (simp add: ceiling_of_def replay_snoc)

lemma perform_later:
  assumes "journal_rel env mac_key recs p" and "op_ok op" and "not_torn io"
  shows "\<exists>recs'. journal_rel env mac_key recs' (fst (perform env io p op)) \<and> (\<forall>fp. ceiling_of recs fp \<le> ceiling_of recs' fp)"
proof (cases "required_record recs op")
  case None
  then show ?thesis using perform_no_record(1) [OF assms(1)] by blast
next
  case (Some r)
  consider "io = Written" | "io = Refused" using assms(3) by (cases io) auto
  then show ?thesis
  proof cases
    case 1
    then show ?thesis using perform_written(1) [OF assms(1,2) Some] ceiling_of_snoc [OF assms(1)] by blast
  next
    case 2
    then show ?thesis using perform_refused(1) [OF assms(1) Some] by blast
  qed
qed

lemma reopen_later:
  assumes "journal_rel env mac_key recs p" and "mac_eq env = (=)" and "file_backed env False mac_key legacy (file_of p) = Inr q"
  shows "journal_rel env mac_key recs q"
proof -
  from assms(1) obtain fb where "p = Journal fb" "records_ok recs" "fb_file fb = journal_file env mac_key recs"
      "agrees (fb_known fb) (replay recs)" by (rule journal_relE)
  with reopen_journal [of "fb_known fb" recs env mac_key legacy] assms(2,3) show ?thesis by auto
qed

lemma journal_later_rel:
  assumes "journal_rel env mac_key recs p" and "mac_eq env = (=)" and "journal_later env mac_key p q"
  shows "\<exists>recs'. journal_rel env mac_key recs' q \<and> (\<forall>fp. ceiling_of recs fp \<le> ceiling_of recs' fp)"
  using assms(3) perform_later [OF assms(1)] reopen_later [OF assms(1,2)] unfolding journal_later_def by blast

interpretation gcm: ceiling_store "journal_good env mac_key" journal_ceiling "journal_later env mac_key" for env mac_key
proof unfold_locales
  fix s t k
  assume "journal_good env mac_key s" and later: "journal_later env mac_key s t"
  then obtain recs where recs: "journal_rel env mac_key recs s" and eq: "mac_eq env = (=)"
    by (auto simp: journal_good_def)
  from journal_later_rel [OF recs eq later] obtain recs' where
    t: "journal_rel env mac_key recs' t" "\<forall>fp. ceiling_of recs fp \<le> ceiling_of recs' fp" by blast
  from t(1) eq show "journal_good env mac_key t" by (auto simp: journal_good_def)
  from t recs show "journal_ceiling s k \<le> journal_ceiling t k"
    by (simp add: journal_ceiling_def journal_rel_ceiling(1))
qed

section \<open>Runs\<close>

definition counts :: "GcmState \<Rightarrow> fingerprint \<rightharpoonup> u64" where
  "counts st fp = map_option count (counters st fp)"

definition started :: "PersistentGcmCounter \<Rightarrow> GcmState" where
  "started p = \<lparr>counters = Map.empty, key_locks = Map.empty, next_lock = 0, evict_tick = 0, journal = p\<rparr>"

text \<open>
  A run: calls of the operations, and restarts that keep the file and nothing else.  The second
  component lists the counts handed out, under their fingerprints, in order.
\<close>

inductive usage_step :: "MacEnv \<Rightarrow> bytes \<Rightarrow> GcmState \<times> (fingerprint \<times> u64) list \<Rightarrow> GcmState \<times> (fingerprint \<times> u64) list \<Rightarrow> bool"
  for env mac_key where
  reserved: "reserve_gcm_nonce env io ios order key st = (st', Inr ()) \<Longrightarrow>
    snd (reserve_locked env io (fingerprint_of env key) st) = Inr n \<Longrightarrow> not_torn io \<Longrightarrow>
    (\<forall>fp. not_torn (fst (ios fp)) \<and> not_torn (snd (ios fp))) \<Longrightarrow>
    usage_step env mac_key (st, log) (st', log @ [(fingerprint_of env key, n)])"
| refused: "reserve_gcm_nonce env io ios order key st = (st', Inl e) \<Longrightarrow> not_torn io \<Longrightarrow>
    usage_step env mac_key (st, log) (st', log)"
| reset: "usage_step env mac_key (st, log) (reset_gcm_counter env key st, log)"
| evict: "\<forall>fp. not_torn (fst (ios fp)) \<and> not_torn (snd (ios fp)) \<Longrightarrow>
    usage_step env mac_key (st, log) (evict_gcm_counters env ios order max_entries st, log)"
| restart: "file_backed env False mac_key legacy (file_of (journal st)) = Inr p \<Longrightarrow>
    usage_step env mac_key (st, log)
      (started p, log)"

definition usage_inv :: "MacEnv \<Rightarrow> bytes \<Rightarrow> GcmState \<Rightarrow> (fingerprint \<times> u64) list \<Rightarrow> bool" where
  "usage_inv env mac_key st log \<longleftrightarrow>
     journal_good env mac_key (journal st) \<and> covered (counts st) (journal_ceiling (journal st)) log \<and>
     (\<forall>fp \<in> dom (counters st). length fp = 32)"

lemma counts_simps [simp]:
  "counts (st\<lparr>journal := p\<rparr>) = counts st"
  "counts (st\<lparr>evict_tick := t\<rparr>) = counts st"
  "counts (st\<lparr>counters := cs\<rparr>) = map_option count \<circ> cs"
  "counts (remove_counter fp st) = (counts st)(fp := None)"
  by (auto simp: counts_def remove_counter_def fun_eq_iff)

lemma journal_good_limit: "journal_good env mac_key p \<Longrightarrow> journal_ceiling p fp \<le> AES_GCM_NONCE_LIMIT"
  by (auto simp: journal_good_def journal_ceiling_def journal_rel_ceiling)

lemma usage_inv_journal:
  assumes "usage_inv env mac_key st log" and "journal_later env mac_key (journal st) p"
  shows "usage_inv env mac_key (st\<lparr>journal := p\<rparr>) log"
  using assms gcm.covered_later [of env mac_key "journal st" p "counts st" log] by (simp add: usage_inv_def)

lemma usage_inv_remove: "usage_inv env mac_key st log \<Longrightarrow> usage_inv env mac_key (remove_counter fp st) log"
  unfolding usage_inv_def counts_simps by (auto simp: covered_forget remove_counter_def split: if_splits)

lemma later_perform: "op_ok op \<Longrightarrow> not_torn io \<Longrightarrow> journal_later env mac_key p (fst (perform env io p op))"
  by (auto simp: journal_later_def)

lemma usage_inv_poison:
  assumes "usage_inv env mac_key st log" and "not_torn io" and "length fp = 32"
  shows "usage_inv env mac_key (st\<lparr>journal := fst (record_poison env io (journal st) fp)\<rparr>) log"
  using usage_inv_journal [OF assms(1) later_perform [of "Poison fp" io]] assms(2,3) by simp

lemma usage_inv_flush:
  assumes "usage_inv env mac_key st log" and "not_torn io" and "length fp = 32" and "n \<le> AES_GCM_NONCE_LIMIT"
  shows "usage_inv env mac_key (st\<lparr>journal := fst (flush_fingerprint env io (journal st) fp n)\<rparr>) log"
  using usage_inv_journal [OF assms(1) later_perform [of "Flush fp n" io]] assms(2,3,4) by simp

text \<open>Fields of a counter other than its count do not matter.\<close>

lemma usage_inv_counter:
  assumes "usage_inv env mac_key st log" and "counters st fp = Some c" and "count c' = count c"
  shows "usage_inv env mac_key (st\<lparr>counters := (counters st)(fp \<mapsto> c')\<rparr>) log"
proof -
  have "map_option count \<circ> (counters st)(fp \<mapsto> c') = counts st"
    using assms(2,3) by (auto simp: counts_def fun_eq_iff)
  with assms(1,2) show ?thesis by (auto simp: usage_inv_def)
qed

lemma usage_inv_evict_one:
  assumes "usage_inv env mac_key st log" and "length (fst row) = 32" and "snd row \<le> AES_GCM_NONCE_LIMIT"
    and "\<forall>fp. not_torn (fst (ios fp)) \<and> not_torn (snd (ios fp))"
  shows "usage_inv env mac_key (evict_one env ios row st) log"
proof -
  obtain fp cnt where row: "row = (fp, cnt)" by (cases row)
  obtain p1 res where fl: "flush_fingerprint env (fst (ios fp)) (journal st) fp cnt = (p1, res)" by fastforce
  let ?st1 = "st\<lparr>journal := p1\<rparr>"
  have inv1: "usage_inv env mac_key ?st1 log"
    using usage_inv_flush [OF assms(1), of "fst (ios fp)" fp cnt] assms(2-4) row fl by simp
  show ?thesis
  proof (cases res)
    case (Inr u)
    then show ?thesis using usage_inv_remove [OF inv1] by (simp add: evict_one_def row fl)
  next
    case (Inl e)
    show ?thesis
    proof (cases "counters st fp")
      case None
      then show ?thesis using Inl inv1 by (simp add: evict_one_def row fl)
    next
      case (Some c)
      define st2 where "st2 = ?st1\<lparr>counters := (counters st)(fp \<mapsto> c\<lparr>flush_failure_streak := flush_failure_streak c + 1\<rparr>)\<rparr>"
      have inv2: "usage_inv env mac_key st2 log"
        using usage_inv_counter [OF inv1, of fp c] Some by (simp add: st2_def)
      have "evict_one env ios row st = (if flush_failure_streak c + 1 \<ge> GCM_FLUSH_FAILURE_POISON_THRESHOLD
          then st2\<lparr>journal := fst (record_poison env (snd (ios fp)) p1 fp)\<rparr> else st2)"
        by (simp add: evict_one_def row fl Inl Some st2_def Let_def)
      moreover have "journal st2 = p1" by (simp add: st2_def)
      ultimately show ?thesis
        using inv2 usage_inv_poison [OF inv2, of "snd (ios fp)" fp] assms(2,4) row by simp
    qed
  qed
qed

lemma usage_inv_fold:
  assumes "\<And>x st. x \<in> set xs \<Longrightarrow> usage_inv env mac_key st log \<Longrightarrow> usage_inv env mac_key (f x st) log"
    and "usage_inv env mac_key st log"
  shows "usage_inv env mac_key (fold f xs st) log"
  using assms by (induction xs arbitrary: st) auto

lemma usage_inv_evict:
  assumes "usage_inv env mac_key st log" and "\<forall>fp. not_torn (fst (ios fp)) \<and> not_torn (snd (ios fp))"
  shows "usage_inv env mac_key (evict_gcm_counters env ios order max_entries st) log"
proof -
  define items where "items = List.map_filter (\<lambda>fp. map_option (\<lambda>c. (fp, count c)) (counters st fp)) order"
  have items: "length (fst row) = 32" if "row \<in> set items" for row
    using that assms(1) by (auto simp: items_def List.map_filter_def usage_inv_def)
  have drop: "usage_inv env mac_key (fold (\<lambda>(fp, _). remove_counter fp) xs st) log" for xs :: "(fingerprint \<times> u64) list"
    by (intro usage_inv_fold assms(1)) (auto intro: usage_inv_remove)
  have flush: "usage_inv env mac_key (fold (evict_one env ios) (filter P (filter (\<lambda>(_, cnt). \<not> cnt \<ge> AES_GCM_NONCE_LIMIT) items)) st1) log"
    if "usage_inv env mac_key st1 log" for P st1
    using that assms(2) items by (intro usage_inv_fold) (auto intro!: usage_inv_evict_one)
  show ?thesis
    unfolding evict_gcm_counters_def Let_def items_def [symmetric] using drop flush by simp
qed

lemma usage_inv_same:
  "usage_inv env mac_key st log \<Longrightarrow> journal st' = journal st \<Longrightarrow> counters st' = counters st \<Longrightarrow> usage_inv env mac_key st' log"
  by (simp add: usage_inv_def counts_def [abs_def])

lemma acquire_key_lock_same [simp]:
  "journal (fst (acquire_key_lock fp st)) = journal st" "counters (fst (acquire_key_lock fp st)) = counters st"
  by (simp_all add: acquire_key_lock_def split: option.split)

lemma usage_inv_tick:
  assumes "usage_inv env mac_key st log" and "\<forall>fp. not_torn (fst (ios fp)) \<and> not_torn (snd (ios fp))"
  shows "usage_inv env mac_key (evict_opportunistically env ios order st) log"
proof -
  have "usage_inv env mac_key (st\<lparr>evict_tick := evict_tick st + 1\<rparr>) log" by (rule usage_inv_same [OF assms(1)]) simp_all
  then show ?thesis using usage_inv_evict [OF _ assms(2)] by (simp add: evict_opportunistically_def Let_def)
qed

lemma advance_covers:
  assumes "journal_good env mac_key p" and "not_torn io" and "length fp = 32" and "n \<le> AES_GCM_NONCE_LIMIT"
    and "record_advance env io p fp n = (p1, Inr u)"
  shows "n \<le> journal_ceiling p1 fp"
proof -
  from assms(1) obtain recs where rel: "journal_rel env mac_key recs p" by (auto simp: journal_good_def)
  let ?op = "Advance fp n"
  have ok: "op_ok ?op" using assms(3,4) by simp
  have p1: "fst (perform env io p ?op) = p1" "snd (perform env io p ?op) = Inr u" using assms(5) by simp_all
  show ?thesis
  proof (cases "required_record recs ?op")
    case None
    then have "n < ceiling_of recs fp" by (simp split: if_splits)
    moreover have "journal_rel env mac_key recs p1" using perform_no_record(1) [OF rel None, of io] p1 by simp
    ultimately show ?thesis by (simp add: journal_ceiling_def journal_rel_ceiling(1))
  next
    case (Some r)
    then have r: "r = (fp, Count (min (n + BATCH_THRESHOLD) AES_GCM_NONCE_LIMIT))" by (simp split: if_splits)
    have "io = Written" using assms(2) p1(2) perform_refused(2) [OF rel Some] by (cases io) auto
    then have "journal_rel env mac_key (recs @ [r]) p1" using perform_written(1) [OF rel ok Some] p1 by simp
    moreover have "n \<le> ceiling_of (recs @ [r]) fp"
      using advance_ceiling(2) [OF assms(4)] assms(4)
      by (simp add: r ceiling_of_def replay_snoc apply_record_def Let_def le_max_iff_disj)
    ultimately show ?thesis by (simp add: journal_ceiling_def journal_rel_ceiling(1))
  qed
qed

text \<open>The counter a reservation starts from: the one in memory, or one filled from the journal.\<close>

lemma usage_inv_hydrate:
  assumes "usage_inv env mac_key st log" and "length fp = 32" and "snapshot = journal_ceiling (journal st) fp"
    and "c = (case counters st fp of Some c \<Rightarrow> c
      | None \<Rightarrow> if snapshot > 0 then GcmCounter_new\<lparr>count := snapshot\<rparr> else GcmCounter_new)"
  shows "usage_inv env mac_key (st\<lparr>counters := (counters st)(fp \<mapsto> c)\<rparr>) log"
proof (cases "counters st fp")
  case (Some d)
  then show ?thesis using usage_inv_counter [OF assms(1)] assms(4) by simp
next
  case None
  have "count c = snapshot" using None assms(4) by (auto simp: GcmCounter_new_def word_gt_0)
  then have "map_option count \<circ> (counters st)(fp \<mapsto> c) = (counts st)(fp \<mapsto> snapshot)"
    by (auto simp: counts_def fun_eq_iff)
  moreover have "counts st fp = None" using None by (simp add: counts_def)
  ultimately show ?thesis
    using assms(1-3) covered_hydrate [of "counts st" "journal_ceiling (journal st)" log fp] by (auto simp: usage_inv_def)
qed

definition logged :: "fingerprint \<Rightarrow> HsmError + u64 \<Rightarrow> (fingerprint \<times> u64) list \<Rightarrow> (fingerprint \<times> u64) list" where
  "logged fp res log = (case res of Inl _ \<Rightarrow> log | Inr n \<Rightarrow> log @ [(fp, n)])"

lemma usage_inv_take:
  assumes "usage_inv env mac_key st log" and "counters st fp = Some c" and "count c < AES_GCM_NONCE_LIMIT"
    and "count c + 1 \<le> journal_ceiling (journal st) fp" and "count c' = count c + 1"
  shows "usage_inv env mac_key (st\<lparr>counters := (counters st)(fp \<mapsto> c')\<rparr>) (log @ [(fp, count c + 1)])"
proof -
  have step: "count c < count c + 1"
    using assms(3) by (simp add: AES_GCM_NONCE_LIMIT_def word_less_nat_alt unat_word_ariths)
  have "map_option count \<circ> (counters st)(fp \<mapsto> c') = (counts st)(fp \<mapsto> count c + 1)"
    using assms(5) by (auto simp: counts_def fun_eq_iff)
  moreover have "counts st fp = Some (count c)" using assms(2) by (simp add: counts_def)
  ultimately show ?thesis
    using assms(1,2,4) covered_take [OF _ _ step] by (auto simp: usage_inv_def)
qed

lemma usage_inv_reserve_count:
  assumes inv: "usage_inv env mac_key st log" and io: "not_torn io" and fp: "length fp = 32"
    and snap: "snapshot = journal_ceiling (journal st) fp" and res: "reserve_count env io fp snapshot st = (st', res)"
  shows "usage_inv env mac_key st' (logged fp res log)"
proof -
  define c where "c = (case counters st fp of Some c \<Rightarrow> c
      | None \<Rightarrow> if snapshot > 0 then GcmCounter_new\<lparr>count := snapshot\<rparr> else GcmCounter_new)"
  define st1 where "st1 = st\<lparr>counters := (counters st)(fp \<mapsto> c)\<rparr>"
  have inv1: "usage_inv env mac_key st1 log" unfolding st1_def by (rule usage_inv_hydrate [OF inv fp snap c_def])
  have j1: "journal st1 = journal st" by (simp add: st1_def)
  show ?thesis
  proof (cases "count c \<ge> AES_GCM_NONCE_LIMIT")
    case True
    then have "st' = st1\<lparr>journal := fst (record_poison env io (journal st1) fp)\<rparr>" "res = Inl GeneralError"
      using res j1 by (simp_all add: reserve_count_def c_def [symmetric] st1_def [symmetric] Let_def)
    then show ?thesis using usage_inv_poison [OF inv1 io fp] by (simp add: logged_def)
  next
    case False
    obtain p1 ar where ar: "record_advance env io (journal st) fp (count c + 1) = (p1, ar)" by fastforce
    have lim: "count c < AES_GCM_NONCE_LIMIT" "count c + 1 \<le> AES_GCM_NONCE_LIMIT" using False by (auto intro: inc_le)
    have inv2: "usage_inv env mac_key (st1\<lparr>journal := p1\<rparr>) log"
      using usage_inv_journal [OF inv1 later_perform [of "Advance fp (count c + 1)" io]] io fp lim ar j1 by simp
    show ?thesis
    proof (cases ar)
      case (Inl e)
      then have "st' = st1\<lparr>journal := p1\<rparr>" "res = Inl e"
        using res False ar by (simp_all add: reserve_count_def c_def [symmetric] st1_def [symmetric] Let_def)
      then show ?thesis using inv2 by (simp add: logged_def)
    next
      case (Inr u)
      define c' where "c' = c\<lparr>count := count c + 1, warn_mask := warned (count c + 1) (warn_mask c)\<rparr>"
      have st': "st' = st1\<lparr>journal := p1, counters := (counters st1)(fp \<mapsto> c')\<rparr>" "res = Inr (count c + 1)"
        using res False ar Inr
        by (auto simp: reserve_count_def c_def [symmetric] st1_def c'_def Let_def intro!: GcmState.equality)
      have "journal_good env mac_key (journal st)" using inv by (simp add: usage_inv_def)
      then have "count c + 1 \<le> journal_ceiling p1 fp" using advance_covers [OF _ io fp lim(2)] ar Inr by blast
      then show ?thesis
        using usage_inv_take [OF inv2, of fp c c'] lim(1) by (simp add: st' st1_def c'_def logged_def)
    qed
  qed
qed

lemma usage_inv_reserve_locked:
  assumes inv: "usage_inv env mac_key st log" and io: "not_torn io" and fp: "length fp = 32"
    and res: "reserve_locked env io fp st = (st', res)"
  shows "usage_inv env mac_key st' (logged fp res log)"
proof -
  let ?st1 = "fst (acquire_key_lock fp st)"
  have inv1: "usage_inv env mac_key ?st1 log" by (rule usage_inv_same [OF inv]) simp_all
  obtain snap dp where ps: "persisted_state (journal st) fp = (snap, dp)" by fastforce
  show ?thesis
  proof (cases dp)
    case True
    then show ?thesis using res ps inv1 by (auto simp: reserve_locked_def logged_def)
  next
    case False
    then have "reserve_count env io fp snap ?st1 = (st', res)" using res ps by (simp add: reserve_locked_def Let_def)
    from usage_inv_reserve_count [OF inv1 io fp _ this] show ?thesis by (simp add: journal_ceiling_def ps)
  qed
qed

lemma usage_inv_reserve:
  assumes "usage_inv env mac_key st log" and "not_torn io" and "\<forall>k. length (sha256 env k) = 32"
    and "reserve_gcm_nonce env io ios order key st = (st', res)"
  shows "res = Inl e \<Longrightarrow> usage_inv env mac_key st' log"
    and "res = Inr () \<Longrightarrow> snd (reserve_locked env io (fingerprint_of env key) st) = Inr n \<Longrightarrow>
      \<forall>fp. not_torn (fst (ios fp)) \<and> not_torn (snd (ios fp)) \<Longrightarrow>
      usage_inv env mac_key st' (log @ [(fingerprint_of env key, n)])"
proof -
  let ?fp = "fingerprint_of env key"
  obtain st1 r where r: "reserve_locked env io ?fp st = (st1, r)" by fastforce
  have fp: "length ?fp = 32" using assms(3) by (simp add: fingerprint_of_def)
  have inv: "usage_inv env mac_key st1 (logged ?fp r log)"
    by (rule usage_inv_reserve_locked [OF assms(1,2) fp r])
  show "usage_inv env mac_key st' log" if "res = Inl e"
    using that assms(4) r inv by (cases r) (simp_all add: reserve_gcm_nonce_def logged_def)
  show "usage_inv env mac_key st' (log @ [(?fp, n)])"
    if "res = Inr ()" "snd (reserve_locked env io ?fp st) = Inr n"
      "\<forall>fp. not_torn (fst (ios fp)) \<and> not_torn (snd (ios fp))"
    using that assms(4) r inv usage_inv_tick [OF _ that(3), of env mac_key st1]
    by (auto simp: reserve_gcm_nonce_def logged_def)
qed

lemma usage_inv_step:
  assumes "usage_step env mac_key c c'" and "\<forall>k. length (sha256 env k) = 32" and "usage_inv env mac_key (fst c) (snd c)"
  shows "usage_inv env mac_key (fst c') (snd c')"
  using assms(1,3)
proof (induction rule: usage_step.induct)
  case (reserved io ios order key st st' n log)
  then show ?case using usage_inv_reserve(2) [OF _ _ assms(2), of mac_key st log] by simp
next
  case (refused io ios order key st st' e log)
  then show ?case using usage_inv_reserve(1) [OF _ _ assms(2), of mac_key st log] by simp
next
  case (reset st log key)
  then show ?case by (simp add: reset_gcm_counter_def usage_inv_remove)
next
  case (evict ios st log order max_entries)
  then show ?case by (simp add: usage_inv_evict)
next
  case (restart legacy st p log)
  then have "journal_later env mac_key (journal st) p" by (auto simp: journal_later_def)
  with restart gcm.covered_restart [of env mac_key "journal st" p "counts st" log] show ?case
    by (simp add: usage_inv_def counts_def [abs_def] started_def)
qed

lemma usage_inv_started:
  "mac_eq env = (=) \<Longrightarrow> journal_rel env mac_key recs p \<Longrightarrow> usage_inv env mac_key (started p) []"
  by (auto simp: usage_inv_def journal_good_def covered_def counts_def started_def)

lemma usage_inv_run:
  assumes "mac_eq env = (=)" and "\<forall>k. length (sha256 env k) = 32" and "journal_rel env mac_key recs p"
    and "(usage_step env mac_key)\<^sup>*\<^sup>* (started p, []) (st, log)"
  shows "usage_inv env mac_key st log"
proof -
  have "usage_inv env mac_key (fst c) (snd c)" if "(usage_step env mac_key)\<^sup>*\<^sup>* (started p, []) c" for c
    using that by induction (simp_all add: usage_inv_started [OF assms(1,3)] usage_inv_step [OF _ assms(2)])
  from this [OF assms(4)] show ?thesis by simp
qed

lemma usage_inv_log:
  assumes "usage_inv env mac_key st log"
  shows "distinct log" and "(fp, n) \<in> set log \<Longrightarrow> 0 < n \<and> n \<le> AES_GCM_NONCE_LIMIT"
proof -
  show "distinct log" using assms by (simp add: usage_inv_def covered_def)
  assume mem: "(fp, n) \<in> set log"
  then have "0 < n" "n \<le> journal_ceiling (journal st) fp" using assms by (auto simp: usage_inv_def covered_def)
  moreover have "journal_ceiling (journal st) fp \<le> AES_GCM_NONCE_LIMIT"
    using assms unfolding usage_inv_def by (blast intro: journal_good_limit)
  ultimately show "0 < n \<and> n \<le> AES_GCM_NONCE_LIMIT" by simp
qed

lemma counts_fit:
  assumes "distinct log" and "\<And>n. (fp, n) \<in> set log \<Longrightarrow> 0 < n \<and> n \<le> AES_GCM_NONCE_LIMIT"
  shows "length (filter (\<lambda>(f, _). f = fp) log) \<le> 2 ^ 32"
proof -
  let ?own = "filter (\<lambda>(f, _). f = fp) log"
  have "inj_on (unat \<circ> snd) (set ?own)" by (auto simp: inj_on_def dest: unsigned_word_eqI)
  then have "length ?own = card ((unat \<circ> snd) ` set ?own)"
    using assms(1) by (metis card_image distinct_card distinct_filter)
  also have "(unat \<circ> snd) ` set ?own \<subseteq> {1..2 ^ 32}"
  proof
    fix m assume "m \<in> (unat \<circ> snd) ` set ?own"
    then obtain n where "(fp, n) \<in> set log" "m = unat n" by auto
    then have "0 < n" "n \<le> AES_GCM_NONCE_LIMIT" "m = unat n" using assms(2) by blast+
    then show "m \<in> {1..2 ^ 32}" by (simp add: AES_GCM_NONCE_LIMIT_def word_less_nat_alt word_le_nat_alt)
  qed
  then have "card ((unat \<circ> snd) ` set ?own) \<le> card {1..2 ^ 32 :: nat}" by (intro card_mono) simp_all
  finally show ?thesis by simp
qed

lemma reserve_locked_counts:
  "snd (reserve_locked env io fp st) = Inr n \<Longrightarrow> counts (fst (reserve_locked env io fp st)) fp = Some n"
  by (auto simp: reserve_locked_def reserve_count_def counts_def Let_def split: prod.splits if_splits sum.splits option.splits)

lemma failed_load:
  assumes "mac_eq env = (=)" and "file = JOURNAL_VERSION_MARKER @ rest" and "split_footer rest = Some (body, tag)"
    and "decode_hex_bytes tag \<noteq> Some (mac env mac_key (JOURNAL_VERSION_MARKER @ body))"
  shows "load_and_verify env file mac_key = map_sum id (\<lambda>known. (known, True, 0)) (parse_and_check body)"
proof -
  have "file \<noteq> []" using assms(2) by (simp add: JOURNAL_VERSION_MARKER_def)
  moreover have "check_version file = Inr (V1 (length JOURNAL_VERSION_MARKER) rest)"
    by (simp add: assms(2) check_version_def Let_def)
  ultimately show ?thesis using assms by (auto simp: load_and_verify_def Let_def split: option.split)
qed

lemma failed_open:
  assumes "mac_eq env = (=)" and "file = JOURNAL_VERSION_MARKER @ rest" and "split_footer rest = Some (body, tag)"
    and "decode_hex_bytes tag \<noteq> Some (mac env mac_key (JOURNAL_VERSION_MARKER @ body))"
  shows "file_backed env False mac_key legacy file = map_sum id (\<lambda>known.
    Journal \<lparr>fb_file = file, fb_mac_key = mac_key, fb_known = known, fb_integrity_failed = True\<rparr>) (parse_and_check body)"
  using failed_load [OF assms] assms(2)
  by (cases "parse_and_check body") (auto simp: file_backed_def file_has_version_marker_def)

lemma poisoned_key_refused:
  assumes "persisted_state (journal st) (fingerprint_of env key) = (AES_GCM_NONCE_LIMIT, True)"
  shows "\<exists>e. snd (reserve_gcm_nonce env io ios order key st) = Inl e"
  by (simp add: reserve_gcm_nonce_def reserve_locked_def Let_def assms)

section \<open>Properties\<close>

text \<open>
  A call that has read its snapshot of the journal loses its lock to a reset, which removes the
  mutex from the map.  A second call then creates another mutex, both proceed, and, after one
  more reset, the first call hands out the count of the second.
\<close>

theorem lock_removal_repeats_count:
  fixes env :: MacEnv and key mac_key :: bytes
  defines "p \<equiv> Journal \<lparr>fb_file = [], fb_mac_key = mac_key, fb_known = Map.empty, fb_integrity_failed = False\<rparr>"
  defines "fp \<equiv> fingerprint_of env key"
  defines "stA \<equiv> fst (acquire_key_lock fp (started p))"
  defines "stB \<equiv> reset_gcm_counter env key stA"
  defines "rB \<equiv> reserve_locked env Written fp stB"
  defines "stC \<equiv> reset_gcm_counter env key (fst rB)"
  shows "persisted_state (journal stA) fp = (0, False)"
    and "snd (acquire_key_lock fp (started p)) \<noteq> snd (acquire_key_lock fp stB)"
    and "snd rB = Inr 1" and "snd (reserve_count env Written fp 0 stC) = Inr 1"
proof -
  have LIM: "AES_GCM_NONCE_LIMIT \<noteq> 0" "saturating_add 1 BATCH_THRESHOLD = (1025 :: u64)" "min 1025 AES_GCM_NONCE_LIMIT = 1025"
    by (simp_all add: AES_GCM_NONCE_LIMIT_def BATCH_THRESHOLD_def saturating_add_def)
  note defs = stA_def stB_def stC_def rB_def fp_def p_def started_def acquire_key_lock_def reset_gcm_counter_def remove_counter_def
  note ops = reserve_locked_def reserve_count_def persisted_state_def record_advance_def write_record_def entry_of_def
    entry_default_def GcmCounter_new_def Let_def
  show "persisted_state (journal stA) fp = (0, False)" by (simp add: defs ops)
  show "snd (acquire_key_lock fp (started p)) \<noteq> snd (acquire_key_lock fp stB)" by (simp add: defs)
  show "snd rB = Inr 1" by (simp add: defs ops LIM)
  show "snd (reserve_count env Written fp 0 stC) = Inr 1" by (simp add: defs ops LIM)
qed

text \<open>
  C32: With a journal, usage counts are never handed out twice by calls that do not overlap.
  Take a file-backed counter that starts from a sound journal, and any sequence of
  reservations, resets, evictions and restarts, each call finished before the next begins, where
  every write of the file happens or is refused as a whole.  The counts reserved under a key are
  pairwise different and lie between 1 and 2^32, so no key is used for more than 2^32
  encryptions in all, restarts included.  Nothing is said of the mode without a journal, where a
  reset, an eviction or a restart starts a key again at zero, of writes torn by a crash, nor of
  a reset that overlaps a reservation (\<open>lock_removal_repeats_count\<close>).
\<close>

theorem usage_counts_never_repeat:
  assumes "mac_eq env = (=)" and "\<forall>k. length (sha256 env k) = 32"
    and "journal_rel env mac_key recs p" and "(usage_step env mac_key)\<^sup>*\<^sup>* (started p, []) (st, log)"
  shows "distinct log \<and> (\<forall>fp n. (fp, n) \<in> set log \<longrightarrow> 0 < n \<and> n \<le> AES_GCM_NONCE_LIMIT) \<and>
    (\<forall>fp. length (filter (\<lambda>(f, _). f = fp) log) \<le> 2 ^ 32)"
proof -
  have inv: "usage_inv env mac_key st log" by (rule usage_inv_run [OF assms])
  have "length (filter (\<lambda>(f, _). f = fp) log) \<le> 2 ^ 32" for fp
    using usage_inv_log [OF inv] by (intro counts_fit)
  with usage_inv_log [OF inv] show ?thesis by blast
qed

definition sample_records :: "journal_record list" where
  "sample_records = [(fingerprint_of xor_env [], Count (2 ^ 32 - 1))]"

definition sample_journal :: PersistentGcmCounter where
  "sample_journal = Journal \<lparr>fb_file = journal_file xor_env [7] sample_records, fb_mac_key = [7],
     fb_known = replay sample_records, fb_integrity_failed = False\<rparr>"

lemma xor_env_simps: "mac_eq xor_env = (=)" "length (sha256 xor_env k) = 32"
  by (simp_all add: xor_env_def)

lemma sample_rel: "journal_rel xor_env [7] sample_records sample_journal"
  by (simp add: journal_rel_def sample_journal_def sample_records_def records_ok_def fingerprint_of_def xor_env_simps
      agrees_def replay_def apply_record_def entry_of_def entry_default_def AES_GCM_NONCE_LIMIT_def Let_def)

lemma sample_run:
  "\<exists>st. (usage_step xor_env [7])\<^sup>*\<^sup>* (started sample_journal, []) (st, [(fingerprint_of xor_env [], AES_GCM_NONCE_LIMIT)])"
proof -
  let ?r = "reserve_gcm_nonce xor_env Written (\<lambda>_. (Written, Written)) [] [] (started sample_journal)"
  have n: "snd (reserve_locked xor_env Written (fingerprint_of xor_env []) (started sample_journal)) = Inr AES_GCM_NONCE_LIMIT"
    by (simp add: reserve_locked_def acquire_key_lock_def started_def sample_journal_def sample_records_def persisted_state_def
        reserve_count_def record_advance_def write_record_def replay_def apply_record_def entry_of_def entry_default_def
        GcmCounter_new_def AES_GCM_NONCE_LIMIT_def BATCH_THRESHOLD_def Let_def)
  then have "?r = (fst ?r, Inr ())" by (auto simp: reserve_gcm_nonce_def split: prod.splits sum.splits)
  from usage_step.reserved [OF this n, of "[7]" "[]"] have "usage_step xor_env [7] (started sample_journal, [])
      (fst ?r, [(fingerprint_of xor_env [], AES_GCM_NONCE_LIMIT)])" by simp
  then show ?thesis by blast
qed

theorem usage_counts_never_repeat_witness:
  "\<exists>st log. (usage_step xor_env [7])\<^sup>*\<^sup>* (started sample_journal, []) (st, log) \<and> log \<noteq> [] \<and> distinct log"
proof -
  from sample_run obtain st where "(usage_step xor_env [7])\<^sup>*\<^sup>* (started sample_journal, [])
      (st, [(fingerprint_of xor_env [], AES_GCM_NONCE_LIMIT)])" by blast
  moreover from usage_counts_never_repeat [OF xor_env_simps(1) _ sample_rel this]
  have "distinct [(fingerprint_of xor_env [], AES_GCM_NONCE_LIMIT)]" by (simp add: xor_env_simps)
  ultimately show ?thesis by blast
qed

text \<open>
  C34: With a journal, a key whose budget is used up is refused for good.  Over the same runs (a
  file-backed counter with a sound journal, calls one after the other, writes that happen or
  are refused as a whole): once the count 2^32 was handed out under a key, every later
  reservation under it fails, also after evictions, resets and restarts.
\<close>

theorem exhausted_key_refused:
  assumes "mac_eq env = (=)" and "\<forall>k. length (sha256 env k) = 32"
    and "journal_rel env mac_key recs p" and "(usage_step env mac_key)\<^sup>*\<^sup>* (started p, []) (st, log)"
    and "(fingerprint_of env key, AES_GCM_NONCE_LIMIT) \<in> set log" and "not_torn io"
  shows "\<exists>e. snd (reserve_gcm_nonce env io ios order key st) = Inl e"
proof -
  let ?fp = "fingerprint_of env key"
  obtain st1 r where r: "reserve_locked env io ?fp st = (st1, r)" by fastforce
  have fp: "length ?fp = 32" using assms(2) by (simp add: fingerprint_of_def)
  have inv: "usage_inv env mac_key st1 (logged ?fp r log)"
    by (rule usage_inv_reserve_locked [OF usage_inv_run [OF assms(1-4)] assms(6) fp r])
  show ?thesis
  proof (cases r)
    case (Inl e)
    then show ?thesis by (simp add: reserve_gcm_nonce_def r)
  next
    case (Inr n)
    then have inv': "usage_inv env mac_key st1 (log @ [(?fp, n)])" using inv by (simp add: logged_def)
    have "counts st1 ?fp = Some n" using reserve_locked_counts [of env io ?fp st n] Inr r by simp
    then have "AES_GCM_NONCE_LIMIT \<le> n" using inv' assms(5) by (auto simp: usage_inv_def covered_def)
    moreover have "n \<le> AES_GCM_NONCE_LIMIT" using usage_inv_log(2) [OF inv', of ?fp n] by simp
    ultimately have "n = AES_GCM_NONCE_LIMIT" by simp
    then show ?thesis using usage_inv_log(1) [OF inv'] assms(5) by simp
  qed
qed

theorem exhausted_key_refused_witness:
  "\<exists>st log. (usage_step xor_env [7])\<^sup>*\<^sup>* (started sample_journal, []) (st, log) \<and>
    (fingerprint_of xor_env [], AES_GCM_NONCE_LIMIT) \<in> set log \<and>
    (\<exists>e. snd (reserve_gcm_nonce xor_env Written (\<lambda>_. (Written, Written)) [] [] st) = Inl e)"
proof -
  from sample_run obtain st where run: "(usage_step xor_env [7])\<^sup>*\<^sup>* (started sample_journal, [])
      (st, [(fingerprint_of xor_env [], AES_GCM_NONCE_LIMIT)])" by blast
  have "\<exists>e. snd (reserve_gcm_nonce xor_env Written (\<lambda>_. (Written, Written)) [] [] st) = Inl e"
    by (rule exhausted_key_refused [OF xor_env_simps(1) _ sample_rel run]) (simp_all add: xor_env_simps)
  with run show ?thesis by (intro exI [of _ st] exI [of _ "[(fingerprint_of xor_env [], AES_GCM_NONCE_LIMIT)]"]) simp
qed

text \<open>
  A journal that fails its integrity check refuses every reservation, not only those of the
  keys it knows.  When the tag in the footer of a versioned file is not the MAC of what precedes
  it, the file opens, but no key can be used any more.
\<close>

theorem failed_integrity_refuses_every_key:
  assumes "mac_eq env = (=)" and "file = JOURNAL_VERSION_MARKER @ rest" and "split_footer rest = Some (body, tag)"
    and "decode_hex_bytes tag \<noteq> Some (mac env mac_key (JOURNAL_VERSION_MARKER @ body))"
    and "file_backed env False mac_key legacy file = Inr p" and "journal st = p"
  shows "\<exists>e. snd (reserve_gcm_nonce env io ios order key st) = Inl e \<and>
    file_of (journal (fst (reserve_gcm_nonce env io ios order key st))) = file"
proof -
  obtain known where p: "p = Journal \<lparr>fb_file = file, fb_mac_key = mac_key, fb_known = known, fb_integrity_failed = True\<rparr>"
    using failed_open [OF assms(1-4)] assms(5) by (cases "parse_and_check body") auto
  obtain st1 r where r: "reserve_locked env io (fingerprint_of env key) st = (st1, r)" by fastforce
  have "(\<exists>e. r = Inl e) \<and> journal st1 = p"
    using r assms(6) p
    by (auto simp: reserve_locked_def reserve_count_def persisted_state_def record_advance_def record_poison_def Let_def
        split: if_splits option.splits)
  then show ?thesis using p by (auto simp: reserve_gcm_nonce_def r)
qed

text \<open>
  C35: A journal that fails its integrity check poisons the keys it knows.  Take a versioned file
  whose records can be parsed and whose footer is not the MAC of what precedes it.  The file
  opens; every key with a record in it counts as used up and cannot be used for a reservation
  any more; and no operation of the journal writes to the file, under whatever key.
\<close>

theorem failed_integrity_poisons_known_keys:
  assumes "mac_eq env = (=)" and "file = JOURNAL_VERSION_MARKER @ rest" and "split_footer rest = Some (body, tag)"
    and "decode_hex_bytes tag \<noteq> Some (mac env mac_key (JOURNAL_VERSION_MARKER @ body))"
    and "parse_and_check body = Inr known"
  shows "\<exists>p. file_backed env False mac_key legacy file = Inr p \<and>
    (\<forall>fp io op. file_of (fst (perform env io p op)) = file \<and>
       (known fp = None \<or> persisted_state p fp = (AES_GCM_NONCE_LIMIT, True))) \<and>
    (\<forall>key io ios order st. known (fingerprint_of env key) = None \<or> journal st \<noteq> p \<or>
       isl (snd (reserve_gcm_nonce env io ios order key st)))"
proof -
  define p where "p = Journal \<lparr>fb_file = file, fb_mac_key = mac_key, fb_known = known, fb_integrity_failed = True\<rparr>"
  have "file_of (fst (perform env io p op)) = file" for io op
    by (cases op) (simp_all add: p_def record_advance_def flush_fingerprint_def record_poison_def)
  moreover have poisoned: "known fp = None \<or> persisted_state p fp = (AES_GCM_NONCE_LIMIT, True)" for fp
    by (auto simp: p_def persisted_state_def)
  moreover have "known (fingerprint_of env key) = None \<or> journal st \<noteq> p \<or>
      isl (snd (reserve_gcm_nonce env io ios order key st))" for key io ios order st
    using poisoned [of "fingerprint_of env key"] poisoned_key_refused [of st env key io ios order] by fastforce
  moreover have "file_backed env False mac_key legacy file = Inr p"
    using failed_open [OF assms(1-4)] assms(5) by (simp add: p_def)
  ultimately show ?thesis by blast
qed

lemma fold_xor: "fold xor xs a = xor a (fold xor xs (0 :: u8))"
proof (induction xs arbitrary: a)
  case (Cons x xs)
  show ?case using Cons [of "xor x a"] Cons [of "xor x 0"] by (simp add: ac_simps)
qed simp

lemma xor_env_keys: "mac xor_env [7] msg \<noteq> mac xor_env [8] msg"
proof -
  have "xor 7 z \<noteq> xor 8 z" for z :: u8
  proof
    assume "xor 7 z = xor 8 z"
    then have "xor (xor 7 z) z = xor (xor 8 z) z" by simp
    then have "(7 :: u8) = 8" by (simp only: xor.assoc xor_self_eq xor.right_neutral)
    then show False by simp
  qed
  then show ?thesis using fold_xor [of msg 7] fold_xor [of msg 8] by (simp add: xor_env_def)
qed

text \<open>The sample journal, opened under another MAC key.\<close>

theorem failed_integrity_poisons_known_keys_witness:
  "\<exists>p. file_backed xor_env False [8] [] (journal_file xor_env [7] sample_records) = Inr p \<and>
    isl (snd (reserve_gcm_nonce xor_env Written (\<lambda>_. (Written, Written)) [] [] (started p)))"
proof -
  let ?body = "journal_body sample_records"
  let ?tag = "mac xor_env [7] (JOURNAL_VERSION_MARKER @ ?body)"
  have split: "split_footer (?body @ footer_prefix @ hex_bytes ?tag @ [10]) = Some (?body, hex_bytes ?tag)"
    by (rule split_footer_journal) (simp add: sample_records_def)
  have shape: "journal_file xor_env [7] sample_records =
      JOURNAL_VERSION_MARKER @ ?body @ footer_prefix @ hex_bytes ?tag @ [10]"
    by (simp add: journal_file_def sample_records_def)
  have "?tag \<noteq> mac xor_env [8] (JOURNAL_VERSION_MARKER @ ?body)" by (rule xor_env_keys)
  then have bad: "decode_hex_bytes (hex_bytes ?tag) \<noteq> Some (mac xor_env [8] (JOURNAL_VERSION_MARKER @ ?body))"
    by (simp add: decode_hex_bytes_def hex_pairs_hex_bytes)
  have "records_ok sample_records" using sample_rel by (simp add: journal_rel_def sample_journal_def)
  then have parsed: "parse_and_check ?body = Inr (replay sample_records)"
    by (simp add: parse_and_check_def parse_records_body)
  have known: "replay sample_records (fingerprint_of xor_env []) \<noteq> None"
    by (simp add: sample_records_def replay_def apply_record_def Let_def)
  from failed_integrity_poisons_known_keys [OF xor_env_simps(1) shape split bad parsed, of "[]"]
  obtain p where p: "file_backed xor_env False [8] [] (journal_file xor_env [7] sample_records) = Inr p"
    and refused: "\<forall>key io ios order st. replay sample_records (fingerprint_of xor_env key) = None \<or> journal st \<noteq> p \<or>
      isl (snd (reserve_gcm_nonce xor_env io ios order key st))" by blast
  have "journal (started p) = p" by (simp add: started_def)
  then have "isl (snd (reserve_gcm_nonce xor_env Written (\<lambda>_. (Written, Written)) [] [] (started p)))"
    using refused known by metis
  with p show ?thesis by blast
qed

end
