(* ===== verification/Auth_Rate_Limit.thy ===== *)
theory Auth_Rate_Limit
  imports HSM_Prelude "HOL-Library.AList"
begin

text \<open>
  The limiter of failed authentications, \<open>craton-hsm-auth/src/auth/rate_limit.rs\<close>, and the number
  of guesses it lets through.  An \<open>Instant\<close> is a number of nanoseconds.  Every reading of the clock is
  an argument, and so is the order in which the map of entries is walked.
\<close>

section \<open>Configuration and state\<close>

datatype RateLimitPolicy = FailOpen | FailClosed

record RateLimitConfig =
  max_attempts :: u32
  window_secs :: u64
  lockout_secs :: u64
  rl_policy :: RateLimitPolicy

definition rate_limit_default :: RateLimitConfig where
  "rate_limit_default = \<lparr>max_attempts = 5, window_secs = 300, lockout_secs = 900, rl_policy = FailOpen\<rparr>"

record RateLimitEntry =
  failed_count :: u32
  window_start :: nat
  locked_until :: "nat option"

record AuthRateLimiter =
  entries :: "(string \<times> RateLimitEntry) list"
  rl_config :: RateLimitConfig
  check_count :: u64
  capacity_exhausted_count :: u64

datatype RateLimitError = PinLocked

definition CLEANUP_INTERVAL :: u64 where
  "CLEANUP_INTERVAL = 128"

definition MAX_ENTRIES :: nat where
  "MAX_ENTRIES = 100000"

definition SOFT_CAP_ENTRIES :: nat where
  "SOFT_CAP_ENTRIES = (MAX_ENTRIES div 10) * 9"

definition SWEEP_BUDGET :: nat where
  "SWEEP_BUDGET = 256"

definition rate_limiter_new :: "RateLimitConfig \<Rightarrow> AuthRateLimiter" where
  "rate_limiter_new config = \<lparr>entries = [], rl_config = config, check_count = 0, capacity_exhausted_count = 0\<rparr>"

text \<open>
  Durations of the standard library: whole seconds, elapsed time that is zero for instants out of
  order, and addition, which panics past the largest instant.
\<close>

definition nanos :: "u64 \<Rightarrow> nat" where
  "nanos secs = unat secs * 10 ^ 9"

definition as_secs :: "nat \<Rightarrow> nat" where
  "as_secs d = d div 10 ^ 9"

definition INSTANT_END :: nat where
  "INSTANT_END = 2 ^ 63 * 10 ^ 9"

definition instant_add :: "nat \<Rightarrow> nat \<Rightarrow> nat option" where
  "instant_add t d = (if t + d < INSTANT_END then Some (t + d) else None)"

section \<open>Operations\<close>

definition entry_live :: "nat \<Rightarrow> nat \<Rightarrow> RateLimitEntry \<Rightarrow> bool" where
  "entry_live now max_age v \<longleftrightarrow>
     (case locked_until v of Some until \<Rightarrow> now < until | None \<Rightarrow> False) \<or> now - window_start v < max_age"

definition cleanup_stale_entries :: "nat \<Rightarrow> string list \<Rightarrow> AuthRateLimiter \<Rightarrow> AuthRateLimiter" where
  "cleanup_stale_entries now order l =
     (let max_age = nanos (saturating_add (window_secs (rl_config l)) (lockout_secs (rl_config l)));
          total_len = length (entries l);
          live = entry_live now max_age
      in if total_len = 0 then l
         else
           let start = unat (check_count l) mod total_len;
               visited = take SWEEP_BUDGET (drop start order);
               victims = filter (\<lambda>k. case map_of (entries l) k of Some v \<Rightarrow> \<not> live v | None \<Rightarrow> False) visited
           in l\<lparr>entries := fold (\<lambda>k es. case map_of es k of
                  Some v \<Rightarrow> if \<not> live v then AList.delete k es else es
                | None \<Rightarrow> es) victims (entries l)\<rparr>)"

text \<open>
  \<open>t\<close> is the clock that the cleanup reads, \<open>now\<close> the one that the check reads.
\<close>

definition check_rate_limit :: "nat \<Rightarrow> nat \<Rightarrow> string list \<Rightarrow> string \<Rightarrow> AuthRateLimiter \<Rightarrow> AuthRateLimiter \<times> (RateLimitError + unit)" where
  "check_rate_limit t now order key l =
     (let tick = check_count l;
          l1 = l\<lparr>check_count := tick + 1\<rparr>;
          l2 = (if tick mod CLEANUP_INTERVAL = 0 \<or> length (entries l1) \<ge> SOFT_CAP_ENTRIES
                then cleanup_stale_entries t order l1 else l1)
      in case map_of (entries l2) key of
           None \<Rightarrow>
             if rl_policy (rl_config l2) = FailClosed \<and> length (entries l2) \<ge> MAX_ENTRIES
             then (l2\<lparr>capacity_exhausted_count := capacity_exhausted_count l2 + 1\<rparr>, Inl PinLocked)
             else (l2, Inr ())
         | Some entry \<Rightarrow>
             if (case locked_until entry of Some until \<Rightarrow> now < until | None \<Rightarrow> False) then (l2, Inl PinLocked)
             else if as_secs (now - window_start entry) \<ge> unat (window_secs (rl_config l2)) then (l2, Inr ())
             else if failed_count entry \<ge> max_attempts (rl_config l2) then (l2, Inl PinLocked)
             else (l2, Inr ()))"

text \<open>
  The result is \<open>None\<close> when the end of the lockout is past the largest instant, where the
  code panics.
\<close>

definition failed_entry :: "RateLimitConfig \<Rightarrow> nat \<Rightarrow> RateLimitEntry \<Rightarrow> RateLimitEntry option" where
  "failed_entry config now e0 =
     (let e1 = (if as_secs (now - window_start e0) \<ge> unat (window_secs config)
                then e0\<lparr>failed_count := 0, window_start := now, locked_until := None\<rparr> else e0);
          e2 = e1\<lparr>failed_count := saturating_add (failed_count e1) 1\<rparr>
      in if failed_count e2 \<ge> max_attempts config
         then map_option (\<lambda>u. e2\<lparr>locked_until := Some u\<rparr>) (instant_add now (nanos (lockout_secs config)))
         else Some e2)"

definition record_failure :: "nat \<Rightarrow> nat \<Rightarrow> string list \<Rightarrow> string \<Rightarrow> AuthRateLimiter \<Rightarrow> AuthRateLimiter option" where
  "record_failure now t order key l =
     (let fresh = (map_of (entries l) key = None);
          l1 = (if fresh \<and> length (entries l) \<ge> SOFT_CAP_ENTRIES then cleanup_stale_entries t order l else l)
      in if fresh \<and> length (entries l1) \<ge> MAX_ENTRIES
         then Some (l1\<lparr>capacity_exhausted_count := capacity_exhausted_count l1 + 1\<rparr>)
         else
           let e0 = (case map_of (entries l1) key of
                 Some e \<Rightarrow> e
               | None \<Rightarrow> \<lparr>failed_count = 0, window_start = now, locked_until = None\<rparr>)
           in map_option (\<lambda>e. l1\<lparr>entries := AList.update key e (entries l1)\<rparr>) (failed_entry (rl_config l1) now e0))"

definition record_success :: "string \<Rightarrow> AuthRateLimiter \<Rightarrow> AuthRateLimiter" where
  "record_success key l = l\<lparr>entries := AList.delete key (entries l)\<rparr>"

definition entry_count :: "AuthRateLimiter \<Rightarrow> nat" where
  "entry_count l = length (entries l)"

section \<open>The map of entries\<close>

lemma delete_fold_lookup:
  "map_of (fold (\<lambda>k es. case map_of es k of Some v \<Rightarrow> if \<not> live v then AList.delete k es else es | None \<Rightarrow> es) ks es) k =
    (case map_of es k of Some v \<Rightarrow> if k \<in> set ks \<and> \<not> live v then None else Some v | None \<Rightarrow> None)"
proof (induction ks arbitrary: es)
  case (Cons x ks)
  show ?case by (cases "map_of es x") (auto simp: Cons.IH delete_conv' split: option.splits)
qed (simp split: option.split)

lemma delete_fold_length:
  "length (fold (\<lambda>k es. case map_of es k of Some v \<Rightarrow> if \<not> live v then AList.delete k es else es | None \<Rightarrow> es) ks es) \<le> length es"
proof (induction ks arbitrary: es)
  case (Cons x ks)
  have "length (AList.delete x es) \<le> length es" by (simp add: AList.length_delete_le)
  with Cons.IH [of es] Cons.IH [of "AList.delete x es"] show ?case by (auto split: option.split)
qed simp

lemma cleanup_keeps:
  "rl_config (cleanup_stale_entries now order l) = rl_config l"
  "length (entries (cleanup_stale_entries now order l)) \<le> length (entries l)"
proof -
  show "rl_config (cleanup_stale_entries now order l) = rl_config l" by (simp add: cleanup_stale_entries_def Let_def)
  show "length (entries (cleanup_stale_entries now order l)) \<le> length (entries l)"
    unfolding cleanup_stale_entries_def Let_def by (simp add: delete_fold_length)
qed

text \<open>A cleanup leaves an entry as it is, or removes it when it is neither locked nor recent.\<close>

definition swept :: "RateLimitConfig \<Rightarrow> nat \<Rightarrow> RateLimitEntry option \<Rightarrow> RateLimitEntry option \<Rightarrow> bool" where
  "swept config now before after \<longleftrightarrow> after = before \<or>
     (\<exists>e. before = Some e \<and> after = None \<and>
       \<not> entry_live now (nanos (saturating_add (window_secs config) (lockout_secs config))) e)"

lemma cleanup_lookup:
  "swept (rl_config l) now (map_of (entries l) k) (map_of (entries (cleanup_stale_entries now order l)) k)"
  by (auto simp: cleanup_stale_entries_def swept_def delete_fold_lookup Let_def split: option.splits)

lemma swept_refl: "swept config now x x"
  by (simp add: swept_def)

lemma check_effect:
  assumes "check_rate_limit t now order key l = (l1, r)"
  shows "rl_config l1 = rl_config l" and "swept (rl_config l) t (map_of (entries l) k) (map_of (entries l1) k)"
proof -
  define l0 where "l0 = l\<lparr>check_count := check_count l + 1\<rparr>"
  define l2 where "l2 = (if check_count l mod CLEANUP_INTERVAL = 0 \<or> length (entries l0) \<ge> SOFT_CAP_ENTRIES
    then cleanup_stale_entries t order l0 else l0)"
  have l0: "rl_config l0 = rl_config l" "entries l0 = entries l" by (simp_all add: l0_def)
  have l1: "rl_config l1 = rl_config l2 \<and> entries l1 = entries l2"
    using assms unfolding check_rate_limit_def l0_def [symmetric] Let_def l2_def [symmetric]
    by (auto split: option.splits if_splits)
  show "rl_config l1 = rl_config l" using l1 l0 by (simp add: l2_def cleanup_keeps)
  have "swept (rl_config l) t (map_of (entries l) k) (map_of (entries l2) k)"
    using cleanup_lookup [of l0 t k order] swept_refl [of "rl_config l" t "map_of (entries l) k"] by (simp add: l2_def l0)
  with l1 show "swept (rl_config l) t (map_of (entries l) k) (map_of (entries l1) k)" by simp
qed

text \<open>What a check looks at: the entry of the key after the cleanup.\<close>

definition admits :: "RateLimitConfig \<Rightarrow> nat \<Rightarrow> RateLimitEntry \<Rightarrow> bool" where
  "admits config now e \<longleftrightarrow>
     (case locked_until e of Some until \<Rightarrow> \<not> now < until | None \<Rightarrow> True) \<and>
     (nanos (window_secs config) \<le> now - window_start e \<or> failed_count e < max_attempts config)"

lemma as_secs_ge: "unat w \<le> as_secs d \<longleftrightarrow> nanos w \<le> d"
  by (simp add: as_secs_def nanos_def less_eq_div_iff_mult_less_eq)

lemma check_admits:
  assumes "check_rate_limit t now order key l = (l1, r)" and "map_of (entries l1) key = Some e"
  shows "r = Inr () \<longleftrightarrow> admits (rl_config l) now e"
proof -
  define l0 where "l0 = l\<lparr>check_count := check_count l + 1\<rparr>"
  define l2 where "l2 = (if check_count l mod CLEANUP_INTERVAL = 0 \<or> length (entries l0) \<ge> SOFT_CAP_ENTRIES
    then cleanup_stale_entries t order l0 else l0)"
  have cfg: "rl_config l2 = rl_config l" by (simp add: l2_def l0_def cleanup_keeps)
  have "l1 = l2" and "map_of (entries l2) key = Some e"
    using assms unfolding check_rate_limit_def l0_def [symmetric] Let_def l2_def [symmetric]
    by (auto split: option.splits if_splits)
  then show ?thesis
    using assms(1) unfolding check_rate_limit_def l0_def [symmetric] Let_def l2_def [symmetric]
    by (auto simp: admits_def as_secs_ge cfg not_le split: option.splits if_splits)
qed

section \<open>Guesses in windows\<close>

text \<open>
  The failures of one key, in order, when the last window began at \<open>s\<close> and holds \<open>c\<close> of them.
  Windows begin at least \<open>w\<close> apart and hold at most \<open>m\<close> failures, the first one at their
  beginning.
\<close>

definition in_span :: "nat \<Rightarrow> nat \<Rightarrow> nat list \<Rightarrow> nat" where
  "in_span a b gs = length (filter (\<lambda>t. a \<le> t \<and> t < b) gs)"

definition windowed :: "nat \<Rightarrow> nat \<Rightarrow> nat list \<Rightarrow> nat \<Rightarrow> nat \<Rightarrow> bool" where
  "windowed w m gs s c \<longleftrightarrow> 0 < c \<and> c \<le> m \<and>
     (\<forall>t \<in> set gs. t < s + w) \<and>
     length (filter (\<lambda>t. s \<le> t) gs) \<le> c \<and> length (filter (\<lambda>t. s < t) gs) < c \<and>
     (\<forall>a. s < a + w \<longrightarrow> in_span a s gs < m) \<and>
     (\<forall>a. in_span a (a + w) gs < 2 * m)"

lemma in_span_snoc: "in_span a b (gs @ [t]) = in_span a b gs + (if a \<le> t \<and> t < b then 1 else 0)"
  by (simp add: in_span_def)

lemma in_span_split: "in_span a b gs \<le> in_span a s gs + length (filter (\<lambda>t. s \<le> t) gs)"
  by (induction gs) (auto simp: in_span_def)

lemma in_span_above:
  assumes "s < a"
  shows "in_span a b gs \<le> length (filter (\<lambda>t. s < t) gs)"
  using assms by (induction gs) (auto simp: in_span_def)

lemma windowed_first: "0 < w \<Longrightarrow> 0 < m \<Longrightarrow> windowed w m [t] t 1"
  by (auto simp: windowed_def in_span_def)

lemma windowed_same:
  assumes "windowed w m gs s c" and "s \<le> t" and "t < s + w" and "c < m"
  shows "windowed w m (gs @ [t]) s (c + 1)"
proof -
  have "in_span a (a + w) (gs @ [t]) < 2 * m" for a
  proof (cases "a \<le> t \<and> t < a + w")
    case True
    then have "in_span a s gs < m" using assms(1,2) by (simp add: windowed_def)
    moreover have "length (filter (\<lambda>t. s \<le> t) (gs @ [t])) \<le> m" using assms by (simp add: windowed_def)
    ultimately show ?thesis
      using in_span_split [of a "a + w" "gs @ [t]" s] assms(2) by (simp add: in_span_snoc)
  next
    case False
    then show ?thesis using assms(1) by (auto simp: windowed_def in_span_snoc)
  qed
  then show ?thesis using assms by (auto simp: windowed_def in_span_snoc)
qed

lemma windowed_next:
  assumes "windowed w m gs s c" and "s + w \<le> t" and "0 < w"
  shows "windowed w m (gs @ [t]) t 1"
proof -
  have old: "x < t" if "x \<in> set gs" for x using that assms(1,2) by (auto simp: windowed_def)
  have m: "0 < m" using assms(1) by (auto simp: windowed_def)
  have before: "in_span a b gs < m" if "t < a + w" for a b
  proof -
    have "s < a" using that assms(2) by linarith
    from in_span_above [OF this, of b gs] show ?thesis using assms(1) by (auto simp: windowed_def)
  qed
  have "in_span a (a + w) (gs @ [t]) < 2 * m" for a
    using before [of a "a + w"] assms(1) m by (auto simp: in_span_snoc windowed_def)
  moreover have "filter (\<lambda>x. t < x) gs = []" "filter (\<lambda>x. t \<le> x) gs = []"
    using old unfolding filter_empty_conv by (auto dest!: old)
  ultimately show ?thesis using before old m assms(3) by (auto simp: windowed_def in_span_snoc dest!: old)
qed

section \<open>Runs\<close>

text \<open>
  What happens to the limiter, on a clock that never goes back, seen from the key \<open>victim\<close>.  An
  attempt under the key is a check and, when it was admitted and the login fails, the recording
  of the failure.  Attempts under the key do not overlap: the flag says that one was admitted and
  is not recorded yet, and the next is admitted only afterwards.  The map has an entry for the key, or
  room for one, when a failure is recorded.  Nobody logs in under the key.  Checks, failures and
  logins under other keys, and sweeps, may come at any point, also between the check and the
  failure of an attempt under the key, and their failures may be dropped.  The last component lists
  the times of the failures under the key.
\<close>

type_synonym run_state = "AuthRateLimiter \<times> nat \<times> bool \<times> nat list"

inductive attempt :: "string \<Rightarrow> run_state \<Rightarrow> run_state \<Rightarrow> bool" for victim where
  admitted: "check_rate_limit t now order victim l = (l1, Inr ()) \<Longrightarrow> clock \<le> t \<Longrightarrow> t \<le> now \<Longrightarrow>
    attempt victim (l, clock, False, gs) (l1, now, True, gs)"
| denied: "check_rate_limit t now order victim l = (l1, Inl e) \<Longrightarrow> clock \<le> t \<Longrightarrow> t \<le> now \<Longrightarrow>
    attempt victim (l, clock, busy, gs) (l1, now, busy, gs)"
| guess: "record_failure now t order victim l = Some l1 \<Longrightarrow>
    map_of (entries l) victim \<noteq> None \<or> length (entries l) < MAX_ENTRIES \<Longrightarrow> clock \<le> now \<Longrightarrow> now \<le> t \<Longrightarrow>
    attempt victim (l, clock, True, gs) (l1, t, False, gs @ [now])"
| other_check: "check_rate_limit t now order key l = (l1, r) \<Longrightarrow> key \<noteq> victim \<Longrightarrow> clock \<le> t \<Longrightarrow> t \<le> now \<Longrightarrow>
    attempt victim (l, clock, busy, gs) (l1, now, busy, gs)"
| other_failure: "record_failure now t order key l = Some l1 \<Longrightarrow> key \<noteq> victim \<Longrightarrow> clock \<le> now \<Longrightarrow> now \<le> t \<Longrightarrow>
    attempt victim (l, clock, busy, gs) (l1, t, busy, gs)"
| other_success: "key \<noteq> victim \<Longrightarrow> attempt victim (l, clock, busy, gs) (record_success key l, clock, busy, gs)"
| sweep: "clock \<le> t \<Longrightarrow> attempt victim (l, clock, busy, gs) (cleanup_stale_entries t order l, t, busy, gs)"

definition limit_ok :: "RateLimitConfig \<Rightarrow> RateLimitEntry option \<Rightarrow> nat \<Rightarrow> nat list \<Rightarrow> bool" where
  "limit_ok config entry clock gs \<longleftrightarrow>
     (case entry of
        None \<Rightarrow> gs = [] \<or> (\<exists>s c. windowed (nanos (window_secs config)) (unat (max_attempts config)) gs s c \<and>
          s + nanos (window_secs config) \<le> clock)
      | Some e \<Rightarrow> window_start e \<le> clock \<and>
          windowed (nanos (window_secs config)) (unat (max_attempts config)) gs (window_start e) (unat (failed_count e)))"

lemma limit_ok_later: "limit_ok config entry clock gs \<Longrightarrow> clock \<le> t \<Longrightarrow> limit_ok config entry t gs"
  by (auto simp: limit_ok_def split: option.splits)

lemma limit_ok_swept:
  assumes "limit_ok config before clock gs" and "swept config t before after" and "clock \<le> t"
  shows "limit_ok config after t gs"
proof (cases "after = before")
  case True
  then show ?thesis using limit_ok_later [OF assms(1,3)] by simp
next
  case False
  then obtain e where e: "before = Some e" "after = None"
      "\<not> entry_live t (nanos (saturating_add (window_secs config) (lockout_secs config))) e"
    using assms(2) by (auto simp: swept_def)
  have "nanos (window_secs config) \<le> nanos (saturating_add (window_secs config) (lockout_secs config))"
    unfolding nanos_def by (intro mult_le_mono1) (simp add: saturating_add_le word_le_nat_alt [symmetric])
  then have "nanos (window_secs config) \<le> t - window_start e" using e(3) by (auto simp: entry_live_def)
  moreover have "window_start e \<le> t" using assms(1,3) e(1) by (simp add: limit_ok_def)
  ultimately have "window_start e + nanos (window_secs config) \<le> t" by linarith
  then show ?thesis using assms(1) e(1,2) by (auto simp: limit_ok_def)
qed

definition start_entry :: "nat \<Rightarrow> RateLimitEntry option \<Rightarrow> RateLimitEntry" where
  "start_entry now entry = (case entry of Some e \<Rightarrow> e | None \<Rightarrow> \<lparr>failed_count = 0, window_start = now, locked_until = None\<rparr>)"

lemma record_effect:
  assumes "record_failure now t order key l = Some l'"
  shows "rl_config l' = rl_config l"
    and "map_of (entries l) key \<noteq> None \<or> length (entries l) < MAX_ENTRIES \<Longrightarrow>
      \<exists>e. failed_entry (rl_config l) now (start_entry now (map_of (entries l) key)) = Some e \<and> map_of (entries l') key = Some e"
    and "k \<noteq> key \<Longrightarrow> swept (rl_config l) t (map_of (entries l) k) (map_of (entries l') k)"
proof -
  define l1 where "l1 = (if map_of (entries l) key = None \<and> length (entries l) \<ge> SOFT_CAP_ENTRIES
    then cleanup_stale_entries t order l else l)"
  have cfg: "rl_config l1 = rl_config l" by (simp add: l1_def cleanup_keeps)
  have sw: "swept (rl_config l) t (map_of (entries l) k) (map_of (entries l1) k)" for k
    using cleanup_lookup [of l t k order] swept_refl by (simp add: l1_def)
  have same: "map_of (entries l1) key = map_of (entries l) key"
    using sw [of key] by (auto simp: l1_def swept_def)
  have cases: "l' = l1\<lparr>capacity_exhausted_count := capacity_exhausted_count l1 + 1\<rparr> \<and>
        map_of (entries l) key = None \<and> length (entries l1) \<ge> MAX_ENTRIES \<or>
      (\<exists>e. failed_entry (rl_config l) now (start_entry now (map_of (entries l) key)) = Some e \<and>
        l' = l1\<lparr>entries := AList.update key e (entries l1)\<rparr>)"
    using assms unfolding record_failure_def Let_def l1_def [symmetric] start_entry_def
    by (auto simp: cfg same split: if_splits)
  show "rl_config l' = rl_config l" using cases cfg by auto
  show "\<exists>e. failed_entry (rl_config l) now (start_entry now (map_of (entries l) key)) = Some e \<and> map_of (entries l') key = Some e"
    if "map_of (entries l) key \<noteq> None \<or> length (entries l) < MAX_ENTRIES"
    using cases that cleanup_keeps(2) [of t order l] by (auto simp: l1_def update_conv' split: if_splits)
  show "swept (rl_config l) t (map_of (entries l) k) (map_of (entries l') k)" if "k \<noteq> key"
    using cases sw [of k] that by (auto simp: update_conv')
qed

lemma failed_entry_shape:
  assumes "failed_entry config now e0 = Some e"
  shows "nanos (window_secs config) \<le> now - window_start e0 \<Longrightarrow> window_start e = now \<and> failed_count e = 1"
    and "\<not> nanos (window_secs config) \<le> now - window_start e0 \<Longrightarrow>
      window_start e = window_start e0 \<and> failed_count e = saturating_add (failed_count e0) 1"
  using assms
  by (auto simp: failed_entry_def as_secs_ge saturating_add_def Let_def instant_add_def split: if_splits)

lemma limit_ok_guess:
  assumes ok: "limit_ok config entry t2 gs" and adm: "\<forall>e. entry = Some e \<longrightarrow> admits config t2 e"
    and t: "t2 \<le> t3" and e: "failed_entry config t3 (start_entry t3 entry) = Some e"
    and pos: "0 < max_attempts config" "0 < window_secs config"
  shows "limit_ok config (Some e) t3 (gs @ [t3])"
proof -
  let ?w = "nanos (window_secs config)" and ?m = "unat (max_attempts config)"
  have wm: "0 < ?w" "0 < ?m" using pos by (auto simp: nanos_def word_less_nat_alt)
  show ?thesis
  proof (cases entry)
    case None
    then have "window_start e = t3 \<and> failed_count e = 1"
      using failed_entry_shape(2) [OF e] wm by (simp add: start_entry_def saturating_add_def)
    then show ?thesis
      using ok None t wm windowed_first [of ?w ?m t3] windowed_next [of ?w ?m gs _ _ t3] by (auto simp: limit_ok_def)
  next
    case (Some e0)
    have win: "windowed ?w ?m gs (window_start e0) (unat (failed_count e0))" "window_start e0 \<le> t2"
      using ok Some by (simp_all add: limit_ok_def)
    show ?thesis
    proof (cases "?w \<le> t3 - window_start e0")
      case True
      then have "window_start e = t3 \<and> failed_count e = 1" using failed_entry_shape(1) [OF e] Some by (simp add: start_entry_def)
      moreover have "windowed ?w ?m (gs @ [t3]) t3 1" using windowed_next [OF win(1)] True win(2) t wm by simp
      ultimately show ?thesis by (simp add: limit_ok_def)
    next
      case False
      then have lt: "failed_count e0 < max_attempts config" using adm Some t by (auto simp: admits_def)
      then have "unat (failed_count e0) + 1 < 2 ^ 32"
        using unat_less_2p [of "max_attempts config"] by (simp add: word_less_nat_alt)
      then have n: "unat (saturating_add (failed_count e0) 1) = unat (failed_count e0) + 1"
        by (simp add: unat_saturating_add)
      have "windowed ?w ?m (gs @ [t3]) (window_start e0) (unat (failed_count e0) + 1)"
        using windowed_same [OF win(1)] False win(2) t lt by (simp add: word_less_nat_alt)
      then show ?thesis using failed_entry_shape(2) [OF e] False Some n win(2) t by (simp add: start_entry_def limit_ok_def)
    qed
  qed
qed

text \<open>The invariant: an attempt that was admitted and is not recorded yet would be admitted still.\<close>

definition run_ok :: "RateLimitConfig \<Rightarrow> string \<Rightarrow> run_state \<Rightarrow> bool" where
  "run_ok config victim x \<longleftrightarrow>
     (case x of (l, clock, busy, gs) \<Rightarrow>
        rl_config l = config \<and> limit_ok config (map_of (entries l) victim) clock gs \<and>
        (busy \<longrightarrow> (\<forall>e. map_of (entries l) victim = Some e \<longrightarrow> admits config clock e)))"

lemma admits_later: "admits config t e \<Longrightarrow> t \<le> t' \<Longrightarrow> admits config t' e"
  by (auto simp: admits_def split: option.splits)

lemma run_ok_swept:
  assumes "run_ok config victim (l, clock, busy, gs)" and "rl_config l' = rl_config l"
    and "swept config t (map_of (entries l) victim) (map_of (entries l') victim)" and "clock \<le> t" and "t \<le> t'"
  shows "run_ok config victim (l', t', busy, gs)"
proof -
  have "limit_ok config (map_of (entries l') victim) t gs"
    using limit_ok_swept [OF _ assms(3,4)] assms(1) by (simp add: run_ok_def)
  then show ?thesis
    using assms limit_ok_later [of config _ t gs t'] admits_later [of config clock _ t']
    by (auto simp: run_ok_def swept_def)
qed

lemma check_ok:
  assumes "check_rate_limit t now order key l = (l1, r)" and "clock \<le> t" and "t \<le> now"
    and "run_ok config victim (l, clock, busy, gs)"
  shows "run_ok config victim (l1, now, busy, gs)"
proof -
  have "rl_config l = config" using assms(4) by (simp add: run_ok_def)
  then show ?thesis
    using run_ok_swept [OF assms(4) check_effect(1) [OF assms(1)] _ assms(2,3)] check_effect(2) [OF assms(1), of victim]
    by simp
qed

lemma attempt_ok:
  assumes "attempt victim x y" and "0 < max_attempts config" and "0 < window_secs config" and "run_ok config victim x"
  shows "run_ok config victim y"
  using assms(1,4)
proof (induction rule: attempt.induct)
  case (admitted t now order l l1 clock gs)
  have "rl_config l = config" using admitted(4) by (simp add: run_ok_def)
  then show ?case using check_ok [OF admitted] check_admits [OF admitted(1)] by (auto simp: run_ok_def)
next
  case (denied t now order l l1 e clock busy gs)
  show ?case by (rule check_ok [OF denied])
next
  case (guess now t order l l1 clock gs)
  have ok: "rl_config l = config" "limit_ok config (map_of (entries l) victim) clock gs"
    "\<forall>e. map_of (entries l) victim = Some e \<longrightarrow> admits config clock e"
    using guess(5) by (simp_all add: run_ok_def)
  obtain e where e: "failed_entry config now (start_entry now (map_of (entries l) victim)) = Some e"
      "map_of (entries l1) victim = Some e"
    using record_effect(2) [OF guess(1,2)] ok(1) by auto
  have "limit_ok config (Some e) now (gs @ [now])"
    by (rule limit_ok_guess [OF ok(2,3) guess(3) e(1) assms(2,3)])
  then show ?case
    using limit_ok_later [OF _ guess(4)] e(2) record_effect(1) [OF guess(1)] ok(1) by (simp add: run_ok_def)
next
  case (other_check t now order key l l1 r clock busy gs)
  show ?case by (rule check_ok [OF other_check(1,3,4,5)])
next
  case (other_failure now t order key l l1 clock busy gs)
  have "clock \<le> t" using other_failure(3,4) by simp
  then show ?case
    using run_ok_swept [OF other_failure(5), of l1 t t] record_effect(1) [OF other_failure(1)] record_effect(3) [OF other_failure(1), of victim] other_failure(2,5)
    by (simp add: run_ok_def)
next
  case (other_success key l clock busy gs)
  then show ?case by (simp add: run_ok_def record_success_def delete_conv')
next
  case (sweep clock t l busy gs order)
  then show ?case
    using run_ok_swept [OF sweep(2), of "cleanup_stale_entries t order l" t t] cleanup_lookup [of l t victim order]
    by (simp add: run_ok_def cleanup_keeps)
qed

lemma swept_locked:
  assumes "swept config t (Some e) after" and "locked_until e = Some u" and "t < u"
  shows "after = Some e"
  using assms by (auto simp: swept_def entry_live_def)

lemma attempt_locked:
  assumes "attempt victim x y" and "locked_until e = Some u"
    and "fst (snd x) < u \<longrightarrow> map_of (entries (fst x)) victim = Some e \<and> snd (snd x) = (False, gs)"
  shows "fst (snd y) < u \<longrightarrow> map_of (entries (fst y)) victim = Some e \<and> snd (snd y) = (False, gs)"
  using assms(1,3)
proof (induction rule: attempt.induct)
  case (admitted t now order l l1 clock gs')
  have "map_of (entries l1) victim = Some e" if "now < u"
    using swept_locked [OF _ assms(2), of "rl_config l" t] check_effect(2) [OF admitted(1), of victim] admitted(2-4) that
    by simp
  then show ?case using check_admits [OF admitted(1), of e] assms(2) by (auto simp: admits_def)
next
  case (denied t now order l l1 e' clock busy gs')
  then show ?case using swept_locked [OF _ assms(2), of "rl_config l" t] check_effect(2) [OF denied(1), of victim] by auto
next
  case (other_check t now order key l l1 r clock busy gs')
  then show ?case using swept_locked [OF _ assms(2), of "rl_config l" t] check_effect(2) [OF other_check(1), of victim] by auto
next
  case (other_failure now t order key l l1 clock busy gs')
  then show ?case
    using swept_locked [OF _ assms(2), of "rl_config l" t] record_effect(3) [OF other_failure(1), of victim] by auto
next
  case (other_success key l clock busy gs')
  then show ?case by (simp add: record_success_def delete_conv')
next
  case (sweep clock t l busy gs' order)
  then show ?case using swept_locked [OF _ assms(2), of "rl_config l" t] cleanup_lookup [of l t victim order] by auto
qed auto

lemma record_locks:
  assumes "record_failure now t order key l0 = Some l" and "map_of (entries l) key = Some e"
    and "max_attempts (rl_config l0) \<le> failed_count e"
  shows "locked_until e = Some (now + nanos (lockout_secs (rl_config l0)))"
proof -
  obtain e0 where "failed_entry (rl_config l0) now e0 = Some e"
    using assms(1,2) cleanup_keeps(1) [of t order l0] cleanup_lookup [of l0 t key order] unfolding record_failure_def Let_def
    by (auto simp: update_conv' swept_def split: if_splits)
  then show ?thesis
    using assms(3) by (auto simp: failed_entry_def Let_def instant_add_def split: if_splits)
qed

section \<open>Properties\<close>

text \<open>
  The window is not a sliding one: a failure just before the end of a window and the failures
  of the next window all lie within a window's length, more than the limit.
\<close>

theorem window_restarts:
  assumes "window_start e + nanos (window_secs config) \<le> now" and "1 < max_attempts config"
  shows "\<exists>e'. failed_entry config now e = Some e' \<and> failed_count e' = 1 \<and> locked_until e' = None \<and> admits config now e'"
  using assms by (auto simp: failed_entry_def as_secs_ge saturating_add_def admits_def Let_def not_le)

text \<open>
  A failure that is recorded during a lockout, by an attempt that was admitted before it, lifts
  the lockout when the window has ended.
\<close>

theorem late_failure_lifts_lockout:
  assumes "locked_until e = Some u" and "now < u" and "window_start e + nanos (window_secs config) \<le> now"
    and "1 < max_attempts config"
  shows "\<not> admits config now e \<and> (\<exists>e'. failed_entry config now e = Some e' \<and> admits config now e')"
  using assms by (auto simp: failed_entry_def as_secs_ge saturating_add_def admits_def Let_def not_le)

text \<open>
  C37: The number of guesses against one key is bounded.  In every run in which nobody logs in under
  the key, attempts under it do not overlap, and its failures are recorded (the map has an entry for
  the key or room for one), fewer than \<open>2 * max_attempts\<close> attempts under the key fail in
  any span of \<open>window_secs\<close>, wherever calls under other keys and sweeps come in between.  The bound
  is not \<open>max_attempts\<close>, which a sliding window would give: the code counts in windows that
  begin with a failure (\<open>window_restarts\<close>).  With the default fail-open policy and a full
  map, failures under a key without an entry are dropped, and nothing bounds them.
\<close>

theorem guesses_bounded:
  assumes "(attempt victim)\<^sup>*\<^sup>* (rate_limiter_new config, clock, False, []) (l, clock', busy, gs)"
    and "0 < max_attempts config" and "0 < window_secs config"
  shows "in_span a (a + nanos (window_secs config)) gs < 2 * unat (max_attempts config)"
proof -
  have "run_ok config victim y" if "(attempt victim)\<^sup>*\<^sup>* (rate_limiter_new config, clock, False, []) y" for y
    using that
  proof induction
    case base
    then show ?case by (simp add: rate_limiter_new_def limit_ok_def run_ok_def)
  next
    case (step y z)
    then show ?case using attempt_ok [OF step(2) assms(2,3)] by blast
  qed
  from this [OF assms(1)] have "limit_ok config (map_of (entries l) victim) clock' gs" by (simp add: run_ok_def)
  then show ?thesis using assms(2)
    by (auto simp: limit_ok_def windowed_def in_span_def word_less_nat_alt split: option.splits)
qed

definition tight_config :: RateLimitConfig where
  "tight_config = \<lparr>max_attempts = 1, window_secs = 10, lockout_secs = 20, rl_policy = FailClosed\<rparr>"

lemma tight_guess:
  "\<exists>l. (attempt ''eve'')\<^sup>*\<^sup>* (rate_limiter_new tight_config, 0, False, []) (l, 0, False, [0]) \<and>
    (\<exists>l1. record_failure 0 0 [] ''eve'' l1 = Some l \<and> rl_config l1 = tight_config) \<and>
    map_of (entries l) ''eve'' = Some \<lparr>failed_count = 1, window_start = 0, locked_until = Some (20 * 10 ^ 9)\<rparr>"
proof -
  let ?l = "rate_limiter_new tight_config" let ?l1 = "?l\<lparr>check_count := 1\<rparr>"
  let ?e = "\<lparr>failed_count = 1, window_start = 0, locked_until = Some (20 * 10 ^ 9)\<rparr> :: RateLimitEntry"
  have c: "check_rate_limit 0 0 [] ''eve'' ?l = (?l1, Inr ())"
    by (simp add: check_rate_limit_def rate_limiter_new_def cleanup_stale_entries_def Let_def MAX_ENTRIES_def)
  have r: "record_failure 0 0 [] ''eve'' ?l1 = Some (?l1\<lparr>entries := [(''eve'', ?e)]\<rparr>)"
    by (simp add: record_failure_def rate_limiter_new_def failed_entry_def tight_config_def as_secs_def saturating_add_def
        SOFT_CAP_ENTRIES_def MAX_ENTRIES_def instant_add_def INSTANT_END_def nanos_def Let_def)
  have "attempt ''eve'' (?l, 0, False, []) (?l1, 0, True, [])"
    using attempt.admitted [OF c] by simp
  moreover have "attempt ''eve'' (?l1, 0, True, []) (?l1\<lparr>entries := [(''eve'', ?e)]\<rparr>, 0, False, [0])"
    using attempt.guess [OF r, of 0 "[]"] by (simp add: rate_limiter_new_def MAX_ENTRIES_def)
  ultimately have "(attempt ''eve'')\<^sup>*\<^sup>* (?l, 0, False, []) (?l1\<lparr>entries := [(''eve'', ?e)]\<rparr>, 0, False, [0])"
    by (meson r_into_rtranclp rtranclp_trans)
  moreover have "rl_config ?l1 = tight_config" by (simp add: rate_limiter_new_def)
  ultimately show ?thesis using r by (intro exI conjI) (assumption | simp)+
qed

theorem guesses_bounded_witness:
  "\<exists>l. (attempt ''eve'')\<^sup>*\<^sup>* (rate_limiter_new tight_config, 0, False, []) (l, 0, False, [0]) \<and>
    in_span 0 (0 + nanos 10) [0] < 2"
proof -
  from tight_guess obtain l where run: "(attempt ''eve'')\<^sup>*\<^sup>* (rate_limiter_new tight_config, 0, False, []) (l, 0, False, [0])" by blast
  from guesses_bounded [OF this, of 0] have "in_span 0 (0 + nanos 10) [0] < 2" by (simp add: tight_config_def)
  with run show ?thesis by blast
qed

text \<open>
  C38: A lockout holds.  Suppose a recorded failure brings a key to \<open>max_attempts\<close>, and no other
  attempt under the key was admitted before it and is still to be recorded.  Then, as long as
  nobody logs in under the key and attempts under it do not overlap, every check of the key is
  refused until \<open>lockout_secs\<close> later, and no attempt under it is admitted meanwhile, wherever calls
  under other keys and sweeps come in between.  The condition on earlier attempts is needed: the
  failure of one recorded after the end of the window lifts the lockout
  (\<open>late_failure_lifts_lockout\<close>).
\<close>

theorem lockout_holds:
  assumes "record_failure now t order key l0 = Some l" and "map_of (entries l) key = Some e"
    and "max_attempts (rl_config l0) \<le> failed_count e"
    and "(attempt key)\<^sup>*\<^sup>* (l, clock, False, gs) (l', clock', busy, gs')"
    and "clock' \<le> t1" and "t1 \<le> t2" and "t2 < now + nanos (lockout_secs (rl_config l0))"
  shows "snd (check_rate_limit t1 t2 order' key l') = Inl PinLocked \<and> \<not> busy \<and> gs' = gs"
proof -
  let ?u = "now + nanos (lockout_secs (rl_config l0))"
  have u: "locked_until e = Some ?u" by (rule record_locks [OF assms(1-3)])
  have "fst (snd y) < ?u \<longrightarrow> map_of (entries (fst y)) key = Some e \<and> snd (snd y) = (False, gs)"
    if "(attempt key)\<^sup>*\<^sup>* (l, clock, False, gs) y" for y
    using that by induction (simp add: assms(2), rule attempt_locked [OF _ u])
  from this [OF assms(4)] assms(5-7) have l': "map_of (entries l') key = Some e" "\<not> busy" "gs' = gs" by simp_all
  obtain l1 r where c: "check_rate_limit t1 t2 order' key l' = (l1, r)" by fastforce
  have "map_of (entries l1) key = Some e"
    using swept_locked [OF _ u, of "rl_config l'" t1] check_effect(2) [OF c, of key] l'(1) assms(6,7) by simp
  then have "r \<noteq> Inr ()" using check_admits [OF c] u assms(7) by (simp add: admits_def)
  then show ?thesis using c l'(2,3) by (cases r) (auto intro: RateLimitError.exhaust)
qed

theorem lockout_holds_witness:
  "\<exists>l1 l. record_failure 0 0 [] ''eve'' l1 = Some l \<and> snd (check_rate_limit 5 5 [] ''eve'' l) = Inl PinLocked"
proof -
  from tight_guess obtain l l1 where l: "record_failure 0 0 [] ''eve'' l1 = Some l" "rl_config l1 = tight_config"
      "map_of (entries l) ''eve'' = Some \<lparr>failed_count = 1, window_start = 0, locked_until = Some (20 * 10 ^ 9)\<rparr>" by blast
  have "(attempt ''eve'')\<^sup>*\<^sup>* (l, 0, False, []) (l, 0, False, [])" by simp
  from lockout_holds [OF l(1,3) _ this, of 5 5 "[]"] have "snd (check_rate_limit 5 5 [] ''eve'' l) = Inl PinLocked"
    by (simp add: l(2) tight_config_def nanos_def)
  with l(1) show ?thesis by blast
qed

end
