(* ===== verification/Tenants.thy ===== *)
theory Tenants
  imports HSM_Prelude
begin

text \<open>
  Tenants of \<open>craton-hsm-auth/src/tenant/\<close>: identifiers (\<open>tenant.rs\<close>) and the manager with its
  quotas (\<open>manager.rs\<close>).  The manager has two concurrent maps and no lock over both, so every
  operation is given by its accesses, each of them atomic, and as their sequence.
\<close>

section \<open>Identifiers and tenants\<close>

definition MAX_TENANT_ID_LEN :: nat where
  "MAX_TENANT_ID_LEN = 64"

datatype TenantId = TenantId string

datatype TenantIdError = IdEmpty | IdTooLong | IdBadStart | IdBadChar | IdDots

definition ascii_alphanumeric :: "char \<Rightarrow> bool" where
  "ascii_alphanumeric c \<longleftrightarrow> (let n = of_char c :: nat in
     (48 \<le> n \<and> n \<le> 57) \<or> (65 \<le> n \<and> n \<le> 90) \<or> (97 \<le> n \<and> n \<le> 122))"

definition tenant_char :: "char \<Rightarrow> bool" where
  "tenant_char c \<longleftrightarrow> ascii_alphanumeric c \<or> c \<in> {CHR ''-'', CHR ''_'', CHR ''.''}"

fun contains_dots :: "string \<Rightarrow> bool" where
  "contains_dots (a # b # rest) \<longleftrightarrow> a = CHR ''.'' \<and> b = CHR ''.'' \<or> contains_dots (b # rest)"
| "contains_dots _ \<longleftrightarrow> False"

definition validate_str :: "string \<Rightarrow> TenantIdError + unit" where
  "validate_str s =
     (if s = [] then Inl IdEmpty
      else if length s > MAX_TENANT_ID_LEN then Inl IdTooLong
      else if \<not> ascii_alphanumeric (hd s) then Inl IdBadStart
      else if list_ex (\<lambda>c. \<not> tenant_char c) s then Inl IdBadChar
      else if contains_dots s then Inl IdDots
      else Inr ())"

definition tenant_id_new :: "string \<Rightarrow> TenantIdError + TenantId" where
  "tenant_id_new s = (case validate_str s of Inl e \<Rightarrow> Inl e | Inr _ \<Rightarrow> Inr (TenantId s))"

datatype AllowedAlgorithm = Aes256Gcm | Aes256Cbc | Aes256Ctr | Rsa | Ecdsa | Ed25519 | HmacSha256

record TenantConfig =
  max_keys :: nat
  max_sessions :: u64
  allowed_algorithms :: "AllowedAlgorithm list option"

definition tenant_config_default :: TenantConfig where
  "tenant_config_default = \<lparr>max_keys = 10000, max_sessions = 100, allowed_algorithms = None\<rparr>"

record Tenant =
  tn_id :: TenantId
  tn_name :: string
  tn_config :: TenantConfig
  tn_enabled :: bool
  tn_created_at :: u64

section \<open>The manager\<close>

record TenantUsage =
  key_count :: u64
  session_count :: u64

definition tenant_usage_new :: TenantUsage where
  "tenant_usage_new = \<lparr>key_count = 0, session_count = 0\<rparr>"

record TenantManager =
  tenants :: "TenantId \<rightharpoonup> Tenant"
  usage :: "TenantId \<rightharpoonup> TenantUsage"

definition tenant_manager_new :: TenantManager where
  "tenant_manager_new = \<lparr>tenants = Map.empty, usage = Map.empty\<rparr>"

datatype TenantError = GeneralError | HostMemory

definition tenant_quota_exceeded :: TenantError where
  "tenant_quota_exceeded = HostMemory"

text \<open>Creation: the entry of the tenant, then its usage record.\<close>

definition create_entry :: "TenantId \<Rightarrow> string \<Rightarrow> TenantConfig \<Rightarrow> u64 \<Rightarrow> TenantManager \<Rightarrow> TenantManager \<times> (TenantError + unit)" where
  "create_entry tid name config now m =
     (let tenant = \<lparr>tn_id = tid, tn_name = name, tn_config = config, tn_enabled = True, tn_created_at = now\<rparr> in
      case tenants m tid of
        Some _ \<Rightarrow> (m, Inl GeneralError)
      | None \<Rightarrow> (m\<lparr>tenants := (tenants m)(tid \<mapsto> tenant)\<rparr>, Inr ()))"

definition create_usage :: "TenantId \<Rightarrow> TenantManager \<Rightarrow> TenantManager" where
  "create_usage tid m = m\<lparr>usage := (usage m)(tid \<mapsto> tenant_usage_new)\<rparr>"

definition create_tenant :: "TenantId \<Rightarrow> string \<Rightarrow> TenantConfig \<Rightarrow> u64 \<Rightarrow> TenantManager \<Rightarrow> TenantManager \<times> (TenantError + unit)" where
  "create_tenant tid name config now m =
     (case create_entry tid name config now m of
        (m1, Inl e) \<Rightarrow> (m1, Inl e)
      | (m1, Inr _) \<Rightarrow> (create_usage tid m1, Inr ()))"

text \<open>
  Deletion: the decision under the lock of the tenant's entry, which hides the flag that is
  cleared and restored meanwhile, then the removal of the usage record.
\<close>

definition delete_entry :: "TenantId \<Rightarrow> TenantManager \<Rightarrow> TenantManager \<times> (TenantError + unit)" where
  "delete_entry tid m =
     (case tenants m tid of
        None \<Rightarrow> (m, Inl GeneralError)
      | Some t \<Rightarrow>
          let n = (case usage m tid of Some u \<Rightarrow> key_count u | None \<Rightarrow> 0) in
          if n > 0 then (m\<lparr>tenants := (tenants m)(tid \<mapsto> t\<lparr>tn_enabled := True\<rparr>)\<rparr>, Inl GeneralError)
          else (m\<lparr>tenants := (tenants m)(tid := None)\<rparr>, Inr ()))"

definition delete_usage :: "TenantId \<Rightarrow> TenantManager \<Rightarrow> TenantManager" where
  "delete_usage tid m = m\<lparr>usage := (usage m)(tid := None)\<rparr>"

definition delete_tenant :: "TenantId \<Rightarrow> TenantManager \<Rightarrow> TenantManager \<times> (TenantError + unit)" where
  "delete_tenant tid m =
     (case delete_entry tid m of
        (m1, Inl e) \<Rightarrow> (m1, Inl e)
      | (m1, Inr _) \<Rightarrow> (delete_usage tid m1, Inr ()))"

definition get_tenant :: "TenantId \<Rightarrow> TenantManager \<Rightarrow> Tenant option" where
  "get_tenant tid m = tenants m tid"

definition decrement_key_count :: "TenantId \<Rightarrow> TenantManager \<Rightarrow> TenantManager" where
  "decrement_key_count tid m =
     (case usage m tid of
        Some u \<Rightarrow> m\<lparr>usage := (usage m)(tid \<mapsto> u\<lparr>key_count := saturating_sub (key_count u) 1\<rparr>)\<rparr>
      | None \<Rightarrow> m)"

definition decrement_session_count :: "TenantId \<Rightarrow> TenantManager \<Rightarrow> TenantManager" where
  "decrement_session_count tid m =
     (case usage m tid of
        Some u \<Rightarrow> m\<lparr>usage := (usage m)(tid \<mapsto> u\<lparr>session_count := saturating_sub (session_count u) 1\<rparr>)\<rparr>
      | None \<Rightarrow> m)"

text \<open>Reservation: the quota from the tenant's entry, then the update of the counter.\<close>

definition reserve_quota :: "(TenantConfig \<Rightarrow> u64) \<Rightarrow> TenantId \<Rightarrow> TenantManager \<Rightarrow> TenantError + u64" where
  "reserve_quota quota tid m =
     (case tenants m tid of
        None \<Rightarrow> Inl GeneralError
      | Some t \<Rightarrow> if \<not> tn_enabled t then Inl GeneralError else Inr (quota (tn_config t)))"

definition key_quota :: "TenantConfig \<Rightarrow> u64" where
  "key_quota c = word_of_nat (max_keys c)"

definition reserve_key_slot :: "TenantId \<Rightarrow> u64 \<Rightarrow> TenantManager \<Rightarrow> TenantManager \<times> (TenantError + unit)" where
  "reserve_key_slot tid quota m =
     (case usage m tid of
        None \<Rightarrow> (m, Inl GeneralError)
      | Some u \<Rightarrow>
          if key_count u < quota then (m\<lparr>usage := (usage m)(tid \<mapsto> u\<lparr>key_count := key_count u + 1\<rparr>)\<rparr>, Inr ())
          else (m, Inl tenant_quota_exceeded))"

definition try_reserve_key :: "TenantId \<Rightarrow> TenantManager \<Rightarrow> TenantManager \<times> (TenantError + unit)" where
  "try_reserve_key tid m =
     (case reserve_quota key_quota tid m of Inl e \<Rightarrow> (m, Inl e) | Inr quota \<Rightarrow> reserve_key_slot tid quota m)"

definition reserve_session_slot :: "TenantId \<Rightarrow> u64 \<Rightarrow> TenantManager \<Rightarrow> TenantManager \<times> (TenantError + unit)" where
  "reserve_session_slot tid quota m =
     (case usage m tid of
        None \<Rightarrow> (m, Inl GeneralError)
      | Some u \<Rightarrow>
          if session_count u < quota
          then (m\<lparr>usage := (usage m)(tid \<mapsto> u\<lparr>session_count := session_count u + 1\<rparr>)\<rparr>, Inr ())
          else (m, Inl tenant_quota_exceeded))"

definition try_reserve_session :: "TenantId \<Rightarrow> TenantManager \<Rightarrow> TenantManager \<times> (TenantError + unit)" where
  "try_reserve_session tid m =
     (case reserve_quota max_sessions tid m of Inl e \<Rightarrow> (m, Inl e) | Inr quota \<Rightarrow> reserve_session_slot tid quota m)"

section \<open>Calls one after the other\<close>

text \<open>
  The calls of the manager, where \<open>ids\<close> are the identifiers that tenants are created with.  The
  manager takes a \<open>TenantId\<close> as it is: one that was deserialised has not been through
  \<open>tenant_id_new\<close>.
\<close>

inductive manager_step :: "TenantId set \<Rightarrow> TenantManager \<Rightarrow> TenantManager \<Rightarrow> bool" for ids where
  create: "tid \<in> ids \<Longrightarrow> manager_step ids m (fst (create_tenant tid name config now m))"
| delete: "manager_step ids m (fst (delete_tenant tid m))"
| reserve_key: "manager_step ids m (fst (try_reserve_key tid m))"
| release_key: "manager_step ids m (decrement_key_count tid m)"
| reserve_session: "manager_step ids m (fst (try_reserve_session tid m))"
| release_session: "manager_step ids m (decrement_session_count tid m)"

text \<open>What a well-formed identifier is: \<open>[A-Za-z0-9][A-Za-z0-9._-]{0,63}\<close> without two dots in a row.\<close>

definition well_formed_id :: "string \<Rightarrow> bool" where
  "well_formed_id s \<longleftrightarrow> (\<exists>c rest. s = c # rest \<and> ascii_alphanumeric c \<and> length rest \<le> 63 \<and> (\<forall>x \<in> set rest. tenant_char x)) \<and>
     (\<nexists>xs ys. s = xs @ CHR ''.'' # CHR ''.'' # ys)"

definition usage_within :: "Tenant \<Rightarrow> TenantUsage \<Rightarrow> bool" where
  "usage_within t u \<longleftrightarrow> key_count u \<le> key_quota (tn_config t) \<and> session_count u \<le> max_sessions (tn_config t)"

definition manager_ok :: "TenantId set \<Rightarrow> TenantManager \<Rightarrow> bool" where
  "manager_ok ids m \<longleftrightarrow>
     (\<forall>tid. (tenants m tid = None) = (usage m tid = None)) \<and>
     (\<forall>tid t u. tenants m tid = Some t \<longrightarrow> usage m tid = Some u \<longrightarrow>
        tid \<in> ids \<and> tn_id t = tid \<and> tn_enabled t \<and> usage_within t u)"

lemma contains_dots_iff: "contains_dots s \<longleftrightarrow> (\<exists>xs ys. s = xs @ CHR ''.'' # CHR ''.'' # ys)"
proof (induction s rule: contains_dots.induct)
  case (1 a b rest)
  have "(\<exists>xs ys. a # b # rest = xs @ CHR ''.'' # CHR ''.'' # ys) \<longleftrightarrow>
      a = CHR ''.'' \<and> b = CHR ''.'' \<or> (\<exists>xs ys. b # rest = xs @ CHR ''.'' # CHR ''.'' # ys)"
    by (auto simp: Cons_eq_append_conv)
  with 1 show ?case by simp
qed (auto simp: Cons_eq_append_conv)

lemma validate_str_iff: "validate_str s = Inr () \<longleftrightarrow> well_formed_id s"
proof (cases s)
  case Nil
  then show ?thesis by (simp add: validate_str_def well_formed_id_def)
next
  case (Cons c rest)
  have "tenant_char c" if "ascii_alphanumeric c" using that by (simp add: tenant_char_def)
  then show ?thesis
    using Cons contains_dots_iff [of s]
    by (auto simp: validate_str_def well_formed_id_def MAX_TENANT_ID_LEN_def list_ex_iff)
qed

lemma tenant_id_new_iff: "tenant_id_new s = Inr tid \<longleftrightarrow> tid = TenantId s \<and> well_formed_id s"
  by (auto simp: tenant_id_new_def validate_str_iff [symmetric] split: sum.split)

lemma saturating_sub_le: "saturating_sub a b \<le> (a :: 'a::len word)"
  by (auto simp: saturating_sub_def not_less word_sub_le)

lemma manager_ok_usage:
  assumes "manager_ok ids m" and "usage m tid = Some u" and "\<And>t. tenants m tid = Some t \<Longrightarrow> usage_within t u \<Longrightarrow> usage_within t u'"
  shows "manager_ok ids (m\<lparr>usage := (usage m)(tid \<mapsto> u')\<rparr>)"
  using assms by (auto simp: manager_ok_def)

lemma manager_ok_create:
  assumes "manager_ok ids m" and "tid \<in> ids"
  shows "manager_ok ids (fst (create_tenant tid name config now m))"
  using assms
  by (auto simp: create_tenant_def create_entry_def create_usage_def manager_ok_def usage_within_def
      tenant_usage_new_def Let_def split: option.splits)

lemma manager_ok_delete: "manager_ok ids m \<Longrightarrow> manager_ok ids (fst (delete_tenant tid m))"
  by (auto simp: delete_tenant_def delete_entry_def delete_usage_def manager_ok_def usage_within_def Let_def
      split: option.splits if_splits)

lemma manager_ok_reserve_key:
  assumes "manager_ok ids m"
  shows "manager_ok ids (fst (try_reserve_key tid m))"
proof (cases "tenants m tid")
  case None
  then show ?thesis using assms by (simp add: try_reserve_key_def reserve_quota_def)
next
  case (Some t)
  then show ?thesis
    using assms manager_ok_usage [OF assms, of tid]
    by (auto simp: try_reserve_key_def reserve_quota_def reserve_key_slot_def usage_within_def inc_le split: option.split)
qed

lemma manager_ok_reserve_session:
  assumes "manager_ok ids m"
  shows "manager_ok ids (fst (try_reserve_session tid m))"
proof (cases "tenants m tid")
  case None
  then show ?thesis using assms by (simp add: try_reserve_session_def reserve_quota_def)
next
  case (Some t)
  then show ?thesis
    using assms manager_ok_usage [OF assms, of tid]
    by (auto simp: try_reserve_session_def reserve_quota_def reserve_session_slot_def usage_within_def inc_le split: option.split)
qed

lemma manager_ok_release:
  assumes "manager_ok ids m"
  shows "manager_ok ids (decrement_key_count tid m)" and "manager_ok ids (decrement_session_count tid m)"
proof -
  have "usage_within t (u\<lparr>key_count := saturating_sub (key_count u) 1\<rparr>)"
    "usage_within t (u\<lparr>session_count := saturating_sub (session_count u) 1\<rparr>)" if "usage_within t u" for t u
    using that by (auto simp: usage_within_def intro: order_trans [OF saturating_sub_le])
  with manager_ok_usage [OF assms, of tid] assms
  show "manager_ok ids (decrement_key_count tid m)" "manager_ok ids (decrement_session_count tid m)"
    by (auto simp: decrement_key_count_def decrement_session_count_def split: option.split)
qed

lemma manager_ok_step: "manager_step ids m m' \<Longrightarrow> manager_ok ids m \<Longrightarrow> manager_ok ids m'"
  by (induction rule: manager_step.induct)
    (simp_all add: manager_ok_create manager_ok_delete manager_ok_reserve_key manager_ok_reserve_session manager_ok_release)

section \<open>Interleaved calls\<close>

text \<open>
  Calls in progress, each at its second access.  \<open>cap\<close> bounds the key quota of every configuration
  that an identifier is created with.
\<close>

datatype Pending =
    CreateUsage TenantId
  | DeleteUsage TenantId
  | ReserveKey TenantId u64
  | ReserveSession TenantId u64

fun second_access :: "Pending \<Rightarrow> TenantManager \<Rightarrow> TenantManager" where
  "second_access (CreateUsage tid) m = create_usage tid m"
| "second_access (DeleteUsage tid) m = delete_usage tid m"
| "second_access (ReserveKey tid quota) m = fst (reserve_key_slot tid quota m)"
| "second_access (ReserveSession tid quota) m = fst (reserve_session_slot tid quota m)"

inductive access :: "(TenantId \<Rightarrow> u64) \<Rightarrow> TenantManager \<times> Pending list \<Rightarrow> TenantManager \<times> Pending list \<Rightarrow> bool" for cap where
  create_begins: "create_entry tid name config now m = (m', Inr ()) \<Longrightarrow> key_quota config \<le> cap tid \<Longrightarrow>
    access cap (m, ps) (m', CreateUsage tid # ps)"
| delete_begins: "delete_entry tid m = (m', Inr ()) \<Longrightarrow> access cap (m, ps) (m', DeleteUsage tid # ps)"
| delete_fails: "delete_entry tid m = (m', Inl e) \<Longrightarrow> access cap (m, ps) (m', ps)"
| key_begins: "reserve_quota key_quota tid m = Inr quota \<Longrightarrow> access cap (m, ps) (m, ReserveKey tid quota # ps)"
| session_begins: "reserve_quota max_sessions tid m = Inr quota \<Longrightarrow> access cap (m, ps) (m, ReserveSession tid quota # ps)"
| second: "access cap (m, ps @ p # qs) (second_access p m, ps @ qs)"
| key_released: "access cap (m, ps) (decrement_key_count tid m, ps)"
| session_released: "access cap (m, ps) (decrement_session_count tid m, ps)"

definition within_cap :: "(TenantId \<Rightarrow> u64) \<Rightarrow> TenantManager \<times> Pending list \<Rightarrow> bool" where
  "within_cap cap x \<longleftrightarrow>
     (\<forall>tid t. tenants (fst x) tid = Some t \<longrightarrow> key_quota (tn_config t) \<le> cap tid) \<and>
     (\<forall>tid quota. ReserveKey tid quota \<in> set (snd x) \<longrightarrow> quota \<le> cap tid) \<and>
     (\<forall>tid u. usage (fst x) tid = Some u \<longrightarrow> key_count u \<le> cap tid)"

lemma within_cap_second:
  assumes "within_cap cap (m, ps @ p # qs)"
  shows "within_cap cap (second_access p m, ps @ qs)"
proof (cases p)
  case (ReserveKey tid quota)
  then have "quota \<le> cap tid" using assms by (simp add: within_cap_def)
  then have "key_count u + 1 \<le> cap tid" if "key_count u < quota" for u :: TenantUsage
    using that inc_le order_trans by blast
  with assms ReserveKey show ?thesis by (auto simp: within_cap_def reserve_key_slot_def split: option.split)
qed (insert assms, auto simp: within_cap_def create_usage_def delete_usage_def tenant_usage_new_def reserve_session_slot_def
    split: option.split)

lemma within_cap_access: "access cap x y \<Longrightarrow> within_cap cap x \<Longrightarrow> within_cap cap y"
proof (induction rule: access.induct)
  case (create_begins tid name config now m m' ps)
  then show ?case by (auto simp: within_cap_def create_entry_def Let_def split: option.splits if_splits)
next
  case (delete_begins tid m m' ps)
  then show ?case by (auto simp: within_cap_def delete_entry_def Let_def split: option.splits if_splits)
next
  case (delete_fails tid m m' e ps)
  then show ?case by (auto simp: within_cap_def delete_entry_def Let_def split: option.splits if_splits)
next
  case (key_begins tid m quota ps)
  then show ?case by (auto simp: within_cap_def reserve_quota_def split: option.splits if_splits)
next
  case (session_begins tid m quota ps)
  then show ?case by (auto simp: within_cap_def)
next
  case (second m ps p qs)
  then show ?case by (rule within_cap_second)
next
  case (key_released m ps tid)
  then show ?case
    by (auto simp: within_cap_def decrement_key_count_def split: option.split intro: order_trans [OF saturating_sub_le])
next
  case (session_released m ps tid)
  then show ?case by (auto simp: within_cap_def decrement_session_count_def split: option.split)
qed

section \<open>Properties\<close>

text \<open>
  Two interleavings that the comments of \<open>delete_tenant\<close> exclude.  A reservation that has read its
  quota succeeds although the tenant is deleted meanwhile.
\<close>

theorem reservation_outlives_deletion:
  assumes "tenants m tid = Some t" and "tn_enabled t" and "usage m tid = Some tenant_usage_new" and "0 < key_quota (tn_config t)"
  shows "\<exists>quota m1. reserve_quota key_quota tid m = Inr quota \<and> delete_entry tid m = (m1, Inr ()) \<and>
    snd (reserve_key_slot tid quota m1) = Inr () \<and>
    tenants (delete_usage tid (fst (reserve_key_slot tid quota m1))) tid = None"
  using assms by (simp add: reserve_quota_def delete_entry_def reserve_key_slot_def delete_usage_def tenant_usage_new_def)

text \<open>
  A deletion whose last access comes after a creation of the same identifier removes the usage
  record of the new tenant, under which nothing can be reserved any more.
\<close>

theorem deletion_strips_new_tenant:
  assumes "tenants m tid = Some t" and "usage m tid = Some tenant_usage_new"
  shows "\<exists>m1 m2. delete_entry tid m = (m1, Inr ()) \<and> create_tenant tid name config now m1 = (m2, Inr ()) \<and>
    get_tenant tid (delete_usage tid m2) \<noteq> None \<and> snd (try_reserve_key tid (delete_usage tid m2)) = Inl GeneralError"
  using assms
  by (simp add: delete_entry_def create_tenant_def create_entry_def create_usage_def delete_usage_def get_tenant_def
      try_reserve_key_def reserve_quota_def reserve_key_slot_def tenant_usage_new_def Let_def)

text \<open>
  C39: The registry is well formed after every sequence of calls that do not overlap.  Whatever
  identifiers tenants are created with, each registered tenant has a usage record and conversely, its
  identifier is one a tenant was created with and equals the one in its record, it is enabled, and
  its keys and sessions are within its quotas.  When all identifiers used in creations came from
  \<open>tenant_id_new\<close>, every registered identifier is well formed; an identifier that was
  deserialised is not checked by the manager.
\<close>

theorem registry_well_formed:
  assumes "(manager_step ids)\<^sup>*\<^sup>* tenant_manager_new m"
  shows "manager_ok ids m \<and>
    (ids \<subseteq> {tid. \<exists>s. tenant_id_new s = Inr tid} \<longrightarrow> (\<forall>s. tenants m (TenantId s) \<noteq> None \<longrightarrow> well_formed_id s))"
proof -
  have ok: "manager_ok ids m"
    using assms
  proof induction
    case base
    then show ?case by (simp add: manager_ok_def tenant_manager_new_def)
  next
    case (step m m')
    then show ?case using manager_ok_step by blast
  qed
  have "well_formed_id s" if "ids \<subseteq> {tid. \<exists>s. tenant_id_new s = Inr tid}" and "tenants m (TenantId s) \<noteq> None" for s
  proof -
    have "TenantId s \<in> ids" using ok that(2) unfolding manager_ok_def by (metis not_None_eq)
    then show ?thesis using that(1) by (auto simp: tenant_id_new_iff)
  qed
  with ok show ?thesis by blast
qed

theorem registry_well_formed_witness:
  "\<exists>m. (manager_step {TenantId ''acme''})\<^sup>*\<^sup>* tenant_manager_new m \<and> manager_ok {TenantId ''acme''} m \<and>
     tenants m (TenantId ''acme'') \<noteq> None \<and> well_formed_id ''acme''"
proof -
  let ?m = "fst (create_tenant (TenantId ''acme'') [] tenant_config_default 0 tenant_manager_new)"
  have run: "(manager_step {TenantId ''acme''})\<^sup>*\<^sup>* tenant_manager_new ?m"
    using manager_step.create [of "TenantId ''acme''" "{TenantId ''acme''}"] by blast
  have "tenant_id_new ''acme'' = Inr (TenantId ''acme'')" by code_simp
  then have "{TenantId ''acme''} \<subseteq> {tid. \<exists>s. tenant_id_new s = Inr tid}" by blast
  moreover have "tenants ?m (TenantId ''acme'') \<noteq> None"
    by (simp add: create_tenant_def create_entry_def create_usage_def tenant_manager_new_def Let_def)
  ultimately show ?thesis using registry_well_formed [OF run] run by blast
qed

text \<open>
  C40: Key quotas hold under every interleaving of calls: when all configurations that an
  identifier is created with allow at most \<open>cap\<close> keys, its key count never exceeds \<open>cap\<close>, whatever
  creations, deletions, reservations and releases overlap.
\<close>

theorem key_quota_interleaved:
  assumes "(access cap)\<^sup>*\<^sup>* (tenant_manager_new, []) (m, ps)" and "usage m tid = Some u"
  shows "key_count u \<le> cap tid"
proof -
  have "within_cap cap x" if "(access cap)\<^sup>*\<^sup>* (tenant_manager_new, []) x" for x
    using that
  proof induction
    case base
    then show ?case by (simp add: within_cap_def tenant_manager_new_def)
  next
    case (step y z)
    then show ?case using within_cap_access by blast
  qed
  from this [OF assms(1)] show ?thesis using assms(2) by (simp add: within_cap_def)
qed

theorem key_quota_interleaved_witness:
  "\<exists>m u. (access (\<lambda>_. 10000))\<^sup>*\<^sup>* (tenant_manager_new, []) (m, []) \<and> usage m (TenantId ''acme'') = Some u \<and> key_count u \<le> 10000"
proof -
  let ?tid = "TenantId ''acme''" and ?cap = "\<lambda>_ :: TenantId. 10000 :: u64"
  let ?t = "\<lparr>tn_id = ?tid, tn_name = [], tn_config = tenant_config_default, tn_enabled = True, tn_created_at = 0\<rparr>"
  let ?m1 = "tenant_manager_new\<lparr>tenants := [?tid \<mapsto> ?t]\<rparr>"
  have "create_entry ?tid [] tenant_config_default 0 tenant_manager_new = (?m1, Inr ())"
    by (simp add: create_entry_def tenant_manager_new_def)
  from access.create_begins [OF this, of ?cap "[]"] have 1: "access ?cap (tenant_manager_new, []) (?m1, [CreateUsage ?tid])"
    by (simp add: key_quota_def tenant_config_default_def)
  have 2: "access ?cap (?m1, [CreateUsage ?tid]) (create_usage ?tid ?m1, [])"
    using access.second [of ?cap ?m1 "[]" "CreateUsage ?tid" "[]"] by simp
  from 1 2 have run: "(access ?cap)\<^sup>*\<^sup>* (tenant_manager_new, []) (create_usage ?tid ?m1, [])"
    by (meson converse_rtranclp_into_rtranclp r_into_rtranclp)
  have "usage (create_usage ?tid ?m1) ?tid = Some tenant_usage_new" by (simp add: create_usage_def)
  with key_quota_interleaved [OF run this] run show ?thesis by blast
qed

end
