(* ===== verification/Replication_Log.thy ===== *)
theory Replication_Log
  imports Raft_Auth
begin

text \<open>
  The replication log and the framing of the secure channel,
  \<open>craton-hsm-cluster/src/replication.rs\<close>.  The log keeps a bounded suffix of the events it
  accepted; the specification is the list of all of them.  SHA-256, HMAC and constant-time equality are
  parameters.  A channel is the bytes that are still to be read from it.
\<close>

section \<open>Entries\<close>

datatype ReplicationEvent = KeyCreated | KeyUpdated | KeyDeleted | KeyRotated | ConfigChanged

fun event_tag :: "ReplicationEvent \<Rightarrow> u8" where
  "event_tag KeyCreated = 1"
| "event_tag KeyUpdated = 2"
| "event_tag KeyDeleted = 3"
| "event_tag KeyRotated = 4"
| "event_tag ConfigChanged = 5"

record ReplicationEntry =
  re_sequence :: u64
  re_timestamp :: u64
  re_event :: ReplicationEvent
  re_payload :: bytes
  re_checksum :: bytes

record ChecksumEnv =
  plain_hash :: "bytes \<Rightarrow> bytes"
  keyed_hash :: "bytes \<Rightarrow> bytes \<Rightarrow> bytes"
  hash_eq :: "bytes \<Rightarrow> bytes \<Rightarrow> bool"

definition compute_checksum :: "ChecksumEnv \<Rightarrow> ReplicationEvent \<Rightarrow> bytes \<Rightarrow> bytes option \<Rightarrow> bytes" where
  "compute_checksum env event payload secret =
     (let input = event_tag event # len_u32_be (length payload) @ payload in
      case secret of Some key \<Rightarrow> keyed_hash env key input | None \<Rightarrow> plain_hash env input)"

definition verify_checksum :: "ChecksumEnv \<Rightarrow> ReplicationEntry \<Rightarrow> bool" where
  "verify_checksum env e = hash_eq env (compute_checksum env (re_event e) (re_payload e) None) (re_checksum e)"

definition verify_checksum_with_secret :: "ChecksumEnv \<Rightarrow> bytes \<Rightarrow> ReplicationEntry \<Rightarrow> bool" where
  "verify_checksum_with_secret env secret e =
     hash_eq env (compute_checksum env (re_event e) (re_payload e) (Some secret)) (re_checksum e)"

section \<open>The log\<close>

definition DEFAULT_MAX_PAYLOAD_BYTES :: nat where
  "DEFAULT_MAX_PAYLOAD_BYTES = 1048576"

definition DEFAULT_MAX_LOG_ENTRIES :: nat where
  "DEFAULT_MAX_LOG_ENTRIES = 100000"

record ReplicationLog =
  rl_entries :: "ReplicationEntry list"
  next_sequence :: u64
  max_payload_bytes :: nat
  max_log_entries :: nat
  rl_cluster_secret :: "bytes option"
  require_cluster_secret :: bool
  allow_insecure :: bool

datatype AppendError = PayloadTooLarge | NoClusterSecret

text \<open>\<open>with_limits\<close> panics when asked for a log without entries.\<close>

definition with_limits :: "nat \<Rightarrow> nat \<Rightarrow> ReplicationLog option" where
  "with_limits payload_bytes log_entries =
     (if log_entries > 0 then
        Some \<lparr>rl_entries = [], next_sequence = 1, max_payload_bytes = payload_bytes, max_log_entries = log_entries,
          rl_cluster_secret = None, require_cluster_secret = False, allow_insecure = False\<rparr>
      else None)"

definition replication_log_new :: "ReplicationLog option" where
  "replication_log_new = with_limits DEFAULT_MAX_PAYLOAD_BYTES DEFAULT_MAX_LOG_ENTRIES"

definition replication_set_secret :: "bytes \<Rightarrow> ReplicationLog \<Rightarrow> ReplicationLog" where
  "replication_set_secret secret l = l\<lparr>rl_cluster_secret := Some secret\<rparr>"

definition is_authenticated :: "ReplicationLog \<Rightarrow> bool" where
  "is_authenticated l \<longleftrightarrow> rl_cluster_secret l \<noteq> None"

definition replication_append ::
  "ChecksumEnv \<Rightarrow> ReplicationEvent \<Rightarrow> bytes \<Rightarrow> u64 \<Rightarrow> ReplicationLog \<Rightarrow> ReplicationLog \<times> (AppendError + u64)" where
  "replication_append env event payload timestamp l =
     (if length payload > max_payload_bytes l then (l, Inl PayloadTooLarge)
      else if rl_cluster_secret l = None \<and> (require_cluster_secret l \<or> \<not> allow_insecure l) then (l, Inl NoClusterSecret)
      else
        let sq = next_sequence l;
            entry = \<lparr>re_sequence = sq, re_timestamp = timestamp, re_event = event, re_payload = payload,
              re_checksum = compute_checksum env event payload (rl_cluster_secret l)\<rparr>;
            kept = (if length (rl_entries l) \<ge> max_log_entries l then tl (rl_entries l) else rl_entries l)
        in (l\<lparr>rl_entries := kept @ [entry], next_sequence := sq + 1\<rparr>, Inr sq))"

text \<open>
  The searches of the standard library on a sorted deque: the number of entries before a
  sequence number, and the entry at that place if it has the number.
\<close>

definition partition_point :: "u64 \<Rightarrow> ReplicationEntry list \<Rightarrow> nat" where
  "partition_point sq es = length (takeWhile (\<lambda>e. re_sequence e < sq) es)"

definition replication_get :: "u64 \<Rightarrow> ReplicationLog \<Rightarrow> ReplicationEntry option" where
  "replication_get sq l =
     (case drop (partition_point sq (rl_entries l)) (rl_entries l) of
        e # _ \<Rightarrow> if re_sequence e = sq then Some e else None
      | [] \<Rightarrow> None)"

definition entries_since :: "u64 \<Rightarrow> ReplicationLog \<Rightarrow> ReplicationEntry list" where
  "entries_since since l = drop (partition_point since (rl_entries l)) (rl_entries l)"

definition replication_len :: "ReplicationLog \<Rightarrow> nat" where
  "replication_len l = length (rl_entries l)"

definition latest_sequence :: "ReplicationLog \<Rightarrow> u64" where
  "latest_sequence l = saturating_sub (next_sequence l) 1"

section \<open>Frames\<close>

datatype SecureChannelError = ChannelIo | ChannelTls | PeerIdentityMismatch string string | FrameTooLarge nat nat

definition channel_send :: "bytes \<Rightarrow> SecureChannelError + bytes" where
  "channel_send frame =
     (if length frame > MAX_WIRE_FRAME_BYTES then Inl (FrameTooLarge (length frame) MAX_WIRE_FRAME_BYTES)
      else Inr (len_u32_be (length frame) @ frame))"

text \<open>The result of a read: an error, the end of the stream, or a frame and what follows it.\<close>

definition channel_recv :: "bytes \<Rightarrow> SecureChannelError + (bytes \<times> bytes) option" where
  "channel_recv stream =
     (if length stream < 4 then Inr None
      else
        let len = unat (from_be_bytes (take 4 stream) :: u32); rest = drop 4 stream in
        if len > MAX_WIRE_FRAME_BYTES then Inl (FrameTooLarge len MAX_WIRE_FRAME_BYTES)
        else if length rest < len then Inl ChannelIo
        else Inr (Some (take len rest, drop len rest)))"

text \<open>The receive loop of \<open>serve\<close>: the frames up to the end of the stream or an error.\<close>

function recv_all :: "bytes \<Rightarrow> bytes list" where
  "recv_all stream =
     (case channel_recv stream of
        Inr (Some (frame, rest)) \<Rightarrow> frame # recv_all rest
      | _ \<Rightarrow> [])"
  by pat_completeness auto
termination
proof (relation "measure length", goal_cases)
  case (2 stream x1 x2 frame rest)
  then show ?case by (auto simp: channel_recv_def Let_def split: if_splits)
qed simp

declare recv_all.simps [simp del]

text \<open>
  The check of \<open>serve\<close> that a frame speaks for the peer of the channel.  \<open>id_fields\<close> is the parser of the
  two identity fields; a frame it cannot read is passed on.
\<close>

definition identity_matches :: "(bytes \<Rightarrow> (string option \<times> string option) option) \<Rightarrow> string \<Rightarrow> bytes \<Rightarrow> bool" where
  "identity_matches id_fields identity frame \<longleftrightarrow>
     (case id_fields frame of
        None \<Rightarrow> True
      | Some (leader_id, candidate_id) \<Rightarrow>
          (case (case leader_id of Some l \<Rightarrow> Some l | None \<Rightarrow> candidate_id) of
             Some c \<Rightarrow> c = identity
           | None \<Rightarrow> True))"

definition dispatched :: "(bytes \<Rightarrow> (string option \<times> string option) option) \<Rightarrow> string \<Rightarrow> bytes \<Rightarrow> bytes list" where
  "dispatched id_fields identity stream = filter (identity_matches id_fields identity) (recv_all stream)"

section \<open>The specification of the log\<close>

type_synonym event_record = "ReplicationEvent \<times> bytes \<times> u64"

definition entry_at :: "ChecksumEnv \<Rightarrow> bytes option \<Rightarrow> event_record list \<Rightarrow> nat \<Rightarrow> ReplicationEntry" where
  "entry_at env secret hist i =
     (let (event, payload, timestamp) = hist ! (i - 1) in
      \<lparr>re_sequence = word_of_nat i, re_timestamp = timestamp, re_event = event, re_payload = payload,
        re_checksum = compute_checksum env event payload secret\<rparr>)"

definition first_kept :: "event_record list \<Rightarrow> ReplicationLog \<Rightarrow> nat" where
  "first_kept hist l = length hist - max_log_entries l + 1"

text \<open>The log stands for the list of all events it accepted: numbered from 1, the last ones kept.\<close>

definition history_rel :: "ChecksumEnv \<Rightarrow> event_record list \<Rightarrow> ReplicationLog \<Rightarrow> bool" where
  "history_rel env hist l \<longleftrightarrow> 0 < max_log_entries l \<and> length hist + 1 < 2 ^ 64 \<and>
     next_sequence l = word_of_nat (length hist + 1) \<and>
     rl_entries l = map (entry_at env (rl_cluster_secret l) hist) [first_kept hist l..<length hist + 1]"

lemma entry_at_append: "i \<le> length hist \<Longrightarrow> 0 < i \<Longrightarrow> entry_at env secret (hist @ [x]) i = entry_at env secret hist i"
  by (simp add: entry_at_def nth_append)

lemma history_rel_append:
  assumes rel: "history_rel env hist l" and "length hist + 2 < 2 ^ 64"
    and ok: "length payload \<le> max_payload_bytes l" "rl_cluster_secret l \<noteq> None \<or> \<not> require_cluster_secret l \<and> allow_insecure l"
  shows "history_rel env (hist @ [(event, payload, timestamp)]) (fst (replication_append env event payload timestamp l))"
    and "snd (replication_append env event payload timestamp l) = Inr (word_of_nat (length hist + 1))"
proof -
  let ?n = "length hist" and ?x = "(event, payload, timestamp)"
  let ?f = "entry_at env (rl_cluster_secret l) hist" and ?f' = "entry_at env (rl_cluster_secret l) (hist @ [?x])"
  have l: "0 < max_log_entries l" "next_sequence l = word_of_nat (?n + 1)" "rl_entries l = map ?f [first_kept hist l..<?n + 1]"
    using rel by (auto simp: history_rel_def)
  define kept where "kept = (if length (rl_entries l) \<ge> max_log_entries l then tl (rl_entries l) else rl_entries l)"
  define k where "k = first_kept (hist @ [?x]) l"
  have "kept = map ?f [k..<?n + 1]"
  proof (cases "max_log_entries l \<le> ?n")
    case True
    then have "tl [first_kept hist l..<?n + 1] = [k..<?n + 1]"
      using l(1) by (simp add: first_kept_def k_def tl_upt Suc_diff_le del: upt_Suc)
    then show ?thesis using True l(1,3) by (simp add: kept_def first_kept_def map_tl [symmetric] del: upt_Suc)
  next
    case False
    then show ?thesis using l(3) by (simp add: kept_def k_def first_kept_def del: upt_Suc)
  qed
  also have "\<dots> = map ?f' [k..<?n + 1]"
    by (rule map_cong) (auto simp: entry_at_append k_def first_kept_def simp del: upt_Suc)
  finally have kept: "kept @ [?f' (?n + 1)] = map ?f' [k..<?n + 2]"
    using l(1) by (simp add: k_def first_kept_def)
  have app: "replication_append env event payload timestamp l =
      (l\<lparr>rl_entries := kept @ [?f' (?n + 1)], next_sequence := word_of_nat (?n + 1) + 1\<rparr>, Inr (word_of_nat (?n + 1)))"
    using ok l(2) by (auto simp: replication_append_def kept_def entry_at_def Let_def)
  show "history_rel env (hist @ [?x]) (fst (replication_append env event payload timestamp l))"
    using l(1) assms(2) kept by (simp add: app history_rel_def k_def first_kept_def add.commute)
  show "snd (replication_append env event payload timestamp l) = Inr (word_of_nat (?n + 1))"
    by (simp add: app)
qed

lemma takeWhile_upt: "takeWhile (\<lambda>i. i < s) [a..<b] = [a..<min b (max a s)]"
proof (induction b)
  case (Suc b)
  show ?case
  proof (cases "a \<le> b")
    case True
    have "takeWhile (\<lambda>i. i < s) ([a..<b] @ [b]) = [a..<min (Suc b) (max a s)]"
    proof (cases "b < s")
      case True
      then show ?thesis using \<open>a \<le> b\<close> by (subst takeWhile_append2) auto
    next
      case False
      then have "takeWhile (\<lambda>i. i < s) ([a..<b] @ [b]) = takeWhile (\<lambda>i. i < s) [a..<b]"
        by (simp add: takeWhile_tail)
      then show ?thesis using False \<open>a \<le> b\<close> Suc by (auto simp: min_def max_def)
    qed
    then show ?thesis using True by simp
  qed (simp add: min_def)
qed simp

lemma partition_point_rel:
  assumes "history_rel env hist l"
  shows "drop (partition_point sq (rl_entries l)) (rl_entries l) =
    map (entry_at env (rl_cluster_secret l) hist) [max (first_kept hist l) (unat sq)..<length hist + 1]"
proof -
  let ?a = "first_kept hist l" and ?b = "length hist + 1" and ?f = "entry_at env (rl_cluster_secret l) hist"
  have es: "rl_entries l = map ?f [?a..<?b]" and b: "?b < 2 ^ 64" using assms by (simp_all add: history_rel_def)
  have less: "re_sequence (?f i) < sq \<longleftrightarrow> i < unat sq" if "i < ?b" for i
    using that b by (simp add: entry_at_def Let_def split_def word_less_nat_alt unsigned_of_nat take_bit_nat_eq_self)
  have "takeWhile (\<lambda>i. re_sequence (?f i) < sq) [?a..<?b] = takeWhile (\<lambda>i. i < unat sq) [?a..<?b]"
    by (rule takeWhile_cong) (auto simp: less)
  then have "partition_point sq (rl_entries l) = min ?b (max ?a (unat sq)) - ?a"
    by (simp add: partition_point_def es takeWhile_map comp_def takeWhile_upt del: upt_Suc)
  then show ?thesis
    by (simp add: es drop_map del: upt_Suc) (auto simp: min_def max_def simp del: upt_Suc)
qed

lemma history_rel_reads:
  assumes "history_rel env hist l"
  shows "entries_since sq l =
      map (entry_at env (rl_cluster_secret l) hist) [max (first_kept hist l) (unat sq)..<length hist + 1]"
    and "replication_get sq l =
      (if first_kept hist l \<le> unat sq \<and> unat sq \<le> length hist then Some (entry_at env (rl_cluster_secret l) hist (unat sq)) else None)"
    and "latest_sequence l = word_of_nat (length hist)"
proof -
  let ?f = "entry_at env (rl_cluster_secret l) hist" and ?a = "first_kept hist l" and ?b = "length hist + 1"
  note d = partition_point_rel [OF assms, of sq]
  show "entries_since sq l = map ?f [max ?a (unat sq)..<?b]" by (simp add: entries_since_def d del: upt_Suc)
  have b: "?b < 2 ^ 64" "next_sequence l = word_of_nat ?b" using assms by (simp_all add: history_rel_def)
  have seq: "re_sequence (?f i) = sq \<longleftrightarrow> i = unat sq" if "i < ?b" for i
    using that b(1)
    by (auto simp: entry_at_def Let_def split_def unsigned_of_nat take_bit_nat_eq_self)
  show "replication_get sq l = (if ?a \<le> unat sq \<and> unat sq \<le> length hist then Some (?f (unat sq)) else None)"
  proof (cases "max ?a (unat sq) < ?b")
    case True
    then have "[max ?a (unat sq)..<?b] = max ?a (unat sq) # [Suc (max ?a (unat sq))..<?b]" by (rule upt_conv_Cons)
    then show ?thesis
      using True seq [of "max ?a (unat sq)"] unfolding replication_get_def d by (auto simp: max_def simp del: upt_Suc)
  next
    case False
    then have "[max ?a (unat sq)..<?b] = []" and "\<not> (?a \<le> unat sq \<and> unat sq \<le> length hist)" by auto
    then show ?thesis unfolding replication_get_def d by (simp del: upt_Suc)
  qed
  have "unat (next_sequence l) = ?b"
    unfolding b(2) using b(1) by (simp add: unsigned_of_nat take_bit_nat_eq_self del: of_nat_Suc of_nat_add)
  then have "\<not> next_sequence l < 1" by (simp add: word_less_nat_alt)
  then show "latest_sequence l = word_of_nat (length hist)" using b(2) by (simp add: latest_sequence_def saturating_sub_def)
qed

section \<open>Frames, lemmas\<close>

lemma recv_sent:
  assumes "channel_send frame = Inr sent"
  shows "channel_recv (sent @ rest) = Inr (Some (frame, rest))"
proof -
  have len: "length frame \<le> MAX_WIRE_FRAME_BYTES" and sent: "sent = len_u32_be (length frame) @ frame"
    using assms by (auto simp: channel_send_def split: if_splits)
  have hdr: "length (len_u32_be (length frame)) = 4" by (simp add: len_u32_be_def)
  have "unat (from_be_bytes (len_u32_be (length frame)) :: u32) = length frame"
    using len by (simp add: from_be_len_u32 unsigned_of_nat take_bit_nat_eq_self MAX_WIRE_FRAME_BYTES_def)
  then show ?thesis using len hdr by (simp add: channel_recv_def sent Let_def)
qed

lemma recv_all_sent:
  "list_all2 (\<lambda>f s. channel_send f = Inr s) frames sents \<Longrightarrow> recv_all (concat sents) = frames"
proof (induction frames sents rule: list_all2_induct)
  case Nil
  then show ?case by (simp add: recv_all.simps channel_recv_def)
next
  case (Cons f frames s sents)
  then show ?case using recv_sent [of f s "concat sents"] by (simp add: recv_all.simps [of "s @ concat sents"])
qed

text \<open>
  A frame with both identity fields is only held to the first one.
\<close>

theorem second_identity_unchecked:
  "id_fields frame = Some (Some identity, Some other) \<Longrightarrow> identity_matches id_fields identity frame"
  by (simp add: identity_matches_def)

text \<open>Entries that the log no longer holds are left out of a catch-up without notice.\<close>

theorem catch_up_skips_evicted:
  assumes "history_rel env hist l" and "unat since < first_kept hist l"
  shows "entries_since since l = rl_entries l"
  using history_rel_reads(1) [OF assms(1), of since] assms by (simp add: history_rel_def max_def del: upt_Suc)

section \<open>Properties\<close>

text \<open>
  C36: The replication log refines the list of the events it accepted.  An accepted event gets the next
  number and joins the list; a refused one changes nothing, and an event is refused exactly when
  its payload is too large or there is neither a secret nor leave to work without one.  Reading by
  number gives that event while it is among the last \<open>max_log_entries\<close>, and catching up from a
  number gives the kept events from there on, in order, each with the checksum of its content.
\<close>

theorem replication_log_refines:
  assumes "history_rel env hist l" and "length hist + 2 < 2 ^ 64"
  shows "(case replication_append env event payload timestamp l of
        (l', Inr sq) \<Rightarrow> history_rel env (hist @ [(event, payload, timestamp)]) l' \<and> unat sq = length hist + 1
      | (l', Inl _) \<Rightarrow> l' = l) \<and>
    ((\<exists>e. snd (replication_append env event payload timestamp l) = Inl e) \<longleftrightarrow>
      length payload > max_payload_bytes l \<or> \<not> is_authenticated l \<and> (require_cluster_secret l \<or> \<not> allow_insecure l)) \<and>
    replication_get sq l =
      (if first_kept hist l \<le> unat sq \<and> unat sq \<le> length hist then Some (entry_at env (rl_cluster_secret l) hist (unat sq)) else None) \<and>
    entries_since sq l =
      map (entry_at env (rl_cluster_secret l) hist) [max (first_kept hist l) (unat sq)..<length hist + 1] \<and>
    unat (latest_sequence l) = length hist"
proof -
  have n: "unat (word_of_nat m :: u64) = m" if "m \<le> length hist + 1" for m
    using that assms(2) by (simp add: unsigned_of_nat take_bit_nat_eq_self)
  show ?thesis
  proof (cases "length payload > max_payload_bytes l \<or> \<not> is_authenticated l \<and> (require_cluster_secret l \<or> \<not> allow_insecure l)")
    case True
    then have "\<exists>e. replication_append env event payload timestamp l = (l, Inl e)"
      by (auto simp: replication_append_def is_authenticated_def)
    then show ?thesis using True history_rel_reads [OF assms(1)] n by auto
  next
    case False
    then have ok: "length payload \<le> max_payload_bytes l" "rl_cluster_secret l \<noteq> None \<or> \<not> require_cluster_secret l \<and> allow_insecure l"
      by (auto simp: is_authenticated_def)
    obtain l' r where app: "replication_append env event payload timestamp l = (l', r)" by fastforce
    have "history_rel env (hist @ [(event, payload, timestamp)]) l' \<and> r = Inr (word_of_nat (length hist + 1))"
      using history_rel_append [OF assms ok, of event timestamp] by (simp add: app)
    then show ?thesis using False history_rel_reads [OF assms(1)] n [of "length hist"] n [of "length hist + 1"]
      by (simp add: app del: upt_Suc of_nat_Suc of_nat_add)
  qed
qed

theorem replication_log_refines_witness:
  "\<exists>l sq. with_limits 10 2 = Some l \<and>
    snd (replication_append \<lparr>plain_hash = id, keyed_hash = (\<lambda>k m. k @ m), hash_eq = (=)\<rparr> KeyCreated [1, 2] 5
      (replication_set_secret [9] l)) = Inr sq \<and> unat sq = 1"
proof -
  let ?env = "\<lparr>plain_hash = id, keyed_hash = (\<lambda>k m. k @ m), hash_eq = (=)\<rparr>"
  obtain l where l: "with_limits 10 2 = Some l" by (simp add: with_limits_def)
  then have rel: "history_rel ?env [] (replication_set_secret [9] l)"
    by (auto simp: with_limits_def replication_set_secret_def history_rel_def first_kept_def)
  obtain l' r where app: "replication_append ?env KeyCreated [1, 2] 5 (replication_set_secret [9] l) = (l', r)" by fastforce
  have "\<nexists>e. r = Inl e"
    using l app by (auto simp: with_limits_def replication_set_secret_def replication_append_def Let_def)
  then obtain sq where r: "r = Inr sq" by (cases r) auto
  have "unat sq = 1" using replication_log_refines [OF rel, of KeyCreated "[1, 2]" 5] by (simp add: app r)
  with l app r show ?thesis by simp
qed

text \<open>
  Frames arrive as they were sent.  Whatever frames within the limit are sent one after the
  other, the receive loop yields exactly them and ends, and the handler gets those that do not claim
  another identity than that of the channel.
\<close>

theorem frames_roundtrip:
  assumes "list_all2 (\<lambda>f s. channel_send f = Inr s) frames sents"
  shows "recv_all (concat sents) = frames \<and>
    dispatched id_fields identity (concat sents) = filter (identity_matches id_fields identity) frames"
  using recv_all_sent [OF assms] by (simp add: dispatched_def)

theorem frames_roundtrip_witness:
  "recv_all (concat [[0, 0, 0, 2, 7, 8], [0, 0, 0, 0]]) = [[7, 8], []]"
proof -
  have "channel_send [7, 8] = Inr [0, 0, 0, 2, 7, 8]" "channel_send [] = Inr [0, 0, 0, 0]"
    by (simp_all add: channel_send_def MAX_WIRE_FRAME_BYTES_def len_u32_be_def be_bytes_def, code_simp+)
  then have "list_all2 (\<lambda>f s. channel_send f = Inr s) [[7, 8], []] [[0, 0, 0, 2, 7, 8], [0, 0, 0, 0]]" by simp
  from frames_roundtrip [OF this] show ?thesis by blast
qed

end
