(* ===== verification/Cluster_Config.thy ===== *)
theory Cluster_Config
  imports Raft_Node Rust_Strings
begin

text \<open>
  The configuration of a cluster node, \<open>craton-hsm-cluster/src/config.rs\<close>, and the health reports
  of \<open>craton-hsm-cluster/src/health.rs\<close>.  Arithmetic is that of a release build.  Files, file modes and
  environment variables are arguments; an error is named by the check that failed.
\<close>

section \<open>Configuration\<close>

datatype ReplicationMode = Synchronous | Asynchronous | SemiSynchronous

record PeerConfig =
  pr_node_id :: string
  pr_addr :: string

record ClusterConfig =
  cc_node_id :: string
  cc_listen_addr :: string
  cc_peers :: "PeerConfig list"
  cc_replication_mode :: ReplicationMode
  cc_election_timeout_ms :: u64
  cc_heartbeat_interval_ms :: u64
  cc_snapshot_interval :: u64
  cc_max_log_entries :: nat
  cc_max_message_age_ms :: u64
  cc_max_future_skew_ms :: u64
  cc_cluster_secret_hex :: "string option"
  cc_cluster_secret_file :: "string option"
  cc_cluster_secret_env :: "string option"
  cc_allow_insecure :: bool
  cc_vote_rate_limit_capacity :: u32
  cc_vote_rate_limit_refill_interval_ms :: u64
  cc_min_config_change_interval_ms :: u64
  cc_legacy_reply_hmac_tags :: bool

definition cluster_config_default :: ClusterConfig where
  "cluster_config_default = \<lparr>cc_node_id = '''', cc_listen_addr = ''127.0.0.1:9443'', cc_peers = [],
     cc_replication_mode = Synchronous, cc_election_timeout_ms = 1000, cc_heartbeat_interval_ms = 300,
     cc_snapshot_interval = 10000, cc_max_log_entries = 100000, cc_max_message_age_ms = 30000,
     cc_max_future_skew_ms = 1000, cc_cluster_secret_hex = None, cc_cluster_secret_file = None,
     cc_cluster_secret_env = None, cc_allow_insecure = False, cc_vote_rate_limit_capacity = 3,
     cc_vote_rate_limit_refill_interval_ms = 5000, cc_min_config_change_interval_ms = 500,
     cc_legacy_reply_hmac_tags = True\<rparr>"

datatype ConfigError =
    NodeIdEmpty
  | ListenAddr
  | ElectionTimeoutZero
  | HeartbeatZero
  | HeartbeatTooLong
  | MaxLogEntriesZero
  | SnapshotIntervalZero
  | MessageAgeZero
  | FutureSkewZero
  | FutureSkewTooLong
  | PeerIdEmpty
  | PeerIsSelf
  | PeerDuplicate
  | PeerAddr
  | OddHex
  | BadHexDigit
  | SecretLength
  | SecretEnvEmpty
  | NoSecret
  | SecretFileStat
  | SecretFileKind
  | SecretFileMode
  | SecretFileRead
  | SecretEnvRead

definition has_any_cluster_secret :: "ClusterConfig \<Rightarrow> bool" where
  "has_any_cluster_secret c \<longleftrightarrow>
     cc_cluster_secret_hex c \<noteq> None \<or> cc_cluster_secret_file c \<noteq> None \<or> cc_cluster_secret_env c \<noteq> None"

definition hex_nibble :: "u8 \<Rightarrow> ConfigError + u8" where
  "hex_nibble b =
     (if 0x30 \<le> b \<and> b \<le> 0x39 then Inr (b - 0x30)
      else if 0x61 \<le> b \<and> b \<le> 0x66 then Inr (b - 0x61 + 10)
      else if 0x41 \<le> b \<and> b \<le> 0x46 then Inr (b - 0x41 + 10)
      else Inl BadHexDigit)"

fun decode_hex_pairs :: "bytes \<Rightarrow> ConfigError + bytes" where
  "decode_hex_pairs (h # l # rest) =
     (case hex_nibble h of
        Inl e \<Rightarrow> Inl e
      | Inr hi \<Rightarrow>
         (case hex_nibble l of
            Inl e \<Rightarrow> Inl e
          | Inr lo \<Rightarrow> map_sum id (\<lambda>out. or (push_bit 4 hi) lo # out) (decode_hex_pairs rest)))"
| "decode_hex_pairs _ = Inr []"

definition decode_hex :: "bytes \<Rightarrow> ConfigError + bytes" where
  "decode_hex s = (if length s mod 2 \<noteq> 0 then Inl OddHex else decode_hex_pairs s)"

definition decode_32 :: "bytes \<Rightarrow> ConfigError + bytes option" where
  "decode_32 b = (if length b \<noteq> 32 then Inl SecretLength else Inr (Some b))"

text \<open>The loop over the peers, with the identifiers seen so far.\<close>

fun validate_peers :: "string \<Rightarrow> string set \<Rightarrow> PeerConfig list \<Rightarrow> ConfigError + unit" where
  "validate_peers node_id ids_seen [] = Inr ()"
| "validate_peers node_id ids_seen (p # ps) =
     (if pr_node_id p = [] then Inl PeerIdEmpty
      else if pr_node_id p = node_id then Inl PeerIsSelf
      else if pr_node_id p \<in> ids_seen then Inl PeerDuplicate
      else if CHR '':'' \<notin> set (pr_addr p) then Inl PeerAddr
      else validate_peers node_id (insert (pr_node_id p) ids_seen) ps)"

definition validate_secrets :: "ClusterConfig \<Rightarrow> ConfigError + unit" where
  "validate_secrets c =
     (case (case cc_cluster_secret_hex c of
              None \<Rightarrow> Inr ()
            | Some hex \<Rightarrow>
                (case decode_hex (as_bytes hex) of
                   Inl e \<Rightarrow> Inl e
                 | Inr b \<Rightarrow> if length b \<noteq> 32 then Inl SecretLength else Inr ())) of
        Inl e \<Rightarrow> Inl e
      | Inr _ \<Rightarrow>
          if cc_cluster_secret_env c = Some [] then Inl SecretEnvEmpty
          else if \<not> has_any_cluster_secret c \<and> \<not> cc_allow_insecure c then Inl NoSecret
          else Inr ())"

definition cluster_config_validate :: "ClusterConfig \<Rightarrow> ConfigError + unit" where
  "cluster_config_validate c =
     (if cc_node_id c = [] then Inl NodeIdEmpty
      else if CHR '':'' \<notin> set (cc_listen_addr c) then Inl ListenAddr
      else if cc_election_timeout_ms c = 0 then Inl ElectionTimeoutZero
      else if cc_heartbeat_interval_ms c = 0 then Inl HeartbeatZero
      else if cc_heartbeat_interval_ms c \<ge> cc_election_timeout_ms c then Inl HeartbeatTooLong
      else if cc_max_log_entries c = 0 then Inl MaxLogEntriesZero
      else if cc_snapshot_interval c = 0 then Inl SnapshotIntervalZero
      else if cc_max_message_age_ms c = 0 then Inl MessageAgeZero
      else if cc_max_future_skew_ms c = 0 then Inl FutureSkewZero
      else if cc_max_future_skew_ms c * 2 \<ge> cc_max_message_age_ms c then Inl FutureSkewTooLong
      else case validate_peers (cc_node_id c) {} (cc_peers c) of
        Inl e \<Rightarrow> Inl e
      | Inr _ \<Rightarrow> validate_secrets c)"

text \<open>A file as \<open>stat\<close> and reading show it: whether it is a regular file, its mode, its text.\<close>

record SecretFile =
  sf_is_file :: bool
  sf_mode :: u32
  sf_contents :: "bytes option"

definition check_secret_file_permissions :: "SecretFile option \<Rightarrow> ConfigError + SecretFile" where
  "check_secret_file_permissions file =
     (case file of
        None \<Rightarrow> Inl SecretFileStat
      | Some f \<Rightarrow>
          if \<not> sf_is_file f then Inl SecretFileKind
          else if and (sf_mode f) 0x3F \<noteq> 0 then Inl SecretFileMode
          else Inr f)"

definition decoded_cluster_secret ::
  "(string \<Rightarrow> SecretFile option) \<Rightarrow> (string \<Rightarrow> bytes option) \<Rightarrow> ClusterConfig \<Rightarrow> ConfigError + bytes option" where
  "decoded_cluster_secret files env c =
     (case cc_cluster_secret_file c of
        Some path \<Rightarrow>
          (case check_secret_file_permissions (files path) of
             Inl e \<Rightarrow> Inl e
           | Inr f \<Rightarrow>
               (case sf_contents f of
                  None \<Rightarrow> Inl SecretFileRead
                | Some raw \<Rightarrow> (case decode_hex (trim raw) of Inl e \<Rightarrow> Inl e | Inr b \<Rightarrow> decode_32 b)))
      | None \<Rightarrow>
          (case cc_cluster_secret_env c of
             Some var \<Rightarrow>
               (case env var of
                  None \<Rightarrow> Inl SecretEnvRead
                | Some raw \<Rightarrow> (case decode_hex (trim raw) of Inl e \<Rightarrow> Inl e | Inr b \<Rightarrow> decode_32 b))
           | None \<Rightarrow>
               (case cc_cluster_secret_hex c of
                  None \<Rightarrow> Inr None
                | Some hex \<Rightarrow> (case decode_hex (as_bytes hex) of Inl e \<Rightarrow> Inl e | Inr b \<Rightarrow> decode_32 b))))"

section \<open>Health\<close>

record NodeHealth =
  nh_node_id :: string
  nh_state :: RaftState
  nh_term :: Term
  nh_last_heartbeat :: u64
  nh_log_index :: u64
  nh_uptime_secs :: u64

record ClusterHealth =
  ch_nodes :: "NodeHealth list"
  ch_leader_id :: "string option"
  ch_healthy :: bool
  ch_quorum_met :: bool

definition quorum_met :: "nat \<Rightarrow> nat \<Rightarrow> bool" where
  "quorum_met reachable cluster_size = (if cluster_size = 0 then False else reachable > cluster_size div 2)"

definition check_node :: "('s RaftNode \<Rightarrow> u64) \<Rightarrow> 's RaftNode \<Rightarrow> NodeHealth" where
  "check_node uptime nd = \<lparr>nh_node_id = rn_id nd, nh_state = rn_state nd, nh_term = current_term nd,
     nh_last_heartbeat = last_heartbeat_ms nd, nh_log_index = last_index (rlog nd), nh_uptime_secs = uptime nd\<rparr>"

text \<open>\<open>max_by_key\<close> yields the last of the greatest.\<close>

definition last_max_term :: "NodeHealth list \<Rightarrow> NodeHealth option" where
  "last_max_term hs = fold (\<lambda>h best. case best of
     None \<Rightarrow> Some h
   | Some b \<Rightarrow> if nh_term h < nh_term b then Some b else Some h) hs None"

definition check_cluster_with_total :: "('s RaftNode \<Rightarrow> u64) \<Rightarrow> 's RaftNode list \<Rightarrow> nat \<Rightarrow> ClusterHealth" where
  "check_cluster_with_total uptime nodes total_size =
     (let cluster_size = max total_size (length nodes);
          healths = map (check_node uptime) nodes;
          leaders = filter (\<lambda>h. nh_state h = Leader) healths;
          leader_terms = map nh_term leaders;
          canonical = last_max_term leaders;
          same_term_count = (case canonical of Some h \<Rightarrow> length (filter (\<lambda>x. x = nh_term h) leader_terms) | None \<Rightarrow> 0);
          leader_id = (case canonical of Some h \<Rightarrow> if same_term_count = 1 then Some (nh_node_id h) else None | None \<Rightarrow> None);
          met = quorum_met (length nodes) cluster_size
      in \<lparr>ch_nodes = healths, ch_leader_id = leader_id, ch_healthy = (leader_id \<noteq> None \<and> met), ch_quorum_met = met\<rparr>)"

definition check_cluster :: "('s RaftNode \<Rightarrow> u64) \<Rightarrow> 's RaftNode list \<Rightarrow> ClusterHealth" where
  "check_cluster uptime nodes = check_cluster_with_total uptime nodes (length nodes)"

fun adjacent_equal :: "'a list \<Rightarrow> bool" where
  "adjacent_equal (a # b # rest) \<longleftrightarrow> a = b \<or> adjacent_equal (b # rest)"
| "adjacent_equal _ \<longleftrightarrow> False"

definition is_split_brain :: "'s RaftNode list \<Rightarrow> bool" where
  "is_split_brain nodes =
     (let terms = map current_term (filter (\<lambda>nd. rn_state nd = Leader) nodes) in
      if length terms < 2 then False else adjacent_equal (sort terms))"

section \<open>Lemmas\<close>

lemma validate_peers_iff:
  "validate_peers node_id ids_seen ps = Inr () \<longleftrightarrow>
    distinct (map pr_node_id ps) \<and> set (map pr_node_id ps) \<inter> insert [] (insert node_id ids_seen) = {} \<and>
    list_all (\<lambda>p. CHR '':'' \<in> set (pr_addr p)) ps"
  by (induction node_id ids_seen ps rule: validate_peers.induct) auto

lemma decode_hex_pairs_length: "decode_hex_pairs s = Inr b \<Longrightarrow> length b = length s div 2"
  by (induction s arbitrary: b rule: decode_hex_pairs.induct) (auto split: sum.splits simp: map_sum_def)

text \<open>A node that starts authenticated has a key of 32 bytes, whatever source it comes from.\<close>

lemma decoded_secret_length: "decoded_cluster_secret files env c = Inr (Some key) \<Longrightarrow> length key = 32"
  by (auto simp: decoded_cluster_secret_def decode_32_def split: option.splits sum.splits if_splits)

lemma skew_check_wraps:
  assumes "cluster_config_validate c = Inr ()" and "s \<noteq> 0" and "s * 2 = 0"
  shows "cluster_config_validate (c\<lparr>cc_max_future_skew_ms := s\<rparr>) = Inr ()"
proof -
  have "validate_secrets (c\<lparr>cc_max_future_skew_ms := s\<rparr>) = validate_secrets c"
    by (simp add: validate_secrets_def has_any_cluster_secret_def)
  then show ?thesis using assms by (auto simp: cluster_config_validate_def split: if_splits sum.splits)
qed

text \<open>
  Twice the skew is computed in 64 bits.  A skew of \<open>2^63\<close> doubles to zero and passes the check that is to
  keep it below half the message age, and with it every message dated in the future counts as fresh.
\<close>

theorem skew_check_overflows:
  assumes "cluster_config_validate c = Inr ()"
  shows "cluster_config_validate (c\<lparr>cc_max_future_skew_ms := 2 ^ 63\<rparr>) = Inr ()"
    and "now < timestamp \<Longrightarrow> timestamp - now \<le> 2 ^ 63 \<Longrightarrow> check_message_freshness now timestamp max_age (2 ^ 63)"
  using skew_check_wraps [OF assms, of "2 ^ 63"] by (simp_all add: check_message_freshness_def not_le [symmetric])

text \<open>The defaults alone are refused: there is neither an identifier nor a secret.\<close>

theorem default_config_refused:
  "cluster_config_validate cluster_config_default = Inl NodeIdEmpty"
  "cluster_config_validate (cluster_config_default\<lparr>cc_node_id := ''n1''\<rparr>) = Inl NoSecret"
  by (simp_all add: cluster_config_validate_def cluster_config_default_def validate_secrets_def has_any_cluster_secret_def)

lemma adjacent_equal_sorted: "sorted xs \<Longrightarrow> adjacent_equal xs \<longleftrightarrow> \<not> distinct xs"
proof (induction xs rule: adjacent_equal.induct)
  case (1 a b rest)
  then show ?case by (auto dest: order_antisym)
qed simp_all

lemma split_brain_iff: "is_split_brain nodes \<longleftrightarrow> \<not> distinct (map current_term (filter (\<lambda>nd. rn_state nd = Leader) nodes))"
proof -
  let ?ts = "map current_term (filter (\<lambda>nd. rn_state nd = Leader) nodes)"
  have "distinct xs" if "length xs < 2" for xs :: "Term list" using that by (cases xs; cases "tl xs") auto
  then have "length ?ts < 2 \<Longrightarrow> distinct ?ts" by blast
  then show ?thesis by (auto simp: is_split_brain_def Let_def adjacent_equal_sorted)
qed

lemma last_max_term_spec:
  "(last_max_term hs = None \<longleftrightarrow> hs = []) \<and>
   (\<forall>h. last_max_term hs = Some h \<longrightarrow> h \<in> set hs \<and> (\<forall>x \<in> set hs. nh_term x \<le> nh_term h))"
proof (induction hs rule: rev_induct)
  case (snoc x hs)
  have "last_max_term (hs @ [x]) = (case last_max_term hs of None \<Rightarrow> Some x | Some b \<Rightarrow> if nh_term x < nh_term b then Some b else Some x)"
    by (simp add: last_max_term_def)
  with snoc show ?case by (auto split: option.splits if_splits)
qed (simp add: last_max_term_def)

text \<open>
  A cluster is reported healthy only with a majority at hand and one leader in the highest
  term in which there is one, and that leader is the one reported.
\<close>

lemma healthy_unique_leader:
  assumes "ch_healthy (check_cluster_with_total uptime nodes total_size)"
  shows "2 * length nodes > max total_size (length nodes) \<and>
    (\<exists>nd \<in> set nodes. rn_state nd = Leader \<and> ch_leader_id (check_cluster_with_total uptime nodes total_size) = Some (rn_id nd) \<and>
      (\<forall>x \<in> set nodes. rn_state x = Leader \<longrightarrow> current_term x \<le> current_term nd) \<and>
      length (filter (\<lambda>x. rn_state x = Leader \<and> current_term x = current_term nd) nodes) = 1)"
proof -
  let ?hs = "filter (\<lambda>h. nh_state h = Leader) (map (check_node uptime) nodes)"
  obtain h where h: "last_max_term ?hs = Some h" "length (filter (\<lambda>x. x = nh_term h) (map nh_term ?hs)) = 1"
      "ch_leader_id (check_cluster_with_total uptime nodes total_size) = Some (nh_node_id h)"
      "quorum_met (length nodes) (max total_size (length nodes))"
    using assms by (auto simp: check_cluster_with_total_def Let_def split: option.splits if_splits)
  from last_max_term_spec [of ?hs] h(1) obtain nd where nd: "nd \<in> set nodes" "h = check_node uptime nd" "rn_state nd = Leader"
      "\<forall>x \<in> set nodes. rn_state x = Leader \<longrightarrow> current_term x \<le> current_term nd"
    by (fastforce simp: check_node_def)
  have "length (filter (\<lambda>x. rn_state x = Leader \<and> current_term x = current_term nd) nodes) = 1"
    using h(2) nd(2) by (simp add: filter_map comp_def check_node_def conj_commute)
  moreover have "2 * length nodes > max total_size (length nodes)" using h(4) by (auto simp: quorum_met_def split: if_splits)
  ultimately show ?thesis using nd h(3) by (auto simp: check_node_def)
qed

end
