(* ===== verification/File_Storage.thy ===== *)
theory File_Storage
  imports Raft_Storage Rust_Strings
begin

text \<open>
  \<open>FileStorage\<close> of \<open>craton-hsm-cluster/src/storage.rs\<close>: hard state, log, offset index and
  authenticated snapshot as files of one directory.  A file is its bytes, \<open>None\<close> when there
  is none; replacing a file by renaming is atomic.  The JSON codec and HMAC-SHA-256 are parameters.  Of the
  file operations the ones on the offset index can fail, since the code tolerates that.
\<close>

section \<open>Constants and state\<close>

definition MAX_LOG_ENTRY_BYTES :: nat where
  "MAX_LOG_ENTRY_BYTES = 16 * 1024 * 1024"

definition MAX_SNAPSHOT_BYTES :: nat where
  "MAX_SNAPSHOT_BYTES = 1024 * 1024 * 1024"

definition LOG_INDEX_RECORD_LEN :: nat where
  "LOG_INDEX_RECORD_LEN = 24"

definition SNAPSHOT_MAGIC :: bytes where
  "SNAPSHOT_MAGIC = as_bytes ''CRATON-SNAP-v1'' @ [0, 0]"

definition SNAPSHOT_FOOTER_LEN :: nat where
  "SNAPSHOT_FOOTER_LEN = 16 + 8 + 8 + 8 + 32"

definition SNAPSHOT_DOMAIN_TAG :: bytes where
  "SNAPSHOT_DOMAIN_TAG = as_bytes ''snapshot-v1''"

text \<open>The functions of \<open>serde_json\<close>, \<open>hmac\<close> and \<open>subtle\<close>.\<close>

record StorageEnv =
  hs_to_vec :: "HardState \<Rightarrow> bytes option"
  hs_from_slice :: "bytes \<Rightarrow> HardState option"
  le_to_string :: "LogEntry \<Rightarrow> bytes option"
  le_from_str :: "bytes \<Rightarrow> LogEntry option"
  log_from_slice :: "bytes \<Rightarrow> LogEntry list option"
  ps_to_vec :: "PersistedSnapshot \<Rightarrow> bytes option"
  ps_from_slice :: "bytes \<Rightarrow> PersistedSnapshot option"
  fs_hmac :: "bytes \<Rightarrow> bytes \<Rightarrow> bytes"
  fs_ct_eq :: "bytes \<Rightarrow> bytes \<Rightarrow> bool"

record FileStorage =
  hard_file :: "bytes option"
  log_file :: "bytes option"
  idx_file :: "bytes option"
  snap_file :: "bytes option"
  legacy_file :: "bytes option"
  snapshot_key :: "bytes option"
  insecure_allowed :: bool

definition derive_snapshot_key :: "StorageEnv \<Rightarrow> bytes \<Rightarrow> bytes" where
  "derive_snapshot_key env cluster_secret = fs_hmac env cluster_secret SNAPSHOT_DOMAIN_TAG"

definition compute_snapshot_tag :: "StorageEnv \<Rightarrow> bytes \<Rightarrow> bytes \<Rightarrow> u64 \<Rightarrow> u64 \<Rightarrow> bytes" where
  "compute_snapshot_tag env key payload index trm =
     fs_hmac env key (SNAPSHOT_MAGIC @ u64_le (word_of_nat (length payload)) @ u64_le index @ u64_le trm @ payload)"

definition with_cluster_secret :: "StorageEnv \<Rightarrow> bytes \<Rightarrow> FileStorage \<Rightarrow> FileStorage" where
  "with_cluster_secret env secret s = s\<lparr>snapshot_key := Some (derive_snapshot_key env secret)\<rparr>"

definition fs_allow_insecure :: "bool \<Rightarrow> FileStorage \<Rightarrow> FileStorage" where
  "fs_allow_insecure yes s = s\<lparr>insecure_allowed := yes\<rparr>"

section \<open>The log file and its index\<close>

fun parse_log_lines :: "StorageEnv \<Rightarrow> bytes list \<Rightarrow> StorageError + LogEntry list" where
  "parse_log_lines env [] = Inr []"
| "parse_log_lines env (line # lines) =
     (if line = [] then parse_log_lines env lines
      else if length line > MAX_LOG_ENTRY_BYTES then Inl Codec
      else case le_from_str env line of
        None \<Rightarrow> Inl Codec
      | Some entry \<Rightarrow> map_sum id (\<lambda>es. entry # es) (parse_log_lines env lines))"

definition read_log :: "StorageEnv \<Rightarrow> bytes \<Rightarrow> StorageError + LogEntry list" where
  "read_log env content = (if \<not> utf8_valid content then Inl Io else parse_log_lines env (split_lines content))"

definition idx_record :: "LogEntry \<Rightarrow> nat \<Rightarrow> bytes" where
  "idx_record entry offset = u64_le (le_index entry) @ u64_le (le_term entry) @ u64_le (word_of_nat offset)"

definition fs_load_log :: "StorageEnv \<Rightarrow> FileStorage \<Rightarrow> StorageError + LogEntry list" where
  "fs_load_log env s = (case log_file s of None \<Rightarrow> Inr [] | Some content \<Rightarrow> read_log env content)"

text \<open>
  The loop of \<open>append_log\<close>: the contents of the log file, the index records so far, and the
  error that ended it, if any.  What was written before an error stays in the file.
\<close>

fun append_lines :: "StorageEnv \<Rightarrow> bytes \<Rightarrow> bytes \<Rightarrow> LogEntry list \<Rightarrow> bytes \<times> bytes \<times> StorageError option" where
  "append_lines env log recs [] = (log, recs, None)"
| "append_lines env log recs (entry # es) =
     (case le_to_string env entry of
        None \<Rightarrow> (log, recs, Some Codec)
      | Some line \<Rightarrow>
          if length line > MAX_LOG_ENTRY_BYTES then (log, recs, Some Codec)
          else append_lines env (log @ line @ [10]) (recs @ idx_record entry (length log)) es)"

text \<open>How the index file behaves: it can be written, it cannot be opened, or writing to it fails.\<close>

datatype IdxIo = IdxWritten | IdxUnavailable | IdxFails

definition contents :: "bytes option \<Rightarrow> bytes" where
  "contents f = (case f of Some b \<Rightarrow> b | None \<Rightarrow> [])"

definition fs_append_log :: "StorageEnv \<Rightarrow> IdxIo \<Rightarrow> FileStorage \<Rightarrow> LogEntry list \<Rightarrow> FileStorage \<times> StorageError option" where
  "fs_append_log env io s es =
     (if es = [] then (s, None)
      else
        let (log, recs, err) = append_lines env (contents (log_file s)) [] es;
            s1 = s\<lparr>log_file := Some log\<rparr>;
            s2 = (if io = IdxUnavailable then s1 else s1\<lparr>idx_file := Some (contents (idx_file s))\<rparr>)
        in case err of
             Some e \<Rightarrow> (s2, Some e)
           | None \<Rightarrow>
               (case io of
                  IdxWritten \<Rightarrow> (s2\<lparr>idx_file := Some (contents (idx_file s) @ recs)\<rparr>, None)
                | IdxUnavailable \<Rightarrow> (s2, None)
                | IdxFails \<Rightarrow> (s2, Some Io)))"

definition record_index :: "bytes \<Rightarrow> u64" where
  "record_index r = from_le_bytes (take 8 r)"

definition record_offset :: "bytes \<Rightarrow> u64" where
  "record_offset r = from_le_bytes (take 8 (drop 16 r))"

text \<open>The loop of \<open>lookup_truncate_offsets\<close> from record \<open>i\<close> on.\<close>

function find_cut :: "u64 \<Rightarrow> nat \<Rightarrow> bytes \<Rightarrow> (nat \<times> nat) option" where
  "find_cut after i idx =
     (if length idx < LOG_INDEX_RECORD_LEN then None
      else if record_index idx > after then Some (unat (record_offset idx), i * LOG_INDEX_RECORD_LEN)
      else find_cut after (i + 1) (drop LOG_INDEX_RECORD_LEN idx))"
  by pat_completeness auto
termination
  by (relation "measure (\<lambda>(_, _, idx). length idx)") (auto simp: LOG_INDEX_RECORD_LEN_def)

declare find_cut.simps [simp del]

definition lookup_truncate_offsets :: "bytes option \<Rightarrow> bytes option \<Rightarrow> u64 \<Rightarrow> (nat \<times> nat) option" where
  "lookup_truncate_offsets log idx after =
     (case idx of
        None \<Rightarrow> None
      | Some idx_bytes \<Rightarrow>
          if idx_bytes = [] \<or> length idx_bytes mod LOG_INDEX_RECORD_LEN \<noteq> 0 then None
          else
            case log of
              None \<Rightarrow> None
            | Some log_bytes \<Rightarrow>
                let last_offset = unat (record_offset (drop (length idx_bytes - LOG_INDEX_RECORD_LEN) idx_bytes)) in
                if last_offset \<ge> length log_bytes then None
                else (case find_cut after 0 idx_bytes of
                        Some r \<Rightarrow> Some r
                      | None \<Rightarrow> Some (length log_bytes, length idx_bytes)))"

fun rewrite_log :: "StorageEnv \<Rightarrow> bytes \<Rightarrow> bytes \<Rightarrow> LogEntry list \<Rightarrow> StorageError + bytes \<times> bytes" where
  "rewrite_log env buf idx_buf [] = Inr (buf, idx_buf)"
| "rewrite_log env buf idx_buf (entry # es) =
     (case le_to_string env entry of
        None \<Rightarrow> Inl Codec
      | Some line \<Rightarrow> rewrite_log env (buf @ line @ [10]) (idx_buf @ idx_record entry (length buf)) es)"

text \<open>
  \<open>set_len\<close> cuts a file, or extends it with zero bytes.
\<close>

definition set_len :: "nat \<Rightarrow> bytes \<Rightarrow> bytes" where
  "set_len n f = take n f @ replicate (n - length f) 0"

definition fs_truncate_log_after :: "StorageEnv \<Rightarrow> FileStorage \<Rightarrow> u64 \<Rightarrow> FileStorage \<times> StorageError option" where
  "fs_truncate_log_after env s after =
     (case log_file s of
        None \<Rightarrow> (s, None)
      | Some log \<Rightarrow>
          (case lookup_truncate_offsets (log_file s) (idx_file s) after of
             Some (log_cut, idx_cut) \<Rightarrow>
               (s\<lparr>log_file := Some (set_len log_cut log), idx_file := map_option (set_len idx_cut) (idx_file s)\<rparr>, None)
           | None \<Rightarrow>
               (case read_log env log of
                  Inl e \<Rightarrow> (s, Some e)
                | Inr entries \<Rightarrow>
                    (case rewrite_log env [] [] (filter (\<lambda>e. le_index e \<le> after) entries) of
                       Inl e \<Rightarrow> (s, Some e)
                     | Inr (buf, idx_buf) \<Rightarrow> (s\<lparr>log_file := Some buf, idx_file := Some idx_buf\<rparr>, None)))))"

section \<open>Opening\<close>

definition count_log_entries :: "bytes \<Rightarrow> StorageError + nat" where
  "count_log_entries log =
     (let lines = split_lines log in
      if list_all utf8_valid lines then Inr (length (filter (\<lambda>l. l \<noteq> []) lines)) else Inl Io)"

fun scan_log :: "StorageEnv \<Rightarrow> nat \<Rightarrow> bytes list \<Rightarrow> StorageError + bytes" where
  "scan_log env offset [] = Inr []"
| "scan_log env offset (line # lines) =
     (if line = [] then scan_log env (offset + 1) lines
      else if length line > MAX_LOG_ENTRY_BYTES then Inl Codec
      else case le_from_str env line of
        None \<Rightarrow> Inl Codec
      | Some entry \<Rightarrow> map_sum id (\<lambda>recs. idx_record entry offset @ recs) (scan_log env (offset + length line + 1) lines))"

definition reconcile_log_index :: "StorageEnv \<Rightarrow> FileStorage \<Rightarrow> StorageError + FileStorage" where
  "reconcile_log_index env s =
     (case log_file s of
        None \<Rightarrow> Inr s
      | Some log \<Rightarrow>
          let idx_ok = (case idx_file s of
                None \<Rightarrow> False
              | Some idx \<Rightarrow>
                  if idx = [] \<or> length idx mod LOG_INDEX_RECORD_LEN \<noteq> 0 then False
                  else unat (record_offset (drop (length idx - LOG_INDEX_RECORD_LEN) idx)) < length log)
          in (case count_log_entries log of
                Inl e \<Rightarrow> Inl e
              | Inr n \<Rightarrow>
                  if idx_ok \<and> length (contents (idx_file s)) div LOG_INDEX_RECORD_LEN = n then Inr s
                  else (case scan_log env 0 (split_lines log) of
                          Inl e \<Rightarrow> Inl e
                        | Inr idx \<Rightarrow> Inr (s\<lparr>idx_file := Some idx\<rparr>))))"

definition migrate_legacy_log :: "StorageEnv \<Rightarrow> FileStorage \<Rightarrow> StorageError + FileStorage" where
  "migrate_legacy_log env s =
     (case legacy_file s of
        None \<Rightarrow> Inr s
      | Some legacy \<Rightarrow>
          if log_file s \<noteq> None then Inr s
          else (case log_from_slice env legacy of
                  None \<Rightarrow> Inl Codec
                | Some entries \<Rightarrow>
                    (case rewrite_log env [] [] entries of
                       Inl e \<Rightarrow> Inl e
                     | Inr (buf, _) \<Rightarrow> Inr (s\<lparr>log_file := Some buf, legacy_file := None\<rparr>))))"

text \<open>
  Opening a directory, whatever the key and the mode were before.  The files after an opening that
  failed are not part of the result.
\<close>

definition fs_open :: "StorageEnv \<Rightarrow> FileStorage \<Rightarrow> StorageError + FileStorage" where
  "fs_open env dir =
     (case migrate_legacy_log env (dir\<lparr>snapshot_key := None, insecure_allowed := False\<rparr>) of
        Inl e \<Rightarrow> Inl e
      | Inr s \<Rightarrow> reconcile_log_index env s)"

section \<open>Hard state and snapshot\<close>

definition fs_load_hard_state :: "StorageEnv \<Rightarrow> FileStorage \<Rightarrow> StorageError + HardState" where
  "fs_load_hard_state env s =
     (case hard_file s of
        None \<Rightarrow> Inr hard_state_default
      | Some b \<Rightarrow> (case hs_from_slice env b of None \<Rightarrow> Inl Codec | Some h \<Rightarrow> Inr h))"

definition fs_save_hard_state :: "StorageEnv \<Rightarrow> FileStorage \<Rightarrow> HardState \<Rightarrow> FileStorage \<times> StorageError option" where
  "fs_save_hard_state env s h =
     (case hs_to_vec env h of None \<Rightarrow> (s, Some Codec) | Some b \<Rightarrow> (s\<lparr>hard_file := Some b\<rparr>, None))"

definition fs_save_snapshot :: "StorageEnv \<Rightarrow> FileStorage \<Rightarrow> PersistedSnapshot \<Rightarrow> FileStorage \<times> StorageError option" where
  "fs_save_snapshot env s snapshot =
     (case ps_to_vec env snapshot of
        None \<Rightarrow> (s, Some Codec)
      | Some payload \<Rightarrow>
          if length payload + SNAPSHOT_FOOTER_LEN > MAX_SNAPSHOT_BYTES then (s, Some Codec)
          else
            let index = ps_last_index snapshot; trm = ps_last_term snapshot;
                tag = (case snapshot_key s of
                    Some k \<Rightarrow> Some (compute_snapshot_tag env k payload index trm)
                  | None \<Rightarrow> if insecure_allowed s then Some (replicate 32 0) else None)
            in (case tag of
                  None \<Rightarrow> (s, Some SnapshotIntegrityFailure)
                | Some t \<Rightarrow>
                    (s\<lparr>snap_file := Some (payload @ SNAPSHOT_MAGIC @ u64_le (word_of_nat (length payload)) @
                        u64_le index @ u64_le trm @ t)\<rparr>, None)))"

definition fs_load_snapshot :: "StorageEnv \<Rightarrow> FileStorage \<Rightarrow> StorageError + PersistedSnapshot option" where
  "fs_load_snapshot env s =
     (case snap_file s of
        None \<Rightarrow> Inr None
      | Some b \<Rightarrow>
          if length b > MAX_SNAPSHOT_BYTES then Inl Codec
          else if length b < SNAPSHOT_FOOTER_LEN then Inl SnapshotIntegrityFailure
          else
            let footer_start = length b - SNAPSHOT_FOOTER_LEN;
                footer = drop footer_start b;
                payload = take footer_start b;
                decl_len = from_le_bytes (take 8 (drop 16 footer)) :: u64;
                decl_index = from_le_bytes (take 8 (drop 24 footer)) :: u64;
                decl_term = from_le_bytes (take 8 (drop 32 footer)) :: u64;
                file_tag = drop 40 footer
            in if take 16 footer \<noteq> SNAPSHOT_MAGIC then Inl SnapshotIntegrityFailure
               else if unat decl_len \<noteq> length payload then Inl SnapshotIntegrityFailure
               else if \<not> (case snapshot_key s of
                         Some k \<Rightarrow> fs_ct_eq env (compute_snapshot_tag env k payload decl_index decl_term) file_tag
                       | None \<Rightarrow> insecure_allowed s \<and> list_all (\<lambda>x. x = 0) file_tag) then Inl SnapshotIntegrityFailure
               else (case ps_from_slice env payload of
                       None \<Rightarrow> Inl Codec
                     | Some snap \<Rightarrow>
                         if ps_last_index snap \<noteq> decl_index \<or> ps_last_term snap \<noteq> decl_term then Inl SnapshotIntegrityFailure
                         else Inr (Some snap)))"

text \<open>Flushing changes nothing that a later read can see.\<close>

definition fs_sync_all_committed_state :: "FileStorage \<Rightarrow> FileStorage \<times> StorageError option" where
  "fs_sync_all_committed_state s = (s, None)"

definition file_storage :: "StorageEnv \<Rightarrow> FileStorage RaftStorage" where
  "file_storage env =
     \<lparr>load_hard_state = fs_load_hard_state env,
      save_hard_state = fs_save_hard_state env,
      load_log = fs_load_log env,
      append_log = fs_append_log env IdxWritten,
      truncate_log_after = fs_truncate_log_after env,
      save_snapshot = fs_save_snapshot env,
      load_snapshot = fs_load_snapshot env,
      sync_all_committed_state = fs_sync_all_committed_state\<rparr>"

section \<open>What the files stand for\<close>

text \<open>
  The documented behaviour of the libraries: what was serialised is read back, a serialised entry is
  one line of text, a tag has 32 bytes and comparison decides equality.
\<close>

definition env_ok :: "StorageEnv \<Rightarrow> bool" where
  "env_ok env \<longleftrightarrow>
     (\<forall>h b. hs_to_vec env h = Some b \<longrightarrow> hs_from_slice env b = Some h) \<and>
     (\<forall>p b. ps_to_vec env p = Some b \<longrightarrow> ps_from_slice env b = Some p) \<and>
     (\<forall>e j. le_to_string env e = Some j \<longrightarrow>
        le_from_str env j = Some e \<and> j \<noteq> [] \<and> 10 \<notin> set j \<and> 13 \<notin> set j \<and> utf8_valid j) \<and>
     (\<forall>k m. length (fs_hmac env k m) = 32) \<and> fs_ct_eq env = (=)"

definition line_of :: "StorageEnv \<Rightarrow> LogEntry \<Rightarrow> bytes" where
  "line_of env e = (case le_to_string env e of Some j \<Rightarrow> j | None \<Rightarrow> [])"

definition storable :: "StorageEnv \<Rightarrow> LogEntry \<Rightarrow> bool" where
  "storable env e \<longleftrightarrow> le_to_string env e \<noteq> None \<and> length (line_of env e) \<le> MAX_LOG_ENTRY_BYTES"

definition log_bytes :: "StorageEnv \<Rightarrow> LogEntry list \<Rightarrow> bytes" where
  "log_bytes env es = concat (map (\<lambda>e. line_of env e @ [10]) es)"

fun index_bytes :: "StorageEnv \<Rightarrow> nat \<Rightarrow> LogEntry list \<Rightarrow> bytes" where
  "index_bytes env offset [] = []"
| "index_bytes env offset (e # es) = idx_record e offset @ index_bytes env (offset + length (line_of env e) + 1) es"

lemma log_bytes_simps [simp]:
  "log_bytes env [] = []"
  "log_bytes env (e # es) = line_of env e @ 10 # log_bytes env es"
  "log_bytes env (es @ fs) = log_bytes env es @ log_bytes env fs"
  by (simp_all add: log_bytes_def)

lemma length_idx_record [simp]: "length (idx_record e n) = 24"
  by (simp add: idx_record_def u64_le_def)

lemma length_index_bytes [simp]: "length (index_bytes env n es) = 24 * length es"
  by (induction es arbitrary: n) auto

lemma index_bytes_append: "index_bytes env n (es @ fs) = index_bytes env n es @ index_bytes env (n + length (log_bytes env es)) fs"
  by (induction es arbitrary: n) (auto simp: add.assoc)

lemma line_facts:
  assumes "env_ok env" and "storable env e"
  shows "le_to_string env e = Some (line_of env e)" "le_from_str env (line_of env e) = Some e" "line_of env e \<noteq> []"
    "10 \<notin> set (line_of env e)" "13 \<notin> set (line_of env e)" "utf8_valid (line_of env e)" "length (line_of env e) \<le> MAX_LOG_ENTRY_BYTES"
  using assms by (auto simp: env_ok_def storable_def line_of_def split: option.splits)

text \<open>The first character of a text, apart from what follows it.\<close>

lemmas utf8_step = append.simps utf8_valid.simps(2) list.case if_True if_False conj_assoc

lemma utf8_split:
  assumes "utf8_valid (c @ rest)" and "c \<noteq> []" and "\<And>r. utf8_valid (c @ r) \<longleftrightarrow> ok \<and> utf8_valid r"
  shows "\<exists>c' rest'. c @ rest = c' @ rest' \<and> c' \<noteq> [] \<and> utf8_valid rest' \<and> (\<forall>r. utf8_valid r \<longrightarrow> utf8_valid (c' @ r))"
  using assms by metis

lemma utf8_first:
  assumes "utf8_valid (x # bs)"
  shows "\<exists>c rest. x # bs = c @ rest \<and> c \<noteq> [] \<and> utf8_valid rest \<and> (\<forall>r. utf8_valid r \<longrightarrow> utf8_valid (c @ r))"
proof (cases "x \<le> 0x7F")
  case True
  then show ?thesis using utf8_split [of "[x]" bs True] assms by simp
next
  case one: False
  obtain y cs where bs: "bs = y # cs" using assms one by (cases bs) simp_all
  show ?thesis
  proof (cases "0xC2 \<le> x \<and> x \<le> 0xDF")
    case True
    then show ?thesis using utf8_split [of "[x, y]" cs "cont y"] assms one by (simp add: bs)
  next
    case two: False
    obtain z ds where cs: "cs = z # ds" using assms one two by (cases cs) (simp_all add: bs)
    define three where "three \<longleftrightarrow> x = 0xE0 \<or> x = 0xED \<or> 0xE1 \<le> x \<and> x \<le> 0xEF"
    show ?thesis
    proof (cases three)
      case True
      define ok where "ok \<longleftrightarrow> (if x = 0xE0 then 0xA0 \<le> y \<and> y \<le> 0xBF else if x = 0xED then 0x80 \<le> y \<and> y \<le> 0x9F else cont y) \<and> cont z"
      consider (e0) "(x = 0xE0) = True" | (ed) "(x = 0xE0) = False" "(x = 0xED) = True"
        | (other) "(x = 0xE0) = False" "(x = 0xED) = False" "(0xE1 \<le> x \<and> x \<le> 0xEF) = True"
        using True unfolding three_def by metis
      then have "utf8_valid ([x, y, z] @ r) \<longleftrightarrow> ok \<and> utf8_valid r" for r
        by cases (simp_all only: utf8_step one two ok_def)
      then show ?thesis using utf8_split [of "[x, y, z]" ds ok] assms unfolding bs cs by (simp only: append.simps simp_thms list.simps)
    next
      case False
      then have no3: "x \<noteq> 0xE0" "x \<noteq> 0xED" "\<not> (0xE1 \<le> x \<and> x \<le> 0xEF)" by (simp_all add: three_def)
      obtain w es where ds: "ds = w # es" using assms one two no3 by (cases ds) (simp_all add: bs cs)
      define ok where "ok \<longleftrightarrow> (if x = 0xF0 then 0x90 \<le> y \<and> y \<le> 0xBF else if 0xF1 \<le> x \<and> x \<le> 0xF3 then cont y
          else x = 0xF4 \<and> 0x80 \<le> y \<and> y \<le> 0x8F) \<and> cont z \<and> cont w"
      have "utf8_valid ([x, y, z, w] @ r) \<longleftrightarrow> ok \<and> utf8_valid r" for r
        by (simp only: utf8_step one two no3 ok_def) auto
      then show ?thesis using utf8_split [of "[x, y, z, w]" es ok] assms unfolding bs cs ds by (simp only: append.simps simp_thms list.simps)
    qed
  qed
qed

lemma utf8_valid_append: "utf8_valid a \<Longrightarrow> utf8_valid b \<Longrightarrow> utf8_valid (a @ b)"
proof (induction a rule: length_induct)
  case (1 a)
  show ?case
  proof (cases a)
    case (Cons x bs)
    then obtain c rest where c: "a = c @ rest" "c \<noteq> []" "utf8_valid rest" "\<forall>r. utf8_valid r \<longrightarrow> utf8_valid (c @ r)"
      using utf8_first [of x bs] 1(2) by auto
    then have "utf8_valid (rest @ b)" using 1 by simp
    then show ?thesis using c by simp
  qed (use 1 in simp)
qed

lemma log_bytes_utf8: "env_ok env \<Longrightarrow> list_all (storable env) es \<Longrightarrow> utf8_valid (log_bytes env es)"
proof (induction es)
  case (Cons e es)
  then have "utf8_valid (line_of env e @ [10])" "utf8_valid (log_bytes env es)"
    using utf8_valid_append [OF line_facts(6), of env e "[10]"] by simp_all
  then show ?case using utf8_valid_append [of "line_of env e @ [10]"] by simp
qed simp

lemma split_log_bytes: "env_ok env \<Longrightarrow> list_all (storable env) es \<Longrightarrow> split_lines (log_bytes env es) = map (line_of env) es"
proof (induction es)
  case (Cons e es)
  then have "13 \<notin> set (line_of env e)" "10 \<notin> set (line_of env e)" using line_facts(4,5) by auto
  then have "split_lines (line_of env e @ 10 # log_bytes env es) = line_of env e # split_lines (log_bytes env es)"
    by (intro split_lines_Cons) (auto dest: last_in_set)
  with Cons show ?case by simp
qed simp

lemma parse_log_bytes: "env_ok env \<Longrightarrow> list_all (storable env) es \<Longrightarrow> parse_log_lines env (map (line_of env) es) = Inr es"
  by (induction es) (auto simp: line_facts not_less)

lemma read_log_bytes: "env_ok env \<Longrightarrow> list_all (storable env) es \<Longrightarrow> read_log env (log_bytes env es) = Inr es"
  by (simp add: read_log_def log_bytes_utf8 split_log_bytes parse_log_bytes)

lemma append_lines_storable:
  "env_ok env \<Longrightarrow> list_all (storable env) es \<Longrightarrow>
    append_lines env log recs es = (log @ log_bytes env es, recs @ index_bytes env (length log) es, None)"
  by (induction es arbitrary: log recs) (simp_all add: line_facts not_less)

lemma rewrite_log_storable:
  "env_ok env \<Longrightarrow> list_all (storable env) es \<Longrightarrow>
    rewrite_log env buf idx es = Inr (buf @ log_bytes env es, idx @ index_bytes env (length buf) es)"
  by (induction es arbitrary: buf idx) (simp_all add: line_facts)

lemma scan_log_storable:
  "env_ok env \<Longrightarrow> list_all (storable env) es \<Longrightarrow> scan_log env n (map (line_of env) es) = Inr (index_bytes env n es)"
  by (induction es arbitrary: n) (auto simp: line_facts not_less)

lemma count_log_bytes:
  assumes "env_ok env" and "list_all (storable env) es"
  shows "count_log_entries (log_bytes env es) = Inr (length es)"
proof -
  have "list_all utf8_valid (map (line_of env) es)" "filter (\<lambda>l. l \<noteq> []) (map (line_of env) es) = map (line_of env) es"
    using assms line_facts by (auto simp: list_all_iff filter_id_conv)
  then show ?thesis using split_log_bytes [OF assms] by (simp add: count_log_entries_def Let_def)
qed

text \<open>Index records read back.\<close>

lemma record_fields:
  "record_index (idx_record e n @ rest) = le_index e"
  "n < 2 ^ 64 \<Longrightarrow> unat (record_offset (idx_record e n @ rest)) = n"
  by (simp_all add: record_index_def record_offset_def idx_record_def u64_le_def from_le_bytes_le_bytes take_bit_word_all
      unsigned_of_nat take_bit_nat_eq_self)

section \<open>Cutting and reopening\<close>

lemma filter_sorted_takeWhile:
  "sorted (map f xs) \<Longrightarrow> filter (\<lambda>x. f x \<le> (a :: u64)) xs = takeWhile (\<lambda>x. f x \<le> a) xs"
proof (induction xs)
  case (Cons x xs)
  then show ?case
  proof (cases "f x \<le> a")
    case False
    then show ?thesis using Cons.prems by (auto simp: filter_empty_conv)
  qed simp
qed simp

lemma find_cut_index:
  assumes "n + length (log_bytes env es) < 2 ^ 64"
  shows "find_cut after i (index_bytes env n es) =
     (if \<forall>e\<in>set es. le_index e \<le> after then None
      else let kept = takeWhile (\<lambda>e. le_index e \<le> after) es
           in Some (n + length (log_bytes env kept), (i + length kept) * LOG_INDEX_RECORD_LEN))"
  using assms
proof (induction es arbitrary: i n)
  case Nil
  then show ?case by (simp add: find_cut.simps LOG_INDEX_RECORD_LEN_def)
next
  case (Cons e es)
  define rest where "rest = index_bytes env (n + length (line_of env e) + 1) es"
  have step: "find_cut after i (idx_record e n @ rest) =
      (if le_index e > after then Some (n, i * LOG_INDEX_RECORD_LEN) else find_cut after (i + 1) rest)"
    using Cons.prems by (subst find_cut.simps) (simp add: LOG_INDEX_RECORD_LEN_def record_fields)
  have "find_cut after (i + 1) rest =
     (if \<forall>e\<in>set es. le_index e \<le> after then None
      else let kept = takeWhile (\<lambda>e. le_index e \<le> after) es
           in Some (n + length (line_of env e) + 1 + length (log_bytes env kept), (i + 1 + length kept) * LOG_INDEX_RECORD_LEN))"
    unfolding rest_def using Cons.prems by (intro Cons.IH) simp
  moreover have "index_bytes env n (e # es) = idx_record e n @ rest" by (simp add: rest_def)
  ultimately show ?case unfolding step by (auto simp: step Let_def not_le)
qed

text \<open>The last record of an index points at the last line.\<close>

lemma last_record:
  assumes "es \<noteq> []" and "length (log_bytes env es) < 2 ^ 64"
  shows "unat (record_offset (drop (length (index_bytes env 0 es) - LOG_INDEX_RECORD_LEN) (index_bytes env 0 es))) =
      length (log_bytes env (butlast es))"
proof -
  obtain fs e where es: "es = fs @ [e]" using assms(1) by (cases es rule: rev_cases) auto
  have "drop (length (index_bytes env 0 es) - LOG_INDEX_RECORD_LEN) (index_bytes env 0 es) =
      idx_record e (length (log_bytes env fs)) @ []"
    by (simp add: es index_bytes_append LOG_INDEX_RECORD_LEN_def)
  then show ?thesis using assms(2) record_fields(2) [of "length (log_bytes env fs)" e "[]"] by (simp add: es)
qed

lemma butlast_log_shorter: "es \<noteq> [] \<Longrightarrow> length (log_bytes env (butlast es)) < length (log_bytes env es)"
  by (cases es rule: rev_cases) auto

lemma lookup_truncate_index:
  assumes "es \<noteq> []" and "length (log_bytes env es) < 2 ^ 64"
  shows "lookup_truncate_offsets (Some (log_bytes env es)) (Some (index_bytes env 0 es)) after =
     (let kept = takeWhile (\<lambda>e. le_index e \<le> after) es
      in Some (length (log_bytes env kept), length kept * LOG_INDEX_RECORD_LEN))"
proof -
  have "index_bytes env 0 es \<noteq> []" "length (index_bytes env 0 es) mod LOG_INDEX_RECORD_LEN = 0"
    using assms(1) length_index_bytes [of env 0 es] by (auto simp: LOG_INDEX_RECORD_LEN_def simp del: length_index_bytes)
  then have fast: "lookup_truncate_offsets (Some (log_bytes env es)) (Some (index_bytes env 0 es)) after =
      (case find_cut after 0 (index_bytes env 0 es) of
         Some r \<Rightarrow> Some r
       | None \<Rightarrow> Some (length (log_bytes env es), length (index_bytes env 0 es)))"
    using last_record [OF assms] iffD2 [OF not_le butlast_log_shorter [OF assms(1), of env]]
    unfolding lookup_truncate_offsets_def Let_def option.case by (simp only: if_False simp_thms)
  have bound: "0 + length (log_bytes env es) < 2 ^ 64" using assms(2) by simp
  show ?thesis
  proof (cases "\<forall>e\<in>set es. le_index e \<le> after")
    case True
    then have all: "takeWhile (\<lambda>e. le_index e \<le> after) es = es" by (simp add: takeWhile_eq_all_conv)
    have none: "find_cut after 0 (index_bytes env 0 es) = None"
      unfolding find_cut_index [OF bound] by (rule if_P [OF True])
    show ?thesis unfolding fast all none by (simp add: LOG_INDEX_RECORD_LEN_def)
  next
    case False
    then have "find_cut after 0 (index_bytes env 0 es) =
        (let kept = takeWhile (\<lambda>e. le_index e \<le> after) es
         in Some (length (log_bytes env kept), length kept * LOG_INDEX_RECORD_LEN))"
      unfolding find_cut_index [OF bound] by (simp only: if_False add_0)
    then show ?thesis unfolding fast by (simp add: Let_def)
  qed
qed

lemma set_len_prefix: "set_len (length a) (a @ b) = a"
  by (simp add: set_len_def)

text \<open>
  The log file holds exactly the entries; when \<open>ix\<close>, the index file holds exactly their records.
\<close>

definition flog_rel :: "StorageEnv \<Rightarrow> bool \<Rightarrow> FileStorage \<Rightarrow> LogEntry list \<Rightarrow> bool" where
  "flog_rel env ix s es \<longleftrightarrow>
     list_all (storable env) es \<and> length (log_bytes env es) < 2 ^ 64 \<and>
     (log_file s = None \<and> idx_file s = None \<and> es = [] \<or>
      log_file s = Some (log_bytes env es) \<and> (ix \<longrightarrow> idx_file s = Some (index_bytes env 0 es)))"

lemma load_log_rel: "env_ok env \<Longrightarrow> flog_rel env ix s es \<Longrightarrow> fs_load_log env s = Inr es"
  by (auto simp: flog_rel_def fs_load_log_def read_log_bytes)

lemma append_log_rel:
  assumes "env_ok env" and "flog_rel env ix s es" and "list_all (storable env) new"
    and "length (log_bytes env (es @ new)) < 2 ^ 64" and "io \<noteq> IdxFails"
  obtains s' where "fs_append_log env io s new = (s', None)" and "flog_rel env (ix \<and> io = IdxWritten) s' (es @ new)"
    and "s' = s\<lparr>log_file := log_file s', idx_file := idx_file s'\<rparr>"
proof (cases "new = []")
  case True
  then show thesis using assms(2) by (intro that [of s]) (auto simp: fs_append_log_def flog_rel_def)
next
  case False
  have old: "contents (log_file s) = log_bytes env es" "ix \<Longrightarrow> contents (idx_file s) = index_bytes env 0 es"
    using assms(2) by (auto simp: flog_rel_def contents_def)
  define s' where "s' = s\<lparr>log_file := Some (log_bytes env (es @ new)), idx_file :=
    (if io = IdxWritten then Some (contents (idx_file s) @ index_bytes env (length (log_bytes env es)) new) else idx_file s)\<rparr>"
  have "fs_append_log env io s new = (s', None)"
    using False assms(1,3,5) by (cases io) (simp_all add: fs_append_log_def old append_lines_storable s'_def)
  moreover have "flog_rel env (ix \<and> io = IdxWritten) s' (es @ new)"
    using assms(2-5) old(2) by (auto simp: flog_rel_def s'_def index_bytes_append)
  ultimately show thesis by (rule that) (simp add: s'_def)
qed

lemma flog_rel_take:
  assumes "flog_rel env ix s es"
  shows "list_all (storable env) (filter P es)"
    "length (log_bytes env (filter P es)) \<le> length (log_bytes env es)"
proof -
  show "list_all (storable env) (filter P es)"
    using assms by (auto simp: flog_rel_def list_all_iff)
  show "length (log_bytes env (filter P es)) \<le> length (log_bytes env es)"
    by (induction es) auto
qed

lemma truncate_log_rel:
  assumes "env_ok env" and rel: "flog_rel env True s es" and order: "sorted (map le_index es)"
  obtains s' where "fs_truncate_log_after env s a = (s', None)" and "flog_rel env True s' (filter (\<lambda>e. le_index e \<le> a) es)"
    and "s' = s\<lparr>log_file := log_file s', idx_file := idx_file s'\<rparr>"
proof (cases "log_file s = None")
  case True
  then have "es = []" using rel by (auto simp: flog_rel_def)
  then show thesis using True rel by (intro that [of s]) (simp_all add: fs_truncate_log_after_def)
next
  case False
  let ?kept = "filter (\<lambda>e. le_index e \<le> a) es"
  define s' where "s' = s\<lparr>log_file := Some (log_bytes env ?kept), idx_file := Some (index_bytes env 0 ?kept)\<rparr>"
  have files: "log_file s = Some (log_bytes env es)" "idx_file s = Some (index_bytes env 0 es)"
    using False rel by (auto simp: flog_rel_def)
  have "fs_truncate_log_after env s a = (s', None)"
  proof (cases "es = []")
    case True
    then have "lookup_truncate_offsets (log_file s) (idx_file s) a = None"
      by (simp add: files lookup_truncate_offsets_def)
    then show ?thesis using True by (simp add: fs_truncate_log_after_def files read_log_def s'_def)
  next
    case False
    have kept: "?kept = takeWhile (\<lambda>e. le_index e \<le> a) es"
      using order by (rule filter_sorted_takeWhile)
    define dropped where "dropped = dropWhile (\<lambda>e. le_index e \<le> a) es"
    have es: "es = ?kept @ dropped" by (simp add: kept dropped_def)
    have "set_len (length (log_bytes env ?kept)) (log_bytes env es) = log_bytes env ?kept"
      by (subst (2) es) (simp add: set_len_prefix)
    moreover have "set_len (length ?kept * LOG_INDEX_RECORD_LEN) (index_bytes env 0 es) = index_bytes env 0 ?kept"
      using set_len_prefix [of "index_bytes env 0 ?kept"]
      by (subst (2) es) (simp add: index_bytes_append LOG_INDEX_RECORD_LEN_def mult.commute)
    moreover have "lookup_truncate_offsets (log_file s) (idx_file s) a =
        Some (length (log_bytes env ?kept), length ?kept * LOG_INDEX_RECORD_LEN)"
      using lookup_truncate_index [OF False, of env a] rel by (simp add: files kept flog_rel_def Let_def)
    ultimately show ?thesis by (simp add: fs_truncate_log_after_def files s'_def)
  qed
  moreover have "flog_rel env True s' ?kept"
    using flog_rel_take [OF rel] rel by (auto simp: flog_rel_def s'_def intro: le_less_trans)
  ultimately show thesis by (rule that) (simp add: s'_def)
qed

text \<open>
  An index a restart may find beside a log \<open>es\<close>: any bytes at all, except a wrong index that has exactly
  one record for each entry.  So the index may be missing, torn, behind the log, ahead of it, or lack
  the records of some entries in the middle.
\<close>

definition stale_index :: "StorageEnv \<Rightarrow> LogEntry list \<Rightarrow> bytes option \<Rightarrow> bool" where
  "stale_index env es idx \<longleftrightarrow> (\<forall>b. idx = Some b \<longrightarrow> length b = 24 * length es \<longrightarrow> b = index_bytes env 0 es)"

text \<open>
  In particular what a crash leaves: the beginning of the index of a log that goes on with further
  entries.  The index trails behind after a crash in \<open>append_log\<close>, and is ahead after one in
  \<open>truncate_log_after\<close>.
\<close>

lemma stale_index_prefix: "stale_index env es (Some (take n (index_bytes env 0 (es @ extra))))"
proof -
  have "take n (index_bytes env 0 (es @ extra)) = index_bytes env 0 es"
    if assms: "length (take n (index_bytes env 0 (es @ extra))) = 24 * length es"
  proof -
    have "take n (index_bytes env 0 (es @ extra)) = take (24 * length es) (take n (index_bytes env 0 (es @ extra)))"
      using assms by (metis order_refl take_all)
    also have "\<dots> = take (24 * length es) (index_bytes env 0 (es @ extra))"
      using assms by (simp add: min_def split: if_splits)
    also have "\<dots> = index_bytes env 0 es" by (simp add: index_bytes_append)
    finally show ?thesis .
  qed
  then show ?thesis by (auto simp: stale_index_def)
qed

lemma reconcile_restores:
  assumes "env_ok env" and "list_all (storable env) es" and "log_file s = Some (log_bytes env es)"
    and "stale_index env es (idx_file s)"
  shows "reconcile_log_index env s = Inr (s\<lparr>idx_file := Some (index_bytes env 0 es)\<rparr>)"
proof -
  note file_facts = assms(3) option.case Let_def count_log_bytes [OF assms(1,2)] split_log_bytes [OF assms(1,2)]
    scan_log_storable [OF assms(1,2)] sum.case contents_def
  show ?thesis
  proof (cases "idx_file s")
    case None
    then show ?thesis by (simp only: reconcile_log_index_def file_facts simp_thms if_False)
  next
    case (Some b)
    have eq: "reconcile_log_index env s =
        (if (if b = [] \<or> length b mod LOG_INDEX_RECORD_LEN \<noteq> 0 then False
             else unat (record_offset (drop (length b - LOG_INDEX_RECORD_LEN) b)) < length (log_bytes env es)) \<and>
            length b div LOG_INDEX_RECORD_LEN = length es
         then Inr s else Inr (s\<lparr>idx_file := Some (index_bytes env 0 es)\<rparr>))"
      by (simp only: reconcile_log_index_def Some file_facts)
    show ?thesis
    proof (cases "length b = 24 * length es")
      case True
      then have "b = index_bytes env 0 es" using assms(4) Some by (simp add: stale_index_def)
      then have "s = s\<lparr>idx_file := Some (index_bytes env 0 es)\<rparr>" using Some by (cases s) simp
      then show ?thesis unfolding eq by (metis (full_types))
    next
      case False
      then have "\<not> (length b mod LOG_INDEX_RECORD_LEN = 0 \<and> length b div LOG_INDEX_RECORD_LEN = length es)"
        using mult_div_mod_eq [of 24 "length b"] by (auto simp: LOG_INDEX_RECORD_LEN_def)
      then show ?thesis unfolding eq by (metis (full_types))
    qed
  qed
qed

text \<open>A directory of an older version: opening it turns the array of entries into the log.\<close>

lemma legacy_log_migrated:
  assumes "env_ok env" and "list_all (storable env) es" and "log_from_slice env b = Some es"
    and "legacy_file d = Some b" and "log_file d = None" and "idx_file d = None"
  shows "\<exists>s. fs_open env d = Inr s \<and> fs_load_log env s = Inr es \<and> legacy_file s = None"
proof -
  define s where "s = d\<lparr>log_file := Some (log_bytes env es), legacy_file := None, snapshot_key := None, insecure_allowed := False\<rparr>"
  have "migrate_legacy_log env (d\<lparr>snapshot_key := None, insecure_allowed := False\<rparr>) = Inr s"
    using assms by (simp add: migrate_legacy_log_def rewrite_log_storable s_def)
  moreover have "reconcile_log_index env s = Inr (s\<lparr>idx_file := Some (index_bytes env 0 es)\<rparr>)"
    using assms by (intro reconcile_restores) (simp_all add: s_def stale_index_def)
  ultimately show ?thesis
    using read_log_bytes [OF assms(1,2)] by (simp add: fs_open_def fs_load_log_def s_def)
qed

section \<open>Snapshots read back\<close>

definition snapshot_bytes :: "StorageEnv \<Rightarrow> bytes \<Rightarrow> bytes \<Rightarrow> PersistedSnapshot \<Rightarrow> bytes" where
  "snapshot_bytes env k payload p =
     payload @ SNAPSHOT_MAGIC @ u64_le (word_of_nat (length payload)) @ u64_le (ps_last_index p) @ u64_le (ps_last_term p) @
     compute_snapshot_tag env k payload (ps_last_index p) (ps_last_term p)"

lemma length_SNAPSHOT_MAGIC [simp]: "length SNAPSHOT_MAGIC = 16"
  by (simp add: SNAPSHOT_MAGIC_def as_bytes_def)

lemma load_saved_snapshot:
  assumes "env_ok env" and "ps_to_vec env p = Some payload" and "length payload + SNAPSHOT_FOOTER_LEN \<le> MAX_SNAPSHOT_BYTES"
    and "snapshot_key s = Some k" and "snap_file s = Some (snapshot_bytes env k payload p)"
  shows "fs_load_snapshot env s = Inr (Some p)"
proof -
  define tag where "tag = compute_snapshot_tag env k payload (ps_last_index p) (ps_last_term p)"
  define footer where "footer = SNAPSHOT_MAGIC @ u64_le (word_of_nat (length payload)) @ u64_le (ps_last_index p) @
     u64_le (ps_last_term p) @ tag"
  have env: "length tag = 32" "fs_ct_eq env = (=)" "ps_from_slice env payload = Some p"
    using assms(1,2) by (auto simp: env_ok_def compute_snapshot_tag_def tag_def)
  have small: "unat (word_of_nat (length payload) :: u64) = length payload"
    using assms(3) by (simp add: MAX_SNAPSHOT_BYTES_def SNAPSHOT_FOOTER_LEN_def unsigned_of_nat take_bit_nat_eq_self)
  have stored: "snap_file s = Some (payload @ footer)" and len: "length footer = SNAPSHOT_FOOTER_LEN"
    using assms(5) env(1) by (simp_all add: snapshot_bytes_def footer_def tag_def SNAPSHOT_FOOTER_LEN_def)
  have fields: "take 16 footer = SNAPSHOT_MAGIC" "take 8 (drop 16 footer) = u64_le (word_of_nat (length payload))"
    "take 8 (drop 24 footer) = u64_le (ps_last_index p)" "take 8 (drop 32 footer) = u64_le (ps_last_term p)" "drop 40 footer = tag"
    using env(1) by (simp_all add: footer_def)
  have parts: "length (payload @ footer) - SNAPSHOT_FOOTER_LEN = length payload" "take (length payload) (payload @ footer) = payload"
    "drop (length payload) (payload @ footer) = footer" "\<not> length (payload @ footer) > MAX_SNAPSHOT_BYTES"
    "\<not> length (payload @ footer) < SNAPSHOT_FOOTER_LEN"
    using assms(3) len by simp_all
  show ?thesis
    by (simp only: fs_load_snapshot_def stored option.case Let_def parts fields from_le_u64_le small env assms(4)
        tag_def [symmetric] simp_thms if_False)
qed

section \<open>Refinement\<close>

text \<open>The calls that change a storage, over any implementation of the trait.\<close>

datatype StorageOp =
    SaveHard HardState
  | AppendLog "LogEntry list"
  | TruncateAfter u64
  | SaveSnapshot PersistedSnapshot
  | SyncAll

fun storage_op :: "'s RaftStorage \<Rightarrow> 's \<Rightarrow> StorageOp \<Rightarrow> 's \<times> StorageError option" where
  "storage_op ops s (SaveHard h) = save_hard_state ops s h"
| "storage_op ops s (AppendLog es) = append_log ops s es"
| "storage_op ops s (TruncateAfter a) = truncate_log_after ops s a"
| "storage_op ops s (SaveSnapshot p) = save_snapshot ops s p"
| "storage_op ops s SyncAll = sync_all_committed_state ops s"

text \<open>
  A call that the files can take: its data can be serialised within the limits, and the log is cut
  only while its index is complete (\<open>ix\<close>) and its entries are in the order of their indices.
\<close>

fun op_fits :: "StorageEnv \<Rightarrow> bool \<Rightarrow> InMemoryStorage \<Rightarrow> StorageOp \<Rightarrow> bool" where
  "op_fits env ix a (SaveHard h) \<longleftrightarrow> hs_to_vec env h \<noteq> None"
| "op_fits env ix a (AppendLog es) \<longleftrightarrow> list_all (storable env) es \<and> length (log_bytes env (im_log a @ es)) < 2 ^ 64"
| "op_fits env ix a (TruncateAfter n) \<longleftrightarrow> ix \<and> sorted (map le_index (im_log a))"
| "op_fits env ix a (SaveSnapshot p) \<longleftrightarrow>
     (case ps_to_vec env p of None \<Rightarrow> False | Some b \<Rightarrow> length b + SNAPSHOT_FOOTER_LEN \<le> MAX_SNAPSHOT_BYTES)"
| "op_fits env ix a SyncAll \<longleftrightarrow> True"

definition hard_rel :: "StorageEnv \<Rightarrow> bytes option \<Rightarrow> HardState \<Rightarrow> bool" where
  "hard_rel env file h \<longleftrightarrow>
     (case file of None \<Rightarrow> h = hard_state_default | Some b \<Rightarrow> hs_to_vec env h = Some b)"

definition snap_rel :: "StorageEnv \<Rightarrow> bytes \<Rightarrow> bytes option \<Rightarrow> PersistedSnapshot option \<Rightarrow> bool" where
  "snap_rel env k file sn \<longleftrightarrow>
     (case sn of
        None \<Rightarrow> file = None
      | Some p \<Rightarrow> \<exists>payload. ps_to_vec env p = Some payload \<and> length payload + SNAPSHOT_FOOTER_LEN \<le> MAX_SNAPSHOT_BYTES \<and>
          file = Some (snapshot_bytes env k payload p))"

definition file_rel :: "StorageEnv \<Rightarrow> bytes \<Rightarrow> bool \<Rightarrow> FileStorage \<Rightarrow> InMemoryStorage \<Rightarrow> bool" where
  "file_rel env k ix s a \<longleftrightarrow> hard_rel env (hard_file s) (im_hard a) \<and> flog_rel env ix s (im_log a) \<and> snap_rel env k (snap_file s) (im_snapshot a) \<and>
     snapshot_key s = Some k \<and> legacy_file s = None"

lemma file_rel_loads:
  assumes "env_ok env" and "file_rel env k ix s a"
  shows "fs_load_hard_state env s = Inr (im_hard a)" "fs_load_log env s = Inr (im_log a)"
    "fs_load_snapshot env s = Inr (im_snapshot a)"
proof -
  show "fs_load_hard_state env s = Inr (im_hard a)"
    using assms by (auto simp: file_rel_def hard_rel_def fs_load_hard_state_def env_ok_def split: option.splits)
  show "fs_load_log env s = Inr (im_log a)" using assms load_log_rel by (auto simp: file_rel_def)
  show "fs_load_snapshot env s = Inr (im_snapshot a)"
    using assms load_saved_snapshot [OF assms(1)]
    by (cases "im_snapshot a") (auto simp: file_rel_def snap_rel_def fs_load_snapshot_def)
qed

lemma file_rel_log:
  assumes "file_rel env k ix s a" and "flog_rel env ix' s' es" and "s' = s\<lparr>log_file := log_file s', idx_file := idx_file s'\<rparr>"
  shows "file_rel env k ix' s' (a\<lparr>im_log := es\<rparr>)"
proof -
  have "hard_file s' = hard_file s" "snap_file s' = snap_file s" "snapshot_key s' = snapshot_key s" "legacy_file s' = legacy_file s"
    by (subst assms(3), simp)+
  then show ?thesis using assms(1,2) by (simp add: file_rel_def)
qed

lemma unindexed_append_rel:
  assumes "env_ok env" and "file_rel env k ix s a" and "op_fits env ix a (AppendLog es)"
  shows "\<exists>s'. fs_append_log env IdxUnavailable s es = (s', None) \<and> file_rel env k False s' (fst (storage_op in_memory a (AppendLog es)))"
proof -
  have "flog_rel env ix s (im_log a)" using assms(2) by (simp add: file_rel_def)
  then obtain s' where "fs_append_log env IdxUnavailable s es = (s', None)" "flog_rel env False s' (im_log a @ es)"
      "s' = s\<lparr>log_file := log_file s', idx_file := idx_file s'\<rparr>"
    using append_log_rel [OF assms(1), of ix s "im_log a" es IdxUnavailable] assms(3) by auto
  then show ?thesis using file_rel_log [OF assms(2)] by (simp add: in_memory_defs)
qed

lemma file_storage_op:
  assumes ok: "env_ok env" and rel: "file_rel env k ix s a" and fits: "op_fits env ix a op"
  shows "\<exists>s'. storage_op (file_storage env) s op = (s', None) \<and> file_rel env k ix s' (fst (storage_op in_memory a op))"
proof (cases op)
  case (SaveHard h)
  then show ?thesis using rel fits
    by (auto simp: file_storage_def in_memory_defs fs_save_hard_state_def file_rel_def hard_rel_def flog_rel_def)
next
  case (AppendLog es)
  moreover have "flog_rel env ix s (im_log a)" using rel by (simp add: file_rel_def)
  ultimately obtain s' where "fs_append_log env IdxWritten s es = (s', None)" "flog_rel env ix s' (im_log a @ es)"
      "s' = s\<lparr>log_file := log_file s', idx_file := idx_file s'\<rparr>"
    using append_log_rel [OF ok, of ix s "im_log a" es IdxWritten] fits by auto
  then show ?thesis using AppendLog file_rel_log [OF rel] by (simp add: file_storage_def in_memory_defs)
next
  case (TruncateAfter n)
  then have ix: ix "flog_rel env True s (im_log a)" "sorted (map le_index (im_log a))"
    using rel fits by (auto simp: file_rel_def)
  then obtain s' where "fs_truncate_log_after env s n = (s', None)" "flog_rel env True s' (filter (\<lambda>e. le_index e \<le> n) (im_log a))"
      "s' = s\<lparr>log_file := log_file s', idx_file := idx_file s'\<rparr>"
    using truncate_log_rel [OF ok] by blast
  then show ?thesis using TruncateAfter ix(1) file_rel_log [OF rel] by (simp add: file_storage_def in_memory_defs)
next
  case (SaveSnapshot p)
  then obtain b where b: "ps_to_vec env p = Some b" "length b + SNAPSHOT_FOOTER_LEN \<le> MAX_SNAPSHOT_BYTES"
    using fits by (auto split: option.splits)
  then have "fs_save_snapshot env s p = (s\<lparr>snap_file := Some (snapshot_bytes env k b p)\<rparr>, None)"
    using rel by (simp add: fs_save_snapshot_def file_rel_def snapshot_bytes_def Let_def)
  then show ?thesis using SaveSnapshot rel b
    by (simp add: file_storage_def in_memory_defs file_rel_def flog_rel_def snap_rel_def)
next
  case SyncAll
  then show ?thesis using rel by (simp add: file_storage_def in_memory_defs fs_sync_all_committed_state_def)
qed

text \<open>
  Runs: calls, appends during which the index file cannot be opened, and restarts of the process
  that find the index in some state.  The log file is created before the index, so there is no index
  without a log.
\<close>

datatype FileEvent = Performed StorageOp | AppendedUnindexed "LogEntry list" | Restarted "bytes option"

definition fs_restart :: "StorageEnv \<Rightarrow> bytes \<Rightarrow> bytes option \<Rightarrow> FileStorage \<Rightarrow> StorageError + FileStorage" where
  "fs_restart env secret idx s =
     map_sum id (with_cluster_secret env secret)
       (fs_open env (s\<lparr>idx_file := if log_file s = None then None else idx\<rparr>))"

fun file_run :: "StorageEnv \<Rightarrow> bytes \<Rightarrow> FileStorage \<Rightarrow> FileEvent list \<Rightarrow> StorageError + FileStorage" where
  "file_run env secret s [] = Inr s"
| "file_run env secret s (Performed op # evs) =
     (case storage_op (file_storage env) s op of
        (s', None) \<Rightarrow> file_run env secret s' evs
      | (_, Some e) \<Rightarrow> Inl e)"
| "file_run env secret s (AppendedUnindexed es # evs) =
     (case fs_append_log env IdxUnavailable s es of
        (s', None) \<Rightarrow> file_run env secret s' evs
      | (_, Some e) \<Rightarrow> Inl e)"
| "file_run env secret s (Restarted idx # evs) =
     (case fs_restart env secret idx s of Inl e \<Rightarrow> Inl e | Inr s' \<Rightarrow> file_run env secret s' evs)"

fun memory_run :: "InMemoryStorage \<Rightarrow> FileEvent list \<Rightarrow> InMemoryStorage" where
  "memory_run a [] = a"
| "memory_run a (Performed op # evs) = memory_run (fst (storage_op in_memory a op)) evs"
| "memory_run a (AppendedUnindexed es # evs) = memory_run (fst (storage_op in_memory a (AppendLog es))) evs"
| "memory_run a (Restarted _ # evs) = memory_run a evs"

text \<open>The index is complete until an append misses it, and again after the next restart.\<close>

fun events_fit :: "StorageEnv \<Rightarrow> bool \<Rightarrow> InMemoryStorage \<Rightarrow> FileEvent list \<Rightarrow> bool" where
  "events_fit env ix a [] \<longleftrightarrow> True"
| "events_fit env ix a (Performed op # evs) \<longleftrightarrow>
     op_fits env ix a op \<and> events_fit env ix (fst (storage_op in_memory a op)) evs"
| "events_fit env ix a (AppendedUnindexed es # evs) \<longleftrightarrow>
     op_fits env ix a (AppendLog es) \<and> events_fit env False (fst (storage_op in_memory a (AppendLog es))) evs"
| "events_fit env ix a (Restarted idx # evs) \<longleftrightarrow> stale_index env (im_log a) idx \<and> events_fit env True a evs"

definition fresh_dir :: FileStorage where
  "fresh_dir = \<lparr>hard_file = None, log_file = None, idx_file = None, snap_file = None, legacy_file = None,
     snapshot_key = None, insecure_allowed = False\<rparr>"

lemma restart_restores:
  assumes ok: "env_ok env" and rel: "file_rel env (derive_snapshot_key env secret) ix s a" and "stale_index env (im_log a) idx"
  shows "\<exists>s'. fs_restart env secret idx s = Inr s' \<and> file_rel env (derive_snapshot_key env secret) True s' a"
proof -
  define d where "d = s\<lparr>idx_file := (if log_file s = None then None else idx), snapshot_key := None, insecure_allowed := False\<rparr>"
  have d: "hard_file d = hard_file s" "log_file d = log_file s" "snap_file d = snap_file s" "legacy_file d = None"
    using rel by (simp_all add: d_def file_rel_def)
  have log: "flog_rel env ix s (im_log a)" using rel by (simp add: file_rel_def)
  obtain s1 where s1: "reconcile_log_index env d = Inr s1" "flog_rel env True s1 (im_log a)" "\<exists>i. s1 = d\<lparr>idx_file := i\<rparr>"
  proof (cases "log_file s")
    case None
    then have "reconcile_log_index env d = Inr d" "flog_rel env True d (im_log a)" "d = d\<lparr>idx_file := None\<rparr>"
      using log by (auto simp: reconcile_log_index_def d flog_rel_def d_def)
    then show thesis using that by blast
  next
    case (Some b)
    then have "log_file d = Some (log_bytes env (im_log a))" "stale_index env (im_log a) (idx_file d)"
      using log assms(3) by (auto simp: flog_rel_def d d_def)
    then have "reconcile_log_index env d = Inr (d\<lparr>idx_file := Some (index_bytes env 0 (im_log a))\<rparr>)"
      using ok log by (intro reconcile_restores) (auto simp: flog_rel_def)
    then show thesis using that log Some by (auto simp: flog_rel_def d)
  qed
  have "fs_open env (s\<lparr>idx_file := if log_file s = None then None else idx\<rparr>) = Inr s1"
    using s1(1) d(4) by (simp add: fs_open_def migrate_legacy_log_def d_def)
  moreover have "file_rel env (derive_snapshot_key env secret) True (with_cluster_secret env secret s1) a"
    using s1(2,3) rel by (auto simp: file_rel_def flog_rel_def with_cluster_secret_def d)
  ultimately show ?thesis by (simp add: fs_restart_def)
qed

lemma file_run_rel:
  assumes "env_ok env" and "file_rel env (derive_snapshot_key env secret) ix s a" and "events_fit env ix a evs"
  shows "\<exists>s' ix'. file_run env secret s evs = Inr s' \<and> file_rel env (derive_snapshot_key env secret) ix' s' (memory_run a evs)"
  using assms(2,3)
proof (induction evs arbitrary: s a ix)
  case (Cons ev evs)
  show ?case
  proof (cases ev)
    case (Performed op)
    then obtain s' where "storage_op (file_storage env) s op = (s', None)"
        "file_rel env (derive_snapshot_key env secret) ix s' (fst (storage_op in_memory a op))"
      using file_storage_op [OF assms(1) Cons.prems(1), of op] Cons.prems(2) by auto
    then show ?thesis using Cons.IH [of ix s' "fst (storage_op in_memory a op)"] Cons.prems(2) Performed by simp
  next
    case (AppendedUnindexed es)
    then obtain s' where "fs_append_log env IdxUnavailable s es = (s', None)"
        "file_rel env (derive_snapshot_key env secret) False s' (fst (storage_op in_memory a (AppendLog es)))"
      using unindexed_append_rel [OF assms(1) Cons.prems(1), of es] Cons.prems(2) by auto
    then show ?thesis
      using Cons.IH [of False s' "fst (storage_op in_memory a (AppendLog es))"] Cons.prems(2) AppendedUnindexed by simp
  next
    case (Restarted idx)
    then obtain s' where "fs_restart env secret idx s = Inr s'" "file_rel env (derive_snapshot_key env secret) True s' a"
      using restart_restores [OF assms(1) Cons.prems(1), of idx] Cons.prems(2) by auto
    then show ?thesis using Cons.IH [of True s' a] Cons.prems(2) Restarted by simp
  qed
qed auto

lemma fresh_dir_rel: "file_rel env (derive_snapshot_key env secret) True (with_cluster_secret env secret fresh_dir) in_memory_new"
  by (simp add: file_rel_def hard_rel_def flog_rel_def snap_rel_def with_cluster_secret_def fresh_dir_def in_memory_new_def)

text \<open>
  C31: from an empty directory with a cluster secret, over every sequence of calls whose data can be
  serialised within the limits, of appends during which the index file cannot be opened, and of restarts
  that find the index missing, torn, behind or ahead, no call and no opening fails, and the hard
  state, the log and the snapshot read from the files are those of the in-memory storage.  The log is cut
  only while its entries are in the order of their indices, and, once an append has missed the index,
  not before the next restart: without the second condition the entries the index does not know survive
  the cut (\<open>unindexed_entries_survive_truncation\<close>).  Calls whose file writes fail are not part of a run.
\<close>

theorem file_storage_refines:
  assumes "env_ok env" and "events_fit env True in_memory_new evs"
  shows "\<exists>s. file_run env secret (with_cluster_secret env secret fresh_dir) evs = Inr s \<and>
     load_hard_state (file_storage env) s = load_hard_state in_memory (memory_run in_memory_new evs) \<and>
     load_log (file_storage env) s = load_log in_memory (memory_run in_memory_new evs) \<and>
     load_snapshot (file_storage env) s = load_snapshot in_memory (memory_run in_memory_new evs)"
proof -
  obtain s where "file_run env secret (with_cluster_secret env secret fresh_dir) evs = Inr s"
      and "\<exists>ix. file_rel env (derive_snapshot_key env secret) ix s (memory_run in_memory_new evs)"
    using file_run_rel [OF assms(1) fresh_dir_rel assms(2)] by blast
  then show ?thesis using file_rel_loads [OF assms(1)] by (auto simp: file_storage_def in_memory_def)
qed

definition demo_entry :: "u64 \<Rightarrow> LogEntry" where
  "demo_entry i = \<lparr>le_term = 1, le_index = i, le_command = Noop\<rparr>"

definition demo_env :: StorageEnv where
  "demo_env =
     \<lparr>hs_to_vec = (\<lambda>h. if h = hard_state_default then Some [123, 125] else None),
      hs_from_slice = (\<lambda>_. Some hard_state_default),
      le_to_string = (\<lambda>e. if e = demo_entry 1 then Some [49] else if e = demo_entry 2 then Some [50, 50] else None),
      le_from_str = (\<lambda>b. if b = [49] then Some (demo_entry 1) else if b = [50, 50] then Some (demo_entry 2) else None),
      log_from_slice = (\<lambda>_. None),
      ps_to_vec = (\<lambda>_. None),
      ps_from_slice = (\<lambda>_. None),
      fs_hmac = (\<lambda>_ _. replicate 32 7),
      fs_ct_eq = (=)\<rparr>"

lemma demo_env_ok: "env_ok demo_env"
  by (auto simp: env_ok_def demo_env_def split: if_splits)

lemma demo_storable: "storable demo_env (demo_entry 1)" "storable demo_env (demo_entry 2)"
  by (simp_all add: storable_def line_of_def demo_env_def demo_entry_def MAX_LOG_ENTRY_BYTES_def)

definition demo_events :: "FileEvent list" where
  "demo_events =
     [Performed (AppendLog [demo_entry 1]), AppendedUnindexed [demo_entry 2],
      Restarted (Some (take 24 (index_bytes demo_env 0 [demo_entry 1, demo_entry 2]))),
      Performed (TruncateAfter 1), Performed (SaveHard hard_state_default)]"

lemma demo_events_fit: "events_fit demo_env True in_memory_new demo_events"
proof -
  have "stale_index demo_env [demo_entry 1, demo_entry 2] (Some (take 24 (index_bytes demo_env 0 [demo_entry 1, demo_entry 2])))"
    using stale_index_prefix [where extra = "[]"] by (metis append_Nil2)
  then show ?thesis
    using demo_storable
    by (simp add: demo_events_def in_memory_defs in_memory_new_def line_of_def demo_env_def demo_entry_def)
qed

theorem file_storage_refines_witness:
  "\<exists>s. file_run demo_env [1] (with_cluster_secret demo_env [1] fresh_dir) demo_events = Inr s \<and>
     load_log (file_storage demo_env) s = Inr [demo_entry 1]"
proof -
  have "memory_run in_memory_new demo_events = \<lparr>im_hard = hard_state_default, im_log = [demo_entry 1], im_snapshot = None\<rparr>"
    by (simp add: demo_events_def in_memory_defs in_memory_new_def demo_entry_def word_le_nat_alt)
  then show ?thesis using file_storage_refines [OF demo_env_ok demo_events_fit, of "[1]"] by (auto simp: in_memory_def)
qed

section \<open>What the index does not cover\<close>

text \<open>
  Entries that were appended while the index could not be opened are in the log only.  Cutting the log
  behind the indexed entries then takes the fast path, reports success and keeps them.
\<close>

theorem unindexed_entries_survive_truncation:
  assumes ok: "env_ok env" and rel: "flog_rel env True s es" and "es \<noteq> []" and "\<forall>e\<in>set es. le_index e \<le> a"
    and new: "list_all (storable env) new" "new \<noteq> []" and s1: "fs_append_log env IdxUnavailable s new = (s1, r)"
  shows "r = None \<and> fs_truncate_log_after env s1 a = (s1, None) \<and> fs_load_log env s1 = Inr (es @ new)"
proof -
  have files: "log_file s = Some (log_bytes env es)" "idx_file s = Some (index_bytes env 0 es)"
    using rel assms(3) by (auto simp: flog_rel_def)
  have s1': "r = None" "s1 = s\<lparr>log_file := Some (log_bytes env (es @ new))\<rparr>"
    using s1 new(2) append_lines_storable [OF ok new(1)] by (auto simp: fs_append_log_def files contents_def)
  have bound: "length (log_bytes env es) < 2 ^ 64" using rel by (simp add: flog_rel_def)
  have "lookup_truncate_offsets (log_file s1) (idx_file s1) a =
      Some (length (log_bytes env (es @ new)), length (index_bytes env 0 es))"
    using last_record [OF assms(3) bound] butlast_log_shorter [OF assms(3), of env]
      find_cut_index [of 0 env es a 0] bound assms(3,4) length_index_bytes [of env 0 es]
    by (auto simp: lookup_truncate_offsets_def s1' files Let_def LOG_INDEX_RECORD_LEN_def simp del: length_index_bytes)
  then have "fs_truncate_log_after env s1 a = (s1, None)"
    by (simp add: fs_truncate_log_after_def s1' files set_len_def)
  moreover have "list_all (storable env) (es @ new)" using rel new(1) by (simp add: flog_rel_def)
  then have "fs_load_log env s1 = Inr (es @ new)"
    using read_log_bytes [OF ok, of "es @ new"] by (simp add: fs_load_log_def s1')
  ultimately show ?thesis using s1'(1) by simp
qed

text \<open>A snapshot is loaded under a key only from a file that saving under the key would have written.\<close>

lemma loaded_snapshot_authentic:
  assumes ok: "env_ok env" and key: "snapshot_key s = Some k" and load: "fs_load_snapshot env s = Inr (Some p)"
  shows "\<exists>payload. snap_file s = Some (snapshot_bytes env k payload p) \<and> ps_from_slice env payload = Some p"
proof -
  obtain b where b: "snap_file s = Some b" using load by (cases "snap_file s") (auto simp: fs_load_snapshot_def)
  have ct: "fs_ct_eq env = (=)" using ok by (simp add: env_ok_def)
  define payload where "payload = take (length b - SNAPSHOT_FOOTER_LEN) b"
  define footer where "footer = drop (length b - SNAPSHOT_FOOTER_LEN) b"
  have checks: "length b \<ge> SNAPSHOT_FOOTER_LEN" "length b \<le> MAX_SNAPSHOT_BYTES" "take 16 footer = SNAPSHOT_MAGIC"
    "unat (from_le_bytes (take 8 (drop 16 footer)) :: u64) = length payload"
    "compute_snapshot_tag env k payload (from_le_bytes (take 8 (drop 24 footer))) (from_le_bytes (take 8 (drop 32 footer))) = drop 40 footer"
    "ps_from_slice env payload = Some p" "ps_last_index p = from_le_bytes (take 8 (drop 24 footer))"
    "ps_last_term p = from_le_bytes (take 8 (drop 32 footer))"
    using load unfolding fs_load_snapshot_def b option.case Let_def key ct footer_def [symmetric] payload_def [symmetric]
    by (auto split: if_splits option.splits)
  have len: "length footer = 72" using checks(1) by (simp add: footer_def SNAPSHOT_FOOTER_LEN_def)
  have field: "u64_le (from_le_bytes (take 8 (drop n footer))) = take 8 (drop n footer)" if "n + 8 \<le> 72" for n
  proof -
    have "length (take 8 (drop n footer)) = 8" using that len by simp
    then show ?thesis using le_bytes_from_le_bytes [of "take 8 (drop n footer)", where 'a = 64] by (simp add: u64_le_def)
  qed
  have "(word_of_nat (length payload) :: u64) = from_le_bytes (take 8 (drop 16 footer))"
    unfolding checks(4) [symmetric] by simp
  then have "u64_le (word_of_nat (length payload)) = take 8 (drop 16 footer)" using field [of 16] by simp
  then have "snapshot_bytes env k payload p = payload @ take 16 footer @ take 8 (drop 16 footer) @
      take 8 (drop 24 footer) @ take 8 (drop 32 footer) @ drop 40 footer"
    using checks field [of 24] field [of 32] by (simp add: snapshot_bytes_def)
  also have "\<dots> = payload @ footer" by (simp add: take_add [symmetric] flip: append_assoc drop_drop)
  also have "\<dots> = b" by (simp add: payload_def footer_def)
  finally show ?thesis using b checks(6) by auto
qed

end
