(* ===== verification/Spec2Isabelle.thy ===== *)
theory Spec2Isabelle
  imports Raft_Safety Kmip_Ttlv Fips_Fsm Access_Control Binary_Sign Gcm_Counter Auth_Rate_Limit Tenants
    Replication_Log Cluster_Config File_Storage
begin

text \<open>
  Verification of craton-hsm-enterprise, the enterprise extensions of a software HSM.

  \<^bold>\<open>The program and its parts.\<close>  The workspace has one crate per concern.  The development
  covers the parts that are logic of their own rather than a wrapper around a cryptographic
  library, a device or a network service:

  \<^item> \<open>craton-hsm-cluster\<close>: replication of key material by Raft.  A \<open>RaftNode\<close> holds a
    \<open>RaftLog\<close>, a \<open>ClusterStateMachine\<close>, a replay cache, a vote limiter and a storage object;
    messages are authenticated by HMACs under the cluster secret.
  \<^item> \<open>craton-hsm-kmip\<close>: the KMIP wire format.
  \<^item> \<open>craton-hsm-certified\<close>: the FIPS 140-3 finite state model and signed binaries.
  \<^item> \<open>craton-hsm-auth\<close>: roles, key lists, dual control, tenants, rate limits.
  \<^item> \<open>craton-hsm-awslc\<close>: the AES-GCM usage counters and their journal.

  \<^bold>\<open>Conventions.\<close>  A Rust \<open>u64\<close>, \<open>u32\<close> or \<open>u8\<close> is a word of that width with the wrap-around of
  a release build; checked and saturating operations are written out.  A \<open>usize\<close> that counts
  elements in memory is a natural number.  A string is the list of its UTF-8 bytes as
  characters.  A hash map is a partial function, or an association list where its size or
  the order of a walk matters.  A \<open>Result\<close> is a sum with the error on the left; an error that
  carries only a message is named by the check that raised it.  Clock readings, random draws,
  outcomes of file operations and the order in which a map is walked are arguments.  Cryptographic
  primitives and the JSON library are parameters; what is assumed of them is a named
  hypothesis of the theorem, and is instantiated in its witness.

  \<^bold>\<open>Concurrency.\<close>  A call is one step of a model, with three exceptions.  In \<open>Fips_Fsm\<close> every
  operation on an atomic is a step of its thread.  In \<open>Access_Control\<close> the two map accesses of
  \<open>consume_approved\<close> are separate steps.  In the second half of \<open>Tenants\<close> the two map accesses of
  a creation, a deletion and a reservation are separate steps.  The theorems there range over all
  interleavings of these steps.  In \<open>Auth_Rate_Limit\<close> the check and the failure of an attempt are two
  calls, and calls under other keys may come between them.  Elsewhere, and in particular in
  \<open>Replay_Cache\<close>, \<open>Vote_Limiter\<close>, \<open>Gcm_Counter\<close> and the registry of \<open>Tenants\<close>, where the code takes
  more than one lock in a call, the theorems are about calls that do not overlap; where
  overlapping calls break them, a lemma shows it (\<open>Gcm_Counter.lock_removal_repeats_count\<close>,
  \<open>Tenants.deletion_strips_new_tenant\<close>).

  \<^bold>\<open>Foundations.\<close>
  \<^item> \<open>HSM_Prelude\<close>: words, byte order, checked arithmetic, list lemmas and the collections of
    simplification rules.  \<open>Rust_Strings\<close>: UTF-8 validity, decimal and hexadecimal text, lines.

  \<^bold>\<open>The Raft node, \<open>craton-hsm-cluster/src/raft.rs\<close>.\<close>
  \<^item> \<open>Raft_Types\<close>: terms, commands, entries and the canonical encoding of a command.
  \<^item> \<open>Raft_Log\<close>: \<open>RaftLog\<close>, with its well-formedness and the effect of each method on the
    entries.
  \<^item> \<open>Replay_Cache\<close>: \<open>ReplayCache\<close> and \<open>check_message_freshness\<close>.  The locale \<open>replay_guard\<close>
    is what the message verifiers use of it.
  \<^item> \<open>Vote_Limiter\<close>: \<open>VoteRateLimiter\<close>; the locale \<open>token_budget\<close> bounds the requests that a
    run without evictions lets through.
  \<^item> \<open>Raft_Messages\<close>: the RPC messages and the bytes under their tags, which are shown to
    determine the message.  \<open>Raft_Auth\<close>: signing and verification of all requests and replies,
    proved once for each of the locales \<open>request_verifier\<close> and \<open>reply_verifier\<close>.
  \<^item> \<open>Raft_Node\<close>: the state of a node, construction from storage, persistence, role changes,
    applying and compacting.  \<open>Raft_Apply\<close>: what applying and compacting do, and the invariant
    between log, snapshot and state machine.
  \<^item> \<open>Raft_Vote\<close>, \<open>Raft_Append\<close>, \<open>Raft_Snapshot\<close>, \<open>Raft_Leader\<close>: the handlers of votes and
    pre-votes, \<open>handle_append_entries\<close>, snapshot transfer, and the leader's side with
    membership changes, replication rounds and the commit index.
  \<^item> \<open>Raft_Safety\<close>: a step relation with one rule per operation that changes a node, restarts
    included.  One vote per term follows over whole runs, and with the locale \<open>quorum_system\<close>
    one leader per term.  Log matching and the preservation of committed entries are proved per
    message, on nodes whose log rises by one from its snapshot (\<open>node_log_ok\<close>); leader
    completeness over whole clusters is not claimed, and the lemmas of \<open>Raft_Leader\<close> that give
    commits without a majority in clusters of even size show why.

  \<^bold>\<open>What a node is built on.\<close>
  \<^item> \<open>State_Machine\<close>: \<open>state_machine.rs\<close>; the locale \<open>replicated_machine\<close> carries the argument that
    a snapshot and the rest of the log give the state of the whole log.
  \<^item> \<open>Raft_Storage\<close>: the trait \<open>RaftStorage\<close> of \<open>storage.rs\<close> as a record of operations, its
    contract as the locales \<open>raft_storage\<close> and \<open>durable_storage\<close>, and \<open>InMemoryStorage\<close>, an
    instance of both.  \<open>File_Storage\<close>: \<open>FileStorage\<close>, with the log as lines of text, the
    index of offsets beside it and the authenticated snapshot.  Over sequences of operations
    within the limits, appends that miss the index and restarts with a stale index it gives the same
    answers as \<open>InMemoryStorage\<close>, as long as the log is not cut while its index has gaps.
  \<^item> \<open>Replication_Log\<close>: the event log, the framing and the receive loop of \<open>replication.rs\<close>;
    the bounded log refines the list of all events.  \<open>Cluster_Config\<close>: \<open>config.rs\<close> and
    \<open>health.rs\<close>.

  \<^bold>\<open>The other crates.\<close>
  \<^item> \<open>Kmip_Ttlv\<close>: \<open>ttlv.rs\<close>; the single-pass encoder equals a compositional one, and the
    decoder with its limits inverts it.
  \<^item> \<open>Fips_Fsm\<close>: \<open>fsm.rs\<close>; validation decides the stated conditions, the default model reaches
    an operational state only through the self tests, and the runtime machine follows the
    model under every interleaving.
  \<^item> \<open>Binary_Sign\<close>: \<open>binary_sign.rs\<close>, \<open>integrity.rs\<close>, \<open>hex_util.rs\<close>; what verifies was signed, and
    what was signed within the limits of the format verifies.
  \<^item> \<open>Access_Control\<close>: \<open>rbac/\<close>; no operation under dual control is consumed without the approvals
    of distinct eligible users.  \<open>Auth_Rate_Limit\<close>: \<open>auth/rate_limit.rs\<close>; the number of
    guesses, in windows that begin with a failure.  \<open>Tenants\<close>: \<open>tenant/\<close>; quotas and the registry.
  \<^item> \<open>Gcm_Journal\<close>: \<open>gcm_counter.rs\<close>; the journal refines a list of records.  \<open>Gcm_Counter\<close>: the
    counters of \<open>lib.rs\<close> over the locale \<open>ceiling_store\<close>, which the journal provides; with a
    journal and calls that do not overlap, counts never repeat under a key, restarts included.

  \<^bold>\<open>Termination and bounds.\<close>  No model uses fuel.  Loops are structural recursion or functions
  with a measure, such as the length of the remaining input; the depth limit of the TTLV decoder
  and the limits on items and bytes are those of the code.  The constants of the code (sizes,
  windows, thresholds) are definitions with its values.  Lengths that the code stores as \<open>u64\<close>
  are assumed to fit only where a theorem says so.

  \<^bold>\<open>Flaws.\<close>  Where the code does not do what its comments say, the model follows the code and a
  lemma beside the operation gives a concrete run, for example
  \<open>Raft_Leader.compacted_log_reuses_index\<close>, \<open>Raft_Leader.lagging_peer_shifts_batches\<close>, \<open>Gcm_Journal.torn_write_forgets\<close> or
  \<open>File_Storage.unindexed_entries_survive_truncation\<close>.

  \<^bold>\<open>Not modelled.\<close>  The back ends \<open>craton-hsm-openssl\<close>, \<open>craton-hsm-cng\<close>, \<open>craton-hsm-infineon\<close>,
  \<open>craton-hsm-nxp\<close>, \<open>craton-hsm-pkcs11\<close> and the cryptographic part of \<open>craton-hsm-awslc\<close> call
  foreign libraries and devices through FFI.  The shims of \<open>craton-hsm-cloud\<close> translate HTTP
  requests of cloud services.  The KMIP operations and server dispatch to the core HSM, which is
  not part of this repository, over TLS sockets.  The providers of \<open>craton-hsm-auth/src/auth\<close>
  (OIDC, LDAP, certificates, second factors, PIN) rest on token, directory and X.509 libraries.
  Of \<open>craton-hsm-certified\<close>, test vectors, self tests and generated documents are left out.
  Sockets, TLS handshakes, logging and the texts of messages are left out everywhere.
\<close>

end
